(* ===== verification/Xv6_Base.thy ===== *)
theory Xv6_Base
  imports Main "HOL-Library.Word"
begin

unbundle bit_operations_syntax

section \<open>The prelude: machine types, results, constants of the kernel\<close>

text \<open>
  This theory holds what every component shares.

  \<^item> The fixed-width integers of \<^verbatim>\<open>kernel/types.h\<close> and the constants of
    \<^verbatim>\<open>kernel/param.h\<close>.
  \<^item> The result type of kernel code. A call either returns (\<open>Inr\<close>) or stops (\<open>Inl\<close>): it
    panics, it dereferences a null or wild pointer, it spins on a lock that another hart holds,
    it loops forever, or it goes to sleep on a channel. A sleeping call carries the state in which it left the CPU.
  \<^item> Sequencing of fallible calls (\<open>andthen\<close>), loops over an array (\<open>for_each\<close>) and their
    lemmas, which carry the component proofs.
  \<^item> The identities of the kernel's spin locks and sleep channels, which the C code writes as
    addresses of objects.
\<close>

subsection \<open>Fixed-width integers\<close>

type_synonym u8 = "8 word"
type_synonym u16 = "16 word"
type_synonym u32 = "32 word"
type_synonym u64 = "64 word"

subsection \<open>Constants of \<^verbatim>\<open>param.h\<close>\<close>

definition NPROC :: nat where "NPROC = 64"
definition NCPU :: nat where "NCPU = 8"
definition NOFILE :: nat where "NOFILE = 16"
definition NFILE :: nat where "NFILE = 100"
definition NINODE :: nat where "NINODE = 50"
definition NDEV :: nat where "NDEV = 10"
definition ROOTDEV :: u32 where "ROOTDEV = 1"
definition MAXARG :: nat where "MAXARG = 32"
definition MAXOPBLOCKS :: nat where "MAXOPBLOCKS = 10"
definition LOGSIZE :: nat where "LOGSIZE = MAXOPBLOCKS * 3"
definition NBUF :: nat where "NBUF = MAXOPBLOCKS * 3"
definition MAXPATH :: nat where "MAXPATH = 128"

lemmas param_defs = NPROC_def NCPU_def NOFILE_def NFILE_def NINODE_def NDEV_def ROOTDEV_def
  MAXARG_def MAXOPBLOCKS_def LOGSIZE_def NBUF_def MAXPATH_def

subsection \<open>Locks and channels\<close>

text \<open>
  The kernel names a spin lock by its address. Each constructor is one lock object; the inner
  spin lock of a sleep lock is \<open>SleepLk\<close> of that sleep lock.
\<close>

datatype sleeplockid = BufLock nat | InodeLock nat

datatype lockid =
    KmemLock | PidLock | WaitLock | ProcLock nat | FtableLock | ItableLock | BcacheLock
  | LogLock | PipeLock u64 | ConsLock | UartTxLock | VdiskLock | TicksLock | PrLock
  | SleepLk sleeplockid

text \<open>
  A sleep channel is the address of some kernel object: a process slot (\<^verbatim>\<open>wait\<close>), the log,
  the tick counter, the two counters of a pipe, a sleep lock, a buffer (\<^verbatim>\<open>virtio_disk_rw\<close>),
  the descriptor table, the console and the UART read indices.
\<close>

datatype chan =
    ProcChan nat | LogChan | TicksChan | PipeReadChan u64 | PipeWriteChan u64
  | SleepLockChan sleeplockid | BufChan nat | DiskFreeChan | ConsChan | UartTxChan

subsection \<open>Results of kernel code\<close>

datatype 's stop =
    Panic string        \<comment> \<open>\<^verbatim>\<open>panic(msg)\<close>: prints and loops forever\<close>
  | Fault               \<comment> \<open>a null or out-of-range pointer is dereferenced\<close>
  | Spin lockid         \<comment> \<open>\<^verbatim>\<open>acquire\<close> spins: another hart holds the lock\<close>
  | Hang                \<comment> \<open>loops forever: the kernel has panicked or a device never answers\<close>
  | Sleeping chan 's    \<comment> \<open>\<^verbatim>\<open>sleep(chan, lk)\<close>: the CPU is given up in this state\<close>
  | Exited 's           \<comment> \<open>\<^verbatim>\<open>exit\<close>: the CPU is given up in this state and the process never runs again\<close>

type_synonym ('s, 'a) res = "'s stop + 'a"

definition andthen :: "'e + 'a \<Rightarrow> ('a \<Rightarrow> 'e + 'b) \<Rightarrow> 'e + 'b" where
  "andthen r f = (case r of Inl e \<Rightarrow> Inl e | Inr x \<Rightarrow> f x)"

lemma andthen_simps [simp]:
  "andthen (Inl e) f = Inl e"
  "andthen (Inr x) f = f x"
  by (simp_all add: andthen_def)

lemma andthen_cong [fundef_cong]:
  "r = r' \<Longrightarrow> (\<And>x. r' = Inr x \<Longrightarrow> f x = f' x) \<Longrightarrow> andthen r f = andthen r' f'"
  by (cases r') (auto simp: andthen_def)

lemma andthen_eq_Inr_iff: "andthen r f = Inr y \<longleftrightarrow> (\<exists>x. r = Inr x \<and> f x = Inr y)"
  by (cases r) auto

lemma andthen_eq_InrE:
  assumes "andthen r f = Inr y"
  obtains x where "r = Inr x" and "f x = Inr y"
  using assms by (auto simp: andthen_eq_Inr_iff)

lemma andthen_assoc: "andthen (andthen r f) g = andthen r (\<lambda>x. andthen (f x) g)"
  by (cases r) auto

lemma andthen_Inr_right [simp]: "andthen r Inr = r"
  by (cases r) auto

lemma andthen_if: "andthen (if b then r else r') f = (if b then andthen r f else andthen r' f)"
  by simp

text \<open>A C \<^verbatim>\<open>for\<close> loop whose body runs once for each element and may stop the kernel.\<close>

fun for_each :: "('x \<Rightarrow> 's \<Rightarrow> 'e + 's) \<Rightarrow> 'x list \<Rightarrow> 's \<Rightarrow> 'e + 's" where
  "for_each f [] s = Inr s"
| "for_each f (x # xs) s = andthen (f x s) (for_each f xs)"

lemma for_each_append: "for_each f (xs @ ys) s = andthen (for_each f xs s) (for_each f ys)"
  proof (induction xs arbitrary: s)
  case (Cons x xs)
  have "for_each f (xs @ ys) = (\<lambda>s. andthen (for_each f xs s) (for_each f ys))"
    using Cons.IH by blast
  then show ?case by (simp add: andthen_assoc)
qed simp

lemma for_each_inv:
  assumes "for_each f xs s = Inr t" and "I s"
    and "\<And>x s s'. x \<in> set xs \<Longrightarrow> I s \<Longrightarrow> f x s = Inr s' \<Longrightarrow> I s'"
  shows "I t"
  using assms
proof (induction xs arbitrary: s)
  case (Cons x xs)
  from Cons.prems(1) obtain s' where s': "f x s = Inr s'" "for_each f xs s' = Inr t"
    by (auto elim: andthen_eq_InrE)
  show ?case
  proof (rule Cons.IH [OF s'(2)])
    show "I s'" by (rule Cons.prems(3) [OF _ Cons.prems(2) s'(1)]) simp
    show "\<And>y s s'. y \<in> set xs \<Longrightarrow> I s \<Longrightarrow> f y s = Inr s' \<Longrightarrow> I s'"
      by (rule Cons.prems(3)) simp_all
  qed
qed simp

lemma for_each_total:
  assumes "\<And>x s. x \<in> set xs \<Longrightarrow> I s \<Longrightarrow> \<exists>s'. f x s = Inr s' \<and> I s'" and "I s"
  shows "\<exists>t. for_each f xs s = Inr t \<and> I t"
  using assms
proof (induction xs arbitrary: s)
  case (Cons x xs)
  obtain s' where "f x s = Inr s'" and "I s'" using Cons.prems by (meson list.set_intros(1))
  moreover have "\<exists>t. for_each f xs s' = Inr t \<and> I t"
    using Cons.IH [OF _ \<open>I s'\<close>] Cons.prems(1) by simp
  ultimately show ?case by auto
qed auto

text \<open>The collections that the component theories fill.\<close>

named_theorems kernel_simps \<open>equations of kernel operations in states where they return\<close>
named_theorems frame_simps \<open>what an operation leaves unchanged\<close>

subsection \<open>Words and naturals\<close>

lemma unat_less_exp: "unat x < 2 ^ LENGTH('a)" for x :: "'a::len word"
  by (rule unsigned_less)

lemma unat_plus_le: "unat a + unat b < 2 ^ LENGTH('a) \<Longrightarrow> unat (a + b) = unat a + unat b"
  for a b :: "'a::len word"
  by (metis unat_add_lem)

lemma unat_minus_le: "b \<le> a \<Longrightarrow> unat (a - b) = unat a - unat b"
  for a b :: "'a::len word"
  by (rule unat_sub)

lemma bit_word_iff_odd: "bit x k \<longleftrightarrow> odd (unat x div 2 ^ k)"
  for x :: "'a::len word"
proof -
  have "bit x k = bit (unat x) k" by (simp add: bit_unsigned_iff)
  then show ?thesis by (simp add: bit_iff_odd)
qed

lemma not_bit_high: "unat x < 2 ^ n \<Longrightarrow> n \<le> k \<Longrightarrow> \<not> bit x k"
  for x :: "'a::len word"
  by (metis (no_types, lifting) bit_word_iff_odd div_less dvd_0_right less_le_trans
      one_le_numeral power_increasing)

lemma not_bit_low: "2 ^ n dvd unat x \<Longrightarrow> k < n \<Longrightarrow> \<not> bit x k"
  for x :: "'a::len word"
proof -
  assume d: "2 ^ n dvd unat x" and k: "k < n"
  obtain q where "unat x = 2 ^ n * q" using d by (auto elim: dvdE)
  moreover have "(2::nat) ^ n = 2 ^ k * (2 * 2 ^ (n - k - 1))"
    using k by (simp add: power_add [symmetric] flip: power_Suc)
  ultimately have "unat x = 2 ^ k * (2 * (2 ^ (n - k - 1) * q))" by simp
  then show ?thesis by (simp add: bit_word_iff_odd)
qed

lemma and_push_bit_1_neq_0: "x AND push_bit n 1 \<noteq> 0 \<longleftrightarrow> bit x n"
  for x :: "'a::len word"
  by (rule bit_iff_and_push_bit_not_eq_0 [symmetric])

lemma unat_drop_bit: "unat (drop_bit n x) = unat x div 2 ^ n"
  for x :: "'a::len word"
  unfolding unsigned_drop_bit_eq
  by (simp only: take_bit_eq_mod drop_bit_eq_div mod_less [OF unat_less_exp])

lemma unat_take_bit: "unat (take_bit n x) = unat x mod 2 ^ n"
  for x :: "'a::len word"
  unfolding unsigned_take_bit_eq by (simp only: take_bit_eq_mod)

lemma unat_push_bit: "unat (push_bit n x) = unat x * 2 ^ n mod 2 ^ LENGTH('a)"
  for x :: "'a::len word"
  unfolding unsigned_push_bit_eq by (simp only: take_bit_eq_mod push_bit_eq_mult)

lemma unat_minus_one: "y \<noteq> 0 \<Longrightarrow> unat (y - 1) = unat y - 1"
  for y :: "'a::len word"
  by (metis linorder_not_less unat_minus_le unsigned_1 word_le_less_eq word_zero_le word_less_1
      word_neq_0_conv)

lemma unat_uminus: "x \<noteq> 0 \<Longrightarrow> unat (- x) = 2 ^ LENGTH('a) - unat x"
  for x :: "'a::len word"
proof -
  assume "x \<noteq> 0"
  then have ne: "uint x \<noteq> 0" by (simp add: uint_0_iff)
  have lt: "uint x < 2 ^ LENGTH('a)" and ge: "0 \<le> uint x" by simp_all
  then have "uint (- x) = 2 ^ LENGTH('a) - uint x"
    using ne by (simp add: uint_word_ariths zmod_zminus1_eq_if)
  moreover have "int (2 ^ LENGTH('a) - unat x) = 2 ^ LENGTH('a) - uint x"
    using less_imp_le [OF unat_less_exp [of x]] by (simp add: of_nat_diff)
  ultimately have "int (unat (- x)) = int (2 ^ LENGTH('a) - unat x)" by simp
  then show ?thesis by (simp only: of_nat_eq_iff)
qed

lemma unat_eqI: "unat x = unat y \<Longrightarrow> x = y"
  by (rule unsigned_word_eqI)

end
