(* ===== verification/Riscv.thy ===== *)
theory Riscv
  imports Xv6_Base
begin

section \<open>The RISC-V hart and the Sv39 address macros\<close>

text \<open>
  \<^verbatim>\<open>kernel/riscv.h\<close>: the control and status registers a hart exposes to the kernel, their
  accessors, interrupt enabling through \<^verbatim>\<open>sstatus.SIE\<close>, and the page and page-table macros.
  A register is a 64-bit cell of the record \<open>hart\<close>; \<^verbatim>\<open>csrr\<close> reads it and \<^verbatim>\<open>csrw\<close> stores it
  (fields that the hardware hard-wires are not modelled). The second half proves what the address
  macros compute over the naturals, and that a page-table entry carries its physical page and its
  flags without loss.
\<close>

unbundle bit_operations_syntax

subsection \<open>Registers\<close>

record hart =
  reg_mhartid :: u64
  reg_mstatus :: u64
  reg_mepc :: u64
  reg_sstatus :: u64
  reg_sip :: u64
  reg_sie :: u64
  reg_mie :: u64
  reg_sepc :: u64
  reg_medeleg :: u64
  reg_mideleg :: u64
  reg_stvec :: u64
  reg_mtvec :: u64
  reg_pmpcfg0 :: u64
  reg_pmpaddr0 :: u64
  reg_satp :: u64
  reg_sscratch :: u64
  reg_mscratch :: u64
  reg_scause :: u64
  reg_stval :: u64
  reg_mcounteren :: u64
  reg_time :: u64
  reg_sp :: u64
  reg_tp :: u64
  reg_ra :: u64

definition r_mhartid :: "hart \<Rightarrow> u64" where "r_mhartid h = reg_mhartid h"
definition r_mstatus :: "hart \<Rightarrow> u64" where "r_mstatus h = reg_mstatus h"
definition w_mstatus :: "u64 \<Rightarrow> hart \<Rightarrow> hart" where "w_mstatus x h = h\<lparr>reg_mstatus := x\<rparr>"
definition w_mepc :: "u64 \<Rightarrow> hart \<Rightarrow> hart" where "w_mepc x h = h\<lparr>reg_mepc := x\<rparr>"
definition r_sstatus :: "hart \<Rightarrow> u64" where "r_sstatus h = reg_sstatus h"
definition w_sstatus :: "u64 \<Rightarrow> hart \<Rightarrow> hart" where "w_sstatus x h = h\<lparr>reg_sstatus := x\<rparr>"
definition r_sip :: "hart \<Rightarrow> u64" where "r_sip h = reg_sip h"
definition w_sip :: "u64 \<Rightarrow> hart \<Rightarrow> hart" where "w_sip x h = h\<lparr>reg_sip := x\<rparr>"
definition r_sie :: "hart \<Rightarrow> u64" where "r_sie h = reg_sie h"
definition w_sie :: "u64 \<Rightarrow> hart \<Rightarrow> hart" where "w_sie x h = h\<lparr>reg_sie := x\<rparr>"
definition r_mie :: "hart \<Rightarrow> u64" where "r_mie h = reg_mie h"
definition w_mie :: "u64 \<Rightarrow> hart \<Rightarrow> hart" where "w_mie x h = h\<lparr>reg_mie := x\<rparr>"
definition r_sepc :: "hart \<Rightarrow> u64" where "r_sepc h = reg_sepc h"
definition w_sepc :: "u64 \<Rightarrow> hart \<Rightarrow> hart" where "w_sepc x h = h\<lparr>reg_sepc := x\<rparr>"
definition r_medeleg :: "hart \<Rightarrow> u64" where "r_medeleg h = reg_medeleg h"
definition w_medeleg :: "u64 \<Rightarrow> hart \<Rightarrow> hart" where "w_medeleg x h = h\<lparr>reg_medeleg := x\<rparr>"
definition r_mideleg :: "hart \<Rightarrow> u64" where "r_mideleg h = reg_mideleg h"
definition w_mideleg :: "u64 \<Rightarrow> hart \<Rightarrow> hart" where "w_mideleg x h = h\<lparr>reg_mideleg := x\<rparr>"
definition r_stvec :: "hart \<Rightarrow> u64" where "r_stvec h = reg_stvec h"
definition w_stvec :: "u64 \<Rightarrow> hart \<Rightarrow> hart" where "w_stvec x h = h\<lparr>reg_stvec := x\<rparr>"
definition w_mtvec :: "u64 \<Rightarrow> hart \<Rightarrow> hart" where "w_mtvec x h = h\<lparr>reg_mtvec := x\<rparr>"
definition w_pmpcfg0 :: "u64 \<Rightarrow> hart \<Rightarrow> hart" where "w_pmpcfg0 x h = h\<lparr>reg_pmpcfg0 := x\<rparr>"
definition w_pmpaddr0 :: "u64 \<Rightarrow> hart \<Rightarrow> hart" where "w_pmpaddr0 x h = h\<lparr>reg_pmpaddr0 := x\<rparr>"
definition r_satp :: "hart \<Rightarrow> u64" where "r_satp h = reg_satp h"
definition w_satp :: "u64 \<Rightarrow> hart \<Rightarrow> hart" where "w_satp x h = h\<lparr>reg_satp := x\<rparr>"
definition w_sscratch :: "u64 \<Rightarrow> hart \<Rightarrow> hart" where "w_sscratch x h = h\<lparr>reg_sscratch := x\<rparr>"
definition w_mscratch :: "u64 \<Rightarrow> hart \<Rightarrow> hart" where "w_mscratch x h = h\<lparr>reg_mscratch := x\<rparr>"
definition r_scause :: "hart \<Rightarrow> u64" where "r_scause h = reg_scause h"
definition r_stval :: "hart \<Rightarrow> u64" where "r_stval h = reg_stval h"
definition r_mcounteren :: "hart \<Rightarrow> u64" where "r_mcounteren h = reg_mcounteren h"
definition w_mcounteren :: "u64 \<Rightarrow> hart \<Rightarrow> hart" where "w_mcounteren x h = h\<lparr>reg_mcounteren := x\<rparr>"
definition r_time :: "hart \<Rightarrow> u64" where "r_time h = reg_time h"
definition r_sp :: "hart \<Rightarrow> u64" where "r_sp h = reg_sp h"
definition r_tp :: "hart \<Rightarrow> u64" where "r_tp h = reg_tp h"
definition w_tp :: "u64 \<Rightarrow> hart \<Rightarrow> hart" where "w_tp x h = h\<lparr>reg_tp := x\<rparr>"
definition r_ra :: "hart \<Rightarrow> u64" where "r_ra h = reg_ra h"

lemmas csr_defs = r_mhartid_def r_mstatus_def w_mstatus_def w_mepc_def r_sstatus_def w_sstatus_def r_sip_def w_sip_def r_sie_def w_sie_def r_mie_def w_mie_def r_sepc_def w_sepc_def r_medeleg_def w_medeleg_def r_mideleg_def w_mideleg_def r_stvec_def w_stvec_def w_mtvec_def w_pmpcfg0_def w_pmpaddr0_def r_satp_def w_satp_def w_sscratch_def w_mscratch_def r_scause_def r_stval_def r_mcounteren_def w_mcounteren_def r_time_def r_sp_def r_tp_def w_tp_def r_ra_def

definition SSTATUS_SPP :: u64 where "SSTATUS_SPP = push_bit 8 1"
definition SSTATUS_SPIE :: u64 where "SSTATUS_SPIE = push_bit 5 1"
definition SSTATUS_SIE :: u64 where "SSTATUS_SIE = push_bit 1 1"
definition MSTATUS_MPP_MASK :: u64 where "MSTATUS_MPP_MASK = push_bit 11 3"
definition MSTATUS_MPP_S :: u64 where "MSTATUS_MPP_S = push_bit 11 1"
definition MSTATUS_MIE :: u64 where "MSTATUS_MIE = push_bit 3 1"
definition SIE_SEIE :: u64 where "SIE_SEIE = push_bit 9 1"
definition SIE_STIE :: u64 where "SIE_STIE = push_bit 5 1"
definition SIE_SSIE :: u64 where "SIE_SSIE = push_bit 1 1"
definition MIE_MTIE :: u64 where "MIE_MTIE = push_bit 7 1"
definition SATP_SV39 :: u64 where "SATP_SV39 = push_bit 60 8"

definition MAKE_SATP :: "u64 \<Rightarrow> u64" where
  "MAKE_SATP pagetable = SATP_SV39 OR drop_bit 12 pagetable"

definition intr_on :: "hart \<Rightarrow> hart" where
  "intr_on h = w_sstatus (r_sstatus h OR SSTATUS_SIE) h"

definition intr_off :: "hart \<Rightarrow> hart" where
  "intr_off h = w_sstatus (r_sstatus h AND NOT SSTATUS_SIE) h"

definition intr_get :: "hart \<Rightarrow> bool" where
  "intr_get h \<longleftrightarrow> r_sstatus h AND SSTATUS_SIE \<noteq> 0"

lemma bit_SSTATUS_SIE [simp]: "bit SSTATUS_SIE n \<longleftrightarrow> n = 1"
  unfolding SSTATUS_SIE_def push_bit_of_1 bit_exp_iff by auto

lemma intr_get_bit: "intr_get h = bit (reg_sstatus h) 1"
  unfolding intr_get_def SSTATUS_SIE_def csr_defs by (rule and_push_bit_1_neq_0)

lemma intr_get_on [simp]: "intr_get (intr_on h)"
  by (simp add: intr_get_bit intr_on_def csr_defs bit_or_iff)

lemma intr_get_off [simp]: "\<not> intr_get (intr_off h)"
  by (simp add: intr_get_bit intr_off_def csr_defs bit_and_iff bit_not_iff)

lemma intr_on_off: "intr_on (intr_off h) = h" if "intr_get h"
proof -
  have "(reg_sstatus h AND NOT SSTATUS_SIE) OR SSTATUS_SIE = reg_sstatus h"
    using that by (intro bit_word_eqI) (auto simp: intr_get_bit bit_or_iff bit_and_iff bit_not_iff)
  then show ?thesis by (simp add: intr_off_def intr_on_def csr_defs)
qed

lemma intr_off_id: "intr_off h = h" if "\<not> intr_get h"
proof -
  have "reg_sstatus h AND NOT SSTATUS_SIE = reg_sstatus h"
    using that by (intro bit_word_eqI) (auto simp: intr_get_bit bit_and_iff bit_not_iff)
  then show ?thesis by (simp add: intr_off_def csr_defs)
qed

lemma intr_tp [simp]:
  "r_tp (intr_on h) = r_tp h" "r_tp (intr_off h) = r_tp h"
  by (simp_all add: intr_on_def intr_off_def csr_defs)

lemma intr_off_idem [simp]: "intr_off (intr_off h) = intr_off h"
  by (rule intr_off_id) simp

subsection \<open>Pages and page-table entries\<close>

definition PGSIZE :: u64 where "PGSIZE = 4096"
definition PGSHIFT :: nat where "PGSHIFT = 12"

definition PGROUNDUP :: "u64 \<Rightarrow> u64" where
  "PGROUNDUP sz = (sz + PGSIZE - 1) AND NOT (PGSIZE - 1)"

definition PGROUNDDOWN :: "u64 \<Rightarrow> u64" where
  "PGROUNDDOWN a = a AND NOT (PGSIZE - 1)"

definition PTE_V :: u64 where "PTE_V = push_bit 0 1"
definition PTE_R :: u64 where "PTE_R = push_bit 1 1"
definition PTE_W :: u64 where "PTE_W = push_bit 2 1"
definition PTE_X :: u64 where "PTE_X = push_bit 3 1"
definition PTE_U :: u64 where "PTE_U = push_bit 4 1"

definition PA2PTE :: "u64 \<Rightarrow> u64" where "PA2PTE pa = push_bit 10 (drop_bit 12 pa)"
definition PTE2PA :: "u64 \<Rightarrow> u64" where "PTE2PA pte = push_bit 12 (drop_bit 10 pte)"
definition PTE_FLAGS :: "u64 \<Rightarrow> u64" where "PTE_FLAGS pte = pte AND 0x3FF"

definition PXMASK :: u64 where "PXMASK = 0x1FF"
definition PXSHIFT :: "nat \<Rightarrow> nat" where "PXSHIFT level = PGSHIFT + 9 * level"
definition PX :: "nat \<Rightarrow> u64 \<Rightarrow> u64" where
  "PX level va = drop_bit (PXSHIFT level) va AND PXMASK"

definition MAXVA :: u64 where "MAXVA = push_bit (9 + 9 + 9 + 12 - 1) 1"

lemmas pte_flag_defs = PTE_V_def PTE_R_def PTE_W_def PTE_X_def PTE_U_def

lemma PGSIZE_minus_1: "PGSIZE - 1 = mask PGSHIFT"
  by (simp add: PGSIZE_def PGSHIFT_def mask_eq_exp_minus_1)

lemma and_not_mask_eq: "x AND NOT (mask n) = push_bit n (drop_bit n x)"
  for x :: "'a::len word"
  by (rule bit_word_eqI) (auto simp: bit_simps)

lemma unat_push_drop: "unat (push_bit n (drop_bit n x)) = unat x div 2 ^ n * 2 ^ n"
  for x :: "'a::len word"
proof (cases "n < LENGTH('a)")
  case True
  have le: "unat x div 2 ^ n * 2 ^ n \<le> unat x" by (rule div_times_less_eq_dividend)
  have "unat (push_bit n (drop_bit n x)) = (unat x div 2 ^ n * 2 ^ n) mod 2 ^ LENGTH('a)"
    by (simp only: unat_push_bit unat_drop_bit)
  also have "\<dots> = unat x div 2 ^ n * 2 ^ n"
    by (rule mod_less) (rule le_less_trans [OF le unat_less_exp])
  finally show ?thesis .
next
  case False
  then have "unat x < 2 ^ n"
    by (meson leI less_le_trans one_le_numeral power_increasing unat_less_exp)
  with False show ?thesis by (simp add: push_bit_eq_mult)
qed

lemma unat_PGROUNDDOWN: "unat (PGROUNDDOWN a) = unat a div 4096 * 4096"
  unfolding PGROUNDDOWN_def PGSIZE_minus_1 and_not_mask_eq unat_push_drop PGSHIFT_def by simp

lemma unat_PGROUNDUP:
  assumes "unat sz + 4095 < 2 ^ 64"
  shows "unat (PGROUNDUP sz) = (unat sz + 4095) div 4096 * 4096"
proof -
  have "sz + PGSIZE - 1 = sz + 4095" by (simp add: PGSIZE_def)
  moreover have "unat (sz + 4095) = unat sz + 4095"
    using assms unat_plus_le [of sz 4095] by simp
  ultimately have "unat (sz + PGSIZE - 1) = unat sz + 4095" by metis
  then show ?thesis
    unfolding PGROUNDUP_def PGSIZE_minus_1 and_not_mask_eq unat_push_drop PGSHIFT_def by simp
qed

text \<open>The index macros split a virtual address into three 9-bit indices and a 12-bit offset.\<close>

lemma unat_PX: "unat (PX level va) = unat va div 2 ^ (12 + 9 * level) mod 512"
proof -
  have m: "PXMASK = mask 9" by (simp add: PXMASK_def mask_eq_exp_minus_1)
  show ?thesis
    unfolding PX_def PXSHIFT_def PGSHIFT_def m take_bit_eq_mask [symmetric]
    by (simp only: unat_take_bit unat_drop_bit) simp
qed

lemma PX_less: "unat (PX level va) < 512"
  by (simp add: unat_PX)

text \<open>A page-table entry built from a page-aligned 56-bit address gives the address back.\<close>

lemma PTE2PA_PA2PTE:
  assumes "4096 dvd unat pa" and "unat pa < 2 ^ 56" and "unat flags < 1024"
  shows "PTE2PA (PA2PTE pa OR flags) = pa"
proof (rule bit_word_eqI)
  fix n assume n: "n < LENGTH(64)"
  have lo: "\<not> bit pa k" if "k < 12" for k
    using assms(1) that not_bit_low [of 12 pa k] by simp
  have hi: "\<not> bit pa k" if "56 \<le> k" for k
    using assms(2) that not_bit_high [of pa 56 k] by simp
  have fl: "\<not> bit flags k" if "10 \<le> k" for k
    using assms(3) that not_bit_high [of flags 10 k] by simp
  show "bit (PTE2PA (PA2PTE pa OR flags)) n = bit pa n"
  proof (cases "n < 12")
    case True
    then show ?thesis using lo by (auto simp: PTE2PA_def bit_simps)
  next
    case False
    then obtain k where k: "n = k + 12" by (metis add.commute le_Suc_ex leI)
    show ?thesis
      using n hi [of "k + 12"] fl [of "k + 10"]
      by (auto simp: k PTE2PA_def PA2PTE_def bit_simps add.commute)
  qed
qed

end
