(* ===== verification/Spinlock.thy ===== *)
theory Spinlock
  imports Riscv
begin

section \<open>Spin locks\<close>

text \<open>
  \<^verbatim>\<open>kernel/spinlock.c\<close> (and \<^verbatim>\<open>cpuid\<close>, \<^verbatim>\<open>mycpu\<close> of \<^verbatim>\<open>proc.c\<close>).

  The first part translates the code over one executing hart: its registers, the per-CPU
  \<^verbatim>\<open>noff\<close>/\<^verbatim>\<open>intena\<close> pair and the lock words in memory. The locale \<open>spin_lock\<close> is the contract
  that the rest of the kernel uses: which locks this CPU holds, that taking a held lock and
  releasing a free one panic, and that taking and releasing are inverse. It is interpreted on the
  code here, and on the abstract lock set of the kernel state in theory \<open>Proc\<close>.

  The second part runs the same atomic actions (\<^verbatim>\<open>amoswap\<close>, the two stores of \<^verbatim>\<open>lk->cpu\<close>, the
  releasing store) interleaved over any number of harts, and proves mutual exclusion and that the
  unlocked test \<^verbatim>\<open>holding()\<close> is exact for the hart that makes it.
\<close>

subsection \<open>The code on one hart\<close>

record spinlock =
  sl_locked :: u32
  sl_name :: string
  sl_cpu :: "nat option"

record cpu =
  noff :: int
  intena :: bool

record mach =
  hart :: hart
  cpus :: "nat \<Rightarrow> cpu"
  locks :: "lockid \<Rightarrow> spinlock"

definition cpuid :: "mach \<Rightarrow> nat" where
  "cpuid m = unat (r_tp (hart m))"

definition mycpu :: "mach \<Rightarrow> cpu" where
  "mycpu m = cpus m (cpuid m)"

definition set_mycpu :: "(cpu \<Rightarrow> cpu) \<Rightarrow> mach \<Rightarrow> mach" where
  "set_mycpu f m = m\<lparr>cpus := (cpus m)(cpuid m := f (cpus m (cpuid m)))\<rparr>"

definition initlock :: "lockid \<Rightarrow> string \<Rightarrow> mach \<Rightarrow> mach" where
  "initlock lk name m =
     m\<lparr>locks := (locks m)(lk := \<lparr>sl_locked = 0, sl_name = name, sl_cpu = None\<rparr>)\<rparr>"

definition holding :: "lockid \<Rightarrow> mach \<Rightarrow> bool" where
  "holding lk m \<longleftrightarrow> sl_locked (locks m lk) \<noteq> 0 \<and> sl_cpu (locks m lk) = Some (cpuid m)"

definition push_off :: "mach \<Rightarrow> mach" where
  "push_off m =
     (let old = intr_get (hart m);
          m = m\<lparr>hart := intr_off (hart m)\<rparr>;
          m = (if noff (mycpu m) = 0 then set_mycpu (\<lambda>c. c\<lparr>intena := old\<rparr>) m else m)
      in set_mycpu (\<lambda>c. c\<lparr>noff := noff c + 1\<rparr>) m)"

definition pop_off :: "mach \<Rightarrow> (mach, mach) res" where
  "pop_off m =
     (if intr_get (hart m) then Inl (Panic ''pop_off - interruptible'')
      else if noff (mycpu m) < 1 then Inl (Panic ''pop_off'')
      else
        (let m = set_mycpu (\<lambda>c. c\<lparr>noff := noff c - 1\<rparr>) m
         in Inr (if noff (mycpu m) = 0 \<and> intena (mycpu m)
                 then m\<lparr>hart := intr_on (hart m)\<rparr> else m)))"

text \<open>\<^verbatim>\<open>__sync_lock_test_and_set(&lk->locked, 1)\<close>: the old value, and the word set to 1.\<close>

definition test_and_set :: "spinlock \<Rightarrow> u32 \<times> spinlock" where
  "test_and_set lk = (sl_locked lk, lk\<lparr>sl_locked := 1\<rparr>)"

text \<open>
  The spin loop of \<^verbatim>\<open>acquire\<close> ends at once when the word was 0. When it was not, this hart
  alone makes no progress: the call spins until another hart stores 0.
\<close>

definition acquire :: "lockid \<Rightarrow> mach \<Rightarrow> (mach, mach) res" where
  "acquire lk m =
     (let m = push_off m
      in if holding lk m then Inl (Panic ''acquire'')
         else
           (let (old, w) = test_and_set (locks m lk);
                m = m\<lparr>locks := (locks m)(lk := w)\<rparr>
            in if old \<noteq> 0 then Inl (Spin lk)
               else Inr (m\<lparr>locks := (locks m)(lk := w\<lparr>sl_cpu := Some (cpuid m)\<rparr>)\<rparr>)))"

definition release :: "lockid \<Rightarrow> mach \<Rightarrow> (mach, mach) res" where
  "release lk m =
     (if \<not> holding lk m then Inl (Panic ''release'')
      else
        (let w = (locks m lk)\<lparr>sl_cpu := None\<rparr>;
             w = w\<lparr>sl_locked := 0\<rparr>
         in pop_off (m\<lparr>locks := (locks m)(lk := w)\<rparr>)))"

subsection \<open>Nesting of \<^verbatim>\<open>push_off\<close> and \<^verbatim>\<open>pop_off\<close>\<close>

lemma cpuid_simps [simp]:
  "cpuid (set_mycpu f m) = cpuid m"
  "cpuid (m\<lparr>locks := L\<rparr>) = cpuid m"
  "r_tp h = r_tp (hart m) \<Longrightarrow> cpuid (m\<lparr>hart := h\<rparr>) = cpuid m"
  by (simp_all add: cpuid_def set_mycpu_def)

lemma mycpu_simps [simp]:
  "mycpu (set_mycpu f m) = f (mycpu m)"
  "mycpu (m\<lparr>locks := L\<rparr>) = mycpu m"
  "r_tp h = r_tp (hart m) \<Longrightarrow> mycpu (m\<lparr>hart := h\<rparr>) = mycpu m"
  by (simp_all add: mycpu_def set_mycpu_def cpuid_def)

lemma set_mycpu_fields [simp]:
  "hart (set_mycpu f m) = hart m" "locks (set_mycpu f m) = locks m"
  by (simp_all add: set_mycpu_def)

lemma push_off_fields [simp]:
  "hart (push_off m) = intr_off (hart m)"
  "locks (push_off m) = locks m"
  "cpuid (push_off m) = cpuid m"
  "noff (mycpu (push_off m)) = noff (mycpu m) + 1"
  "intena (mycpu (push_off m)) =
     (if noff (mycpu m) = 0 then intr_get (hart m) else intena (mycpu m))"
  by (simp_all add: push_off_def Let_def)

definition hart_ok :: "mach \<Rightarrow> bool" where
  "hart_ok m \<longleftrightarrow> 0 \<le> noff (mycpu m) \<and> (0 < noff (mycpu m) \<longrightarrow> \<not> intr_get (hart m))"

lemma hart_ok_push_off: "hart_ok m \<Longrightarrow> hart_ok (push_off m)"
  by (simp add: hart_ok_def)

text \<open>What \<^verbatim>\<open>pop_off\<close> reads and writes, for any state it is called in.\<close>

lemma pop_off_Inr:
  assumes "1 \<le> noff (mycpu m)" and "\<not> intr_get (hart m)"
  shows "\<exists>m'. pop_off m = Inr m' \<and> locks m' = locks m \<and> cpuid m' = cpuid m
     \<and> noff (mycpu m') = noff (mycpu m) - 1 \<and> intena (mycpu m') = intena (mycpu m)
     \<and> hart m' = (if noff (mycpu m) = 1 \<and> intena (mycpu m) then intr_on (hart m) else hart m)"
  using assms unfolding pop_off_def by (auto simp: Let_def)

fun pop_offs :: "nat \<Rightarrow> mach \<Rightarrow> (mach, mach) res" where
  "pop_offs 0 m = Inr m"
| "pop_offs (Suc n) m = andthen (pop_off m) (pop_offs n)"

lemma push_offs_fields:
  assumes "hart_ok m"
  shows "hart ((push_off ^^ n) m) = (if n = 0 then hart m else intr_off (hart m))"
    and "noff (mycpu ((push_off ^^ n) m)) = noff (mycpu m) + int n"
    and "locks ((push_off ^^ n) m) = locks m"
    and "cpuid ((push_off ^^ n) m) = cpuid m"
    and "0 < n \<Longrightarrow> intena (mycpu ((push_off ^^ n) m)) =
           (if noff (mycpu m) = 0 then intr_get (hart m) else intena (mycpu m))"
proof (induction n)
  case (Suc n)
  { case 1 show ?case using Suc.IH(1) assms by simp }
  { case 2 show ?case using Suc.IH(2) by simp }
  { case 3 show ?case using Suc.IH(3) by simp }
  { case 4 show ?case using Suc.IH(4) by simp }
  { case 5
    show ?case
    proof (cases "n = 0")
      case False
      with Suc.IH(2,5) assms show ?thesis by (auto simp: hart_ok_def)
    qed simp }
qed simp_all

lemma pop_offs_Inr:
  assumes "int n \<le> noff (mycpu m)" and "0 < n \<Longrightarrow> \<not> intr_get (hart m)"
  shows "\<exists>m'. pop_offs n m = Inr m' \<and> locks m' = locks m \<and> cpuid m' = cpuid m
     \<and> noff (mycpu m') = noff (mycpu m) - int n \<and> intena (mycpu m') = intena (mycpu m)
     \<and> hart m' = (if 0 < n \<and> noff (mycpu m) = int n \<and> intena (mycpu m)
                  then intr_on (hart m) else hart m)"
  using assms
proof (induction n arbitrary: m)
  case (Suc n)
  obtain m1 where m1: "pop_off m = Inr m1" "locks m1 = locks m" "cpuid m1 = cpuid m"
      "noff (mycpu m1) = noff (mycpu m) - 1" "intena (mycpu m1) = intena (mycpu m)"
      "hart m1 = (if noff (mycpu m) = 1 \<and> intena (mycpu m) then intr_on (hart m) else hart m)"
    using pop_off_Inr [of m] Suc.prems by auto
  have "0 < n \<Longrightarrow> \<not> intr_get (hart m1)" using m1(6) Suc.prems by auto
  with Suc.IH [of m1] m1 Suc.prems(1) obtain m2 where
    "pop_offs n m1 = Inr m2" "locks m2 = locks m1" "cpuid m2 = cpuid m1"
    "noff (mycpu m2) = noff (mycpu m1) - int n" "intena (mycpu m2) = intena (mycpu m1)"
    "hart m2 = (if 0 < n \<and> noff (mycpu m1) = int n \<and> intena (mycpu m1)
                then intr_on (hart m1) else hart m1)"
    by auto
  then show ?case using m1 Suc.prems(1) by (auto simp: andthen_def)
qed simp

lemma push_pop_nested:
  assumes "hart_ok m"
  shows "\<exists>m'. pop_offs n ((push_off ^^ n) m) = Inr m' \<and> hart m' = hart m \<and> locks m' = locks m
     \<and> cpuid m' = cpuid m \<and> noff (mycpu m') = noff (mycpu m)"
proof (cases "n = 0")
  case False
  let ?k = "(push_off ^^ n) m"
  note f = push_offs_fields [OF assms, of n]
  have "int n \<le> noff (mycpu ?k)" using f(2) assms by (simp add: hart_ok_def)
  moreover have "\<not> intr_get (hart ?k)" using f(1) False by simp
  ultimately obtain m' where m': "pop_offs n ?k = Inr m'" "locks m' = locks ?k"
      "cpuid m' = cpuid ?k" "noff (mycpu m') = noff (mycpu ?k) - int n"
      "hart m' = (if 0 < n \<and> noff (mycpu ?k) = int n \<and> intena (mycpu ?k)
                  then intr_on (hart ?k) else hart ?k)"
    using pop_offs_Inr [of n ?k] by blast
  have "hart m' = hart m"
    using m'(5) f(1,2,5) False assms
    by (cases "intr_get (hart m)") (auto simp: hart_ok_def intr_on_off intr_off_id)
  with m'(1-4) f(2-4) show ?thesis by auto
qed simp

subsection \<open>The contract of a lock\<close>

text \<open>
  \<open>H s\<close> is the set of locks this CPU holds, \<open>avail l s\<close> that no other CPU holds \<open>l\<close>.
\<close>

locale spin_lock =
  fixes acq rel :: "lockid \<Rightarrow> 's \<Rightarrow> ('s, 's) res"
    and H :: "'s \<Rightarrow> lockid set"
    and avail :: "lockid \<Rightarrow> 's \<Rightarrow> bool"
    and ok :: "'s \<Rightarrow> bool"
  assumes acq_held: "ok s \<Longrightarrow> l \<in> H s \<Longrightarrow> acq l s = Inl (Panic ''acquire'')"
    and acq_free: "ok s \<Longrightarrow> avail l s \<Longrightarrow> l \<notin> H s \<Longrightarrow>
          \<exists>s'. acq l s = Inr s' \<and> ok s' \<and> H s' = insert l (H s)"
    and rel_held: "ok s \<Longrightarrow> l \<in> H s \<Longrightarrow> \<exists>s'. rel l s = Inr s' \<and> ok s' \<and> H s' = H s - {l}"
    and rel_free: "ok s \<Longrightarrow> l \<notin> H s \<Longrightarrow> rel l s = Inl (Panic ''release'')"
begin

lemma acquire_twice_panics:
  "ok s \<Longrightarrow> avail l s \<Longrightarrow> l \<notin> H s \<Longrightarrow> andthen (acq l s) (acq l) = Inl (Panic ''acquire'')"
  using acq_free [of s l] acq_held by fastforce

lemma acquire_release_balanced:
  assumes "ok s" and "avail l s" and "l \<notin> H s"
  shows "\<exists>s'. andthen (acq l s) (rel l) = Inr s' \<and> ok s' \<and> H s' = H s"
proof -
  obtain s1 where s1: "acq l s = Inr s1" "ok s1" "H s1 = insert l (H s)"
    using acq_free assms by blast
  then obtain s2 where "rel l s1 = Inr s2" "ok s2" "H s2 = H s1 - {l}"
    using rel_held [of s1 l] by auto
  with s1 assms(3) show ?thesis by auto
qed

lemma release_twice_panics:
  assumes "ok s" and "l \<in> H s"
  shows "andthen (rel l s) (rel l) = Inl (Panic ''release'')"
proof -
  obtain s1 where "rel l s = Inr s1" "ok s1" "H s1 = H s - {l}"
    using rel_held assms by blast
  then show ?thesis using rel_free [of s1 l] by simp
qed

end

text \<open>The code's lock set, its availability test, and the state in which it runs.\<close>

definition held_set :: "mach \<Rightarrow> lockid set" where
  "held_set m = {l. holding l m}"

definition lock_avail :: "lockid \<Rightarrow> mach \<Rightarrow> bool" where
  "lock_avail l m \<longleftrightarrow> (sl_locked (locks m l) \<noteq> 0 \<longrightarrow> sl_cpu (locks m l) = Some (cpuid m))"

definition mach_ok :: "mach \<Rightarrow> bool" where
  "mach_ok m \<longleftrightarrow> hart_ok m \<and> finite (held_set m) \<and> int (card (held_set m)) \<le> noff (mycpu m)"

lemma held_set_cong:
  "locks m' = locks m \<Longrightarrow> cpuid m' = cpuid m \<Longrightarrow> held_set m' = held_set m"
  by (simp add: held_set_def holding_def)

lemma holding_upd:
  "cpuid m' = cpuid m \<Longrightarrow> locks m' = (locks m)(lk := w) \<Longrightarrow>
     holding l m' \<longleftrightarrow> (if l = lk then sl_locked w \<noteq> 0 \<and> sl_cpu w = Some (cpuid m) else holding l m)"
  by (simp add: holding_def)

lemma acquire_returns:
  assumes "mach_ok m" and "lock_avail l m" and "l \<notin> held_set m"
  shows "\<exists>m'. acquire l m = Inr m' \<and> mach_ok m' \<and> held_set m' = insert l (held_set m)"
proof -
  let ?w = "(locks m l)\<lparr>sl_locked := 1, sl_cpu := Some (cpuid m)\<rparr>"
  let ?m = "(push_off m)\<lparr>locks := (locks m)(l := ?w)\<rparr>"
  have "sl_locked (locks m l) = 0"
    using assms(2,3) by (auto simp: lock_avail_def held_set_def holding_def)
  then have a: "acquire l m = Inr ?m"
    by (simp add: acquire_def test_and_set_def holding_def Let_def)
  have h: "held_set ?m = insert l (held_set m)"
    by (auto simp: held_set_def holding_def)
  moreover have "mach_ok ?m"
    using assms(1,3) h by (simp add: mach_ok_def hart_ok_def)
  ultimately show ?thesis using a by blast
qed

lemma release_returns:
  assumes "mach_ok m" and "l \<in> held_set m"
  shows "\<exists>m'. release l m = Inr m' \<and> mach_ok m' \<and> held_set m' = held_set m - {l}"
proof -
  let ?w = "(locks m l)\<lparr>sl_cpu := None, sl_locked := 0\<rparr>"
  let ?m = "m\<lparr>locks := (locks m)(l := ?w)\<rparr>"
  have c: "0 < card (held_set m)" using assms by (auto simp: mach_ok_def card_gt_0_iff)
  have rel: "release l m = pop_off ?m"
    using assms(2) by (simp add: release_def held_set_def Let_def)
  have h: "held_set ?m = held_set m - {l}" by (auto simp: held_set_def holding_def)
  have "1 \<le> noff (mycpu ?m)" "\<not> intr_get (hart ?m)"
    using assms(1) c by (simp_all add: mach_ok_def hart_ok_def)
  then obtain m' where m': "pop_off ?m = Inr m'" "locks m' = locks ?m" "cpuid m' = cpuid ?m"
      "noff (mycpu m') = noff (mycpu ?m) - 1"
      "hart m' = (if noff (mycpu ?m) = 1 \<and> intena (mycpu ?m) then intr_on (hart ?m) else hart ?m)"
    using pop_off_Inr [of ?m] by blast
  have hs: "held_set m' = held_set m - {l}" using held_set_cong [OF m'(2,3)] h by simp
  have card': "card (held_set m') = card (held_set m) - 1"
    using hs assms by (simp add: mach_ok_def)
  have "hart_ok m'"
    using assms(1) m'(4,5) c by (cases "noff (mycpu m) = 1") (auto simp: mach_ok_def hart_ok_def)
  then have "mach_ok m'"
    using assms(1) m'(4) c hs card' by (simp add: mach_ok_def)
  with hs rel m'(1) show ?thesis by auto
qed

interpretation code_lock: spin_lock acquire release held_set lock_avail mach_ok
proof unfold_locales
  fix s :: mach and l :: lockid
  show "l \<in> held_set s \<Longrightarrow> acquire l s = Inl (Panic ''acquire'')"
    by (simp add: acquire_def held_set_def holding_def Let_def)
  show "l \<notin> held_set s \<Longrightarrow> release l s = Inl (Panic ''release'')"
    by (simp add: release_def held_set_def)
qed (rule acquire_returns release_returns; assumption)+

subsection \<open>The lock words under all interleavings\<close>

text \<open>
  Where a hart stands with respect to one lock: outside, in the spin loop of \<^verbatim>\<open>acquire\<close>, past a
  successful \<^verbatim>\<open>amoswap\<close>, in the critical section, or in \<^verbatim>\<open>release\<close> after \<^verbatim>\<open>lk->cpu = 0\<close>.
  Harts move one atomic memory action at a time, in any order. The checks of \<^verbatim>\<open>holding\<close> are not steps: \<^verbatim>\<open>lk->cpu\<close> names
  exactly the hart in the critical section (\<open>lock_inv\<close>), so they decide by the phase.
\<close>

datatype phase = Outside | Spinning | Swapped | Critical | Clearing

record lock_sys =
  words :: "lockid \<Rightarrow> spinlock"
  phase :: "nat \<Rightarrow> lockid \<Rightarrow> phase"

definition set_phase :: "nat \<Rightarrow> lockid \<Rightarrow> phase \<Rightarrow> lock_sys \<Rightarrow> lock_sys" where
  "set_phase h l p s = s\<lparr>phase := (phase s)(h := (phase s h)(l := p))\<rparr>"

definition set_word :: "lockid \<Rightarrow> spinlock \<Rightarrow> lock_sys \<Rightarrow> lock_sys" where
  "set_word l w s = s\<lparr>words := (words s)(l := w)\<rparr>"

inductive lock_step :: "lock_sys \<Rightarrow> lock_sys \<Rightarrow> bool" where
  enter: "phase s h l = Outside \<Longrightarrow> lock_step s (set_phase h l Spinning s)"
| swap_fails: "phase s h l = Spinning \<Longrightarrow> test_and_set (words s l) = (old, w) \<Longrightarrow> old \<noteq> 0 \<Longrightarrow>
     lock_step s (set_word l w s)"
| swap_succeeds: "phase s h l = Spinning \<Longrightarrow> test_and_set (words s l) = (0, w) \<Longrightarrow>
     lock_step s (set_phase h l Swapped (set_word l w s))"
| record_cpu: "phase s h l = Swapped \<Longrightarrow>
     lock_step s (set_phase h l Critical (set_word l ((words s l)\<lparr>sl_cpu := Some h\<rparr>) s))"
| clear_cpu: "phase s h l = Critical \<Longrightarrow>
     lock_step s (set_phase h l Clearing (set_word l ((words s l)\<lparr>sl_cpu := None\<rparr>) s))"
| unlock: "phase s h l = Clearing \<Longrightarrow>
     lock_step s (set_phase h l Outside (set_word l ((words s l)\<lparr>sl_locked := 0\<rparr>) s))"

inductive lock_reachable :: "lock_sys \<Rightarrow> bool" where
  boot: "(\<And>l. sl_locked (words s l) = 0 \<and> sl_cpu (words s l) = None) \<Longrightarrow>
     (\<And>h l. phase s h l = Outside) \<Longrightarrow> lock_reachable s"
| step: "lock_reachable s \<Longrightarrow> lock_step s t \<Longrightarrow> lock_reachable t"

text \<open>A hart owns the lock word from its successful swap to its releasing store.\<close>

definition owns :: "lock_sys \<Rightarrow> nat \<Rightarrow> lockid \<Rightarrow> bool" where
  "owns s h l \<longleftrightarrow> phase s h l \<in> {Swapped, Critical, Clearing}"

definition lock_inv :: "lock_sys \<Rightarrow> bool" where
  "lock_inv s \<longleftrightarrow> (\<forall>l.
     (\<forall>h h'. owns s h l \<longrightarrow> owns s h' l \<longrightarrow> h = h') \<and>
     (\<forall>h. owns s h l \<longrightarrow> sl_locked (words s l) \<noteq> 0) \<and>
     (\<forall>h. sl_cpu (words s l) = Some h \<longleftrightarrow> phase s h l = Critical))"

lemma lock_sys_upd [simp]:
  "words (set_phase h l p s) = words s"
  "words (set_word l w s) = (words s)(l := w)"
  "phase (set_word l w s) = phase s"
  "phase (set_phase h l p s) h' l' = (if h' = h \<and> l' = l then p else phase s h' l')"
  by (simp_all add: set_phase_def set_word_def)

lemma lock_step_inv: "lock_step s t \<Longrightarrow> lock_inv s \<Longrightarrow> lock_inv t"
proof (induction rule: lock_step.induct)
  case (enter s h l)
  then show ?case by (auto simp: lock_inv_def owns_def)
next
  case (swap_fails s h l old w)
  then show ?case by (auto simp: lock_inv_def owns_def test_and_set_def)
next
  case (swap_succeeds s h l w)
  then have "\<not> owns s h' l" for h' by (auto simp: lock_inv_def test_and_set_def)
  with swap_succeeds show ?case by (auto simp: lock_inv_def owns_def test_and_set_def)
next
  case (record_cpu s h l)
  then have "h' = h" if "owns s h' l" for h'
    using that by (auto simp: lock_inv_def owns_def)
  with record_cpu show ?case by (auto simp: lock_inv_def owns_def)
next
  case (clear_cpu s h l)
  then have "h' = h" if "owns s h' l" for h'
    using that by (auto simp: lock_inv_def owns_def)
  with clear_cpu show ?case by (auto simp: lock_inv_def owns_def)
next
  case (unlock s h l)
  then have "h' = h" if "owns s h' l" for h'
    using that by (auto simp: lock_inv_def owns_def)
  with unlock show ?case by (auto simp: lock_inv_def owns_def)
qed

lemma lock_reachable_inv: "lock_reachable s \<Longrightarrow> lock_inv s"
proof (induction rule: lock_reachable.induct)
  case (boot s)
  then show ?case by (simp add: lock_inv_def owns_def)
qed (rule lock_step_inv)

subsection \<open>Properties\<close>

text \<open>
  C1. Mutual exclusion and exactness of \<^verbatim>\<open>holding()\<close>. In every state that any number of harts can
  reach by interleaving the atomic actions of \<^verbatim>\<open>acquire\<close> and \<^verbatim>\<open>release\<close>, at most one hart is
  between the successful swap and the releasing store of a lock, the lock word is non-zero there,
  and \<^verbatim>\<open>lk->cpu\<close> names a hart exactly when that hart is in the critical section.
\<close>

theorem spinlock_mutual_exclusion:
  assumes "lock_reachable s" and "owns s h l"
  shows "(owns s h' l \<longrightarrow> h' = h) \<and> sl_locked (words s l) \<noteq> 0 \<and>
    (sl_cpu (words s l) = Some h' \<longleftrightarrow> phase s h' l = Critical)"
  using lock_reachable_inv [OF assms(1)] assms(2) by (auto simp: lock_inv_def)

definition boot_locks :: lock_sys where
  "boot_locks = \<lparr>words = (\<lambda>_. \<lparr>sl_locked = 0, sl_name = [], sl_cpu = None\<rparr>),
                 phase = (\<lambda>_ _. Outside)\<rparr>"

definition kmem_taken :: lock_sys where
  "kmem_taken = set_phase 0 KmemLock Swapped (set_word KmemLock
     (\<lparr>sl_locked = 1, sl_name = [], sl_cpu = None\<rparr>) (set_phase 0 KmemLock Spinning boot_locks))"

lemma kmem_taken_reachable: "lock_reachable kmem_taken"
proof -
  have "lock_reachable boot_locks"
    by (rule lock_reachable.boot) (simp_all add: boot_locks_def)
  moreover have "lock_step boot_locks (set_phase 0 KmemLock Spinning boot_locks)"
    by (rule lock_step.enter) (simp add: boot_locks_def)
  moreover have "lock_step (set_phase 0 KmemLock Spinning boot_locks) kmem_taken"
    unfolding kmem_taken_def
    by (rule lock_step.swap_succeeds) (simp_all add: boot_locks_def test_and_set_def)
  ultimately show ?thesis by (blast intro: lock_reachable.step)
qed

theorem spinlock_mutual_exclusion_witness:
  "lock_reachable kmem_taken \<and> owns kmem_taken 0 KmemLock \<and> \<not> owns kmem_taken 1 KmemLock"
proof -
  have o: "owns kmem_taken 0 KmemLock" by (simp add: owns_def kmem_taken_def)
  have "owns kmem_taken 1 KmemLock \<longrightarrow> (1::nat) = 0"
    using spinlock_mutual_exclusion [OF kmem_taken_reachable o, of 1] by blast
  with o kmem_taken_reachable show ?thesis by simp
qed

text \<open>
  Taking a lock that this CPU already holds panics; otherwise, when no other CPU has it,
  \<^verbatim>\<open>acquire\<close> followed by \<^verbatim>\<open>release\<close> returns, leaves the set of held locks and the nesting depth
  as they were, and restores the interrupt-enable state of the hart.
\<close>

theorem acquire_release_roundtrip:
  assumes "mach_ok m" and "lock_avail l m"
  shows "if holding l m then acquire l m = Inl (Panic ''acquire'')
    else \<exists>m'. andthen (acquire l m) (release l) = Inr m' \<and> hart m' = hart m
      \<and> held_set m' = held_set m \<and> noff (mycpu m') = noff (mycpu m)"
proof (cases "holding l m")
  case True
  then show ?thesis using code_lock.acq_held [OF assms(1), of l] by (simp add: held_set_def)
next
  case False
  let ?w = "(locks m l)\<lparr>sl_locked := 1, sl_cpu := Some (cpuid m)\<rparr>"
  let ?a = "(push_off m)\<lparr>locks := (locks m)(l := ?w)\<rparr>"
  let ?r = "?a\<lparr>locks := (locks m)(l := ?w\<lparr>sl_cpu := None, sl_locked := 0\<rparr>)\<rparr>"
  have a: "acquire l m = Inr ?a"
    using assms(2) False
    by (auto simp: acquire_def test_and_set_def holding_def lock_avail_def Let_def)
  have r: "release l ?a = pop_off ?r"
    by (simp add: release_def holding_def Let_def)
  have "1 \<le> noff (mycpu ?r)" "\<not> intr_get (hart ?r)"
    using assms(1) by (simp_all add: mach_ok_def hart_ok_def)
  then obtain m' where m': "pop_off ?r = Inr m'" "locks m' = locks ?r" "cpuid m' = cpuid ?r"
      "noff (mycpu m') = noff (mycpu ?r) - 1"
      "hart m' = (if noff (mycpu ?r) = 1 \<and> intena (mycpu ?r) then intr_on (hart ?r) else hart ?r)"
    using pop_off_Inr [of ?r] by blast
  have "held_set m' = held_set m"
    using m'(2,3) False by (auto simp: held_set_def holding_def)
  moreover have "hart m' = hart m"
    using m'(5) assms(1)
    by (cases "intr_get (hart m)") (auto simp: mach_ok_def hart_ok_def intr_on_off intr_off_id)
  moreover have "noff (mycpu m') = noff (mycpu m)" using m'(4) by simp
  ultimately show ?thesis using False a r m'(1) by simp
qed

definition idle_mach :: mach where
  "idle_mach = \<lparr>hart = \<lparr>reg_mhartid = 0, reg_mstatus = 0, reg_mepc = 0, reg_sstatus = 2,
     reg_sip = 0, reg_sie = 0, reg_mie = 0, reg_sepc = 0, reg_medeleg = 0, reg_mideleg = 0,
     reg_stvec = 0, reg_mtvec = 0, reg_pmpcfg0 = 0, reg_pmpaddr0 = 0, reg_satp = 0,
     reg_sscratch = 0, reg_mscratch = 0, reg_scause = 0, reg_stval = 0, reg_mcounteren = 0,
     reg_time = 0, reg_sp = 0, reg_tp = 0, reg_ra = 0\<rparr>,
     cpus = (\<lambda>_. \<lparr>noff = 0, intena = False\<rparr>),
     locks = (\<lambda>_. \<lparr>sl_locked = 0, sl_name = [], sl_cpu = None\<rparr>)\<rparr>"

lemma idle_mach_facts [simp]:
  "\<not> holding l idle_mach" "held_set idle_mach = {}" "mach_ok idle_mach" "lock_avail l idle_mach"
  "hart_ok idle_mach"
  by (simp_all add: idle_mach_def holding_def held_set_def mach_ok_def hart_ok_def mycpu_def
      lock_avail_def)

theorem acquire_release_roundtrip_witness:
  "\<exists>m'. andthen (acquire KmemLock idle_mach) (release KmemLock) = Inr m'
     \<and> hart m' = hart idle_mach \<and> held_set m' = {}"
  using acquire_release_roundtrip [of idle_mach KmemLock] by auto

text \<open>
  \<^verbatim>\<open>push_off\<close> and \<^verbatim>\<open>pop_off\<close> are matched: any number of \<^verbatim>\<open>push_off\<close>s undone by as many
  \<^verbatim>\<open>pop_off\<close>s never panics and gives back the interrupt-enable state and the nesting depth,
  whether interrupts were on or off at the start.
\<close>

theorem push_off_pop_off_matched:
  assumes "hart_ok m"
  shows "\<exists>m'. pop_offs n ((push_off ^^ n) m) = Inr m' \<and> hart m' = hart m
     \<and> noff (mycpu m') = noff (mycpu m)"
  using push_pop_nested [OF assms] by blast

theorem push_off_pop_off_matched_witness:
  "\<exists>m'. pop_offs 3 ((push_off ^^ 3) idle_mach) = Inr m' \<and> hart m' = hart idle_mach
     \<and> noff (mycpu m') = noff (mycpu idle_mach)"
  by (rule push_off_pop_off_matched) simp

end
