(* ===== verification/Proc.thy ===== *)
theory Proc
  imports Spinlock
begin

section \<open>The process table, sleep and wakeup, the scheduler\<close>

text \<open>
  \<^verbatim>\<open>kernel/proc.h\<close> and the scheduling half of \<^verbatim>\<open>kernel/proc.c\<close>. The record \<open>ksync\<close> is the root of
  the kernel state: the locks this CPU holds, the process it runs (\<^verbatim>\<open>mycpu()->proc\<close>), the process
  table, the pid counter, \<^verbatim>\<open>initproc\<close> and the tick counter. Every later component extends this
  record, so the operations here apply to the whole kernel state.

  Pointers to table slots are slot numbers. An array whose indices the code keeps in range by its
  loop bounds is a function of the index. The lock operations of the kernel state keep only the
  set of locks that this CPU holds; theory \<open>Spinlock\<close> proves the same contract for the code.
\<close>

subsection \<open>Structures\<close>

datatype procstate = UNUSED | USED | SLEEPING | RUNNABLE | RUNNING | ZOMBIE

record kcontext =
  ctx_ra :: u64
  ctx_sp :: u64
  ctx_s :: "nat \<Rightarrow> u64"

record proc =
  p_state :: procstate
  p_chan :: "chan option"
  p_killed :: bool
  p_xstate :: int
  p_pid :: int
  p_parent :: "nat option"
  p_kstack :: u64
  p_sz :: u64
  p_pagetable :: u64
  p_trapframe :: u64
  p_context :: kcontext
  p_ofile :: "nat \<Rightarrow> nat option"
  p_cwd :: "nat option"
  p_name :: "u8 list"

record ksync =
  held :: "lockid set"
  curproc :: "nat option"
  procs :: "nat \<Rightarrow> proc"
  nextpid :: int
  initproc :: "nat option"
  ticks :: u32

definition upd_proc :: "nat \<Rightarrow> (proc \<Rightarrow> proc) \<Rightarrow> 'z ksync_scheme \<Rightarrow> 'z ksync_scheme" where
  "upd_proc p f s = s\<lparr>procs := (procs s)(p := f (procs s p))\<rparr>"

subsection \<open>Locks of the kernel state\<close>

definition acquire_lk :: "lockid \<Rightarrow> 'z ksync_scheme \<Rightarrow> ('z ksync_scheme, 'z ksync_scheme) res" where
  "acquire_lk l s =
     (if l \<in> held s then Inl (Panic ''acquire'') else Inr (s\<lparr>held := insert l (held s)\<rparr>))"

definition release_lk :: "lockid \<Rightarrow> 'z ksync_scheme \<Rightarrow> ('z ksync_scheme, 'z ksync_scheme) res" where
  "release_lk l s =
     (if l \<notin> held s then Inl (Panic ''release'') else Inr (s\<lparr>held := held s - {l}\<rparr>))"

interpretation kernel_lock: spin_lock acquire_lk release_lk held "\<lambda>_ _. True" "\<lambda>_. True"
  by unfold_locales (auto simp: acquire_lk_def release_lk_def)

lemma acquire_lk_free [kernel_simps]:
  "l \<notin> held s \<Longrightarrow> acquire_lk l s = Inr (s\<lparr>held := insert l (held s)\<rparr>)"
  by (simp add: acquire_lk_def)

lemma release_lk_held [kernel_simps]:
  "l \<in> held s \<Longrightarrow> release_lk l s = Inr (s\<lparr>held := held s - {l}\<rparr>)"
  by (simp add: release_lk_def)

text \<open>A critical section that leaves the lock set alone runs with the lock and gives it back.\<close>

lemma critical_section:
  assumes "l \<notin> held s" and "held (f (s\<lparr>held := insert l (held s)\<rparr>)) = insert l (held s)"
  shows "andthen (acquire_lk l s) (\<lambda>s. release_lk l (f s)) =
    Inr ((f (s\<lparr>held := insert l (held s)\<rparr>))\<lparr>held := held s\<rparr>)"
  using assms by (simp add: kernel_simps)

subsection \<open>The current process\<close>

definition myproc :: "'z ksync_scheme \<Rightarrow> nat option" where
  "myproc s = curproc s"

text \<open>\<^verbatim>\<open>myproc()->field\<close> faults when there is no current process.\<close>

definition with_proc ::
    "'z ksync_scheme \<Rightarrow> (nat \<Rightarrow> ('z ksync_scheme, 'a) res) \<Rightarrow> ('z ksync_scheme, 'a) res" where
  "with_proc s k = (case myproc s of None \<Rightarrow> Inl Fault | Some p \<Rightarrow> k p)"

lemma with_proc_Some [simp]: "curproc s = Some p \<Longrightarrow> with_proc s k = k p"
  by (simp add: with_proc_def myproc_def)

definition allocpid :: "'z ksync_scheme \<Rightarrow> ('z ksync_scheme, int \<times> 'z ksync_scheme) res" where
  "allocpid s =
     andthen (acquire_lk PidLock s) (\<lambda>s.
     let pid = nextpid s; s = s\<lparr>nextpid := nextpid s + 1\<rparr> in
     andthen (release_lk PidLock s) (\<lambda>s.
     Inr (pid, s)))"

subsection \<open>Giving up the CPU\<close>

text \<open>
  \<^verbatim>\<open>sched()\<close> up to the \<^verbatim>\<open>swtch\<close>: the checks of its caller's lock discipline. \<^verbatim>\<open>noff == 1\<close> says
  that \<^verbatim>\<open>p->lock\<close> is the only lock held. The fourth check, \<^verbatim>\<open>sched interruptible\<close>, is left out: this layer does not have
  the interrupt flag, which \<^verbatim>\<open>acquire\<close> has cleared while a lock is held (theory \<open>Spinlock\<close>).
\<close>

definition sched :: "'z ksync_scheme \<Rightarrow> ('z ksync_scheme, 'z ksync_scheme) res" where
  "sched s = with_proc s (\<lambda>p.
     if ProcLock p \<notin> held s then Inl (Panic ''sched p->lock'')
     else if held s \<noteq> {ProcLock p} then Inl (Panic ''sched locks'')
     else if p_state (procs s p) = RUNNING then Inl (Panic ''sched running'')
     else Inr s)"

text \<open>\<^verbatim>\<open>yield()\<close>: the part before the switch, and the part that runs when rescheduled.\<close>

definition yield :: "'z ksync_scheme \<Rightarrow> ('z ksync_scheme, 'z ksync_scheme) res" where
  "yield s = with_proc s (\<lambda>p.
     andthen (acquire_lk (ProcLock p) s) (\<lambda>s.
     sched (upd_proc p (\<lambda>q. q\<lparr>p_state := RUNNABLE\<rparr>) s)))"

definition yield_resume :: "'z ksync_scheme \<Rightarrow> ('z ksync_scheme, 'z ksync_scheme) res" where
  "yield_resume s = with_proc s (\<lambda>p. release_lk (ProcLock p) s)"

text \<open>
  \<^verbatim>\<open>sleep(chan, lk)\<close>: takes \<^verbatim>\<open>p->lock\<close>, releases \<^verbatim>\<open>lk\<close>, marks the process and switches away. The
  result is always a stop: asleep, or a panic of the lock discipline. \<open>sleep_resume\<close> is what runs
  when the process is scheduled again.
\<close>

definition sleep :: "chan \<Rightarrow> lockid \<Rightarrow> 'z ksync_scheme \<Rightarrow> ('z ksync_scheme, 'a) res" where
  "sleep chan lk s = with_proc s (\<lambda>p.
     andthen (acquire_lk (ProcLock p) s) (\<lambda>s.
     andthen (release_lk lk s) (\<lambda>s.
     let s = upd_proc p (\<lambda>q. q\<lparr>p_chan := Some chan, p_state := SLEEPING\<rparr>) s in
     andthen (sched s) (\<lambda>s. Inl (Sleeping chan s)))))"

definition sleep_resume ::
    "lockid \<Rightarrow> 'z ksync_scheme \<Rightarrow> ('z ksync_scheme, 'z ksync_scheme) res" where
  "sleep_resume lk s = with_proc s (\<lambda>p.
     andthen (release_lk (ProcLock p) (upd_proc p (\<lambda>q. q\<lparr>p_chan := None\<rparr>) s)) (acquire_lk lk))"

subsection \<open>The scheduler\<close>

text \<open>
  One iteration of the scheduler's loop over the table, up to the \<^verbatim>\<open>swtch\<close> to the process
  (\<open>Some\<close>) or past a slot that is not runnable (\<open>None\<close>); and the part after the process has
  switched back.
\<close>

definition scheduler_visit ::
    "nat \<Rightarrow> 'z ksync_scheme \<Rightarrow> ('z ksync_scheme, nat option \<times> 'z ksync_scheme) res" where
  "scheduler_visit p s =
     andthen (acquire_lk (ProcLock p) s) (\<lambda>s.
     if p_state (procs s p) = RUNNABLE then
       Inr (Some p, (upd_proc p (\<lambda>q. q\<lparr>p_state := RUNNING\<rparr>) s)\<lparr>curproc := Some p\<rparr>)
     else andthen (release_lk (ProcLock p) s) (\<lambda>s. Inr (None, s)))"

definition scheduler_back ::
    "nat \<Rightarrow> 'z ksync_scheme \<Rightarrow> ('z ksync_scheme, 'z ksync_scheme) res" where
  "scheduler_back p s = release_lk (ProcLock p) (s\<lparr>curproc := None\<rparr>)"

text \<open>The scan of the table from slot \<open>p\<close> on: the first runnable slot, if any.\<close>

fun scheduler_scan ::
    "nat list \<Rightarrow> 'z ksync_scheme \<Rightarrow> ('z ksync_scheme, nat option \<times> 'z ksync_scheme) res" where
  "scheduler_scan [] s = Inr (None, s)"
| "scheduler_scan (p # ps) s =
     andthen (scheduler_visit p s) (\<lambda>(r, s).
     case r of Some q \<Rightarrow> Inr (Some q, s) | None \<Rightarrow> scheduler_scan ps s)"

subsection \<open>Wakeup and kill\<close>

definition wakeup_one ::
    "chan \<Rightarrow> nat \<Rightarrow> 'z ksync_scheme \<Rightarrow> ('z ksync_scheme, 'z ksync_scheme) res" where
  "wakeup_one chan p s =
     (if Some p \<noteq> myproc s then
        andthen (acquire_lk (ProcLock p) s) (\<lambda>s.
        let s = (if p_state (procs s p) = SLEEPING \<and> p_chan (procs s p) = Some chan
                 then upd_proc p (\<lambda>q. q\<lparr>p_state := RUNNABLE\<rparr>) s else s)
        in release_lk (ProcLock p) s)
      else Inr s)"

definition wakeup :: "chan \<Rightarrow> 'z ksync_scheme \<Rightarrow> ('z ksync_scheme, 'z ksync_scheme) res" where
  "wakeup chan s = for_each (wakeup_one chan) [0..<NPROC] s"

fun kill_from ::
    "int \<Rightarrow> nat list \<Rightarrow> 'z ksync_scheme \<Rightarrow> ('z ksync_scheme, int \<times> 'z ksync_scheme) res" where
  "kill_from pid [] s = Inr (-1, s)"
| "kill_from pid (p # ps) s =
     andthen (acquire_lk (ProcLock p) s) (\<lambda>s.
     if p_pid (procs s p) = pid then
       (let s = upd_proc p (\<lambda>q. q\<lparr>p_killed := True\<rparr>) s;
            s = (if p_state (procs s p) = SLEEPING
                 then upd_proc p (\<lambda>q. q\<lparr>p_state := RUNNABLE\<rparr>) s else s)
        in andthen (release_lk (ProcLock p) s) (\<lambda>s. Inr (0, s)))
     else andthen (release_lk (ProcLock p) s) (kill_from pid ps))"

definition kill :: "int \<Rightarrow> 'z ksync_scheme \<Rightarrow> ('z ksync_scheme, int \<times> 'z ksync_scheme) res" where
  "kill pid s = kill_from pid [0..<NPROC] s"

definition reparent :: "nat \<Rightarrow> 'z ksync_scheme \<Rightarrow> ('z ksync_scheme, 'z ksync_scheme) res" where
  "reparent p s = for_each (\<lambda>pp s.
     if p_parent (procs s pp) = Some p then
       (let s = upd_proc pp (\<lambda>q. q\<lparr>p_parent := initproc s\<rparr>) s in
        case initproc s of None \<Rightarrow> Inr s | Some i \<Rightarrow> wakeup (ProcChan i) s)
     else Inr s) [0..<NPROC] s"


subsection \<open>Functional behaviour\<close>

lemma upd_proc_fields [simp, frame_simps]:
  "held (upd_proc p f s) = held s"
  "curproc (upd_proc p f s) = curproc s"
  "nextpid (upd_proc p f s) = nextpid s"
  "initproc (upd_proc p f s) = initproc s"
  "ticks (upd_proc p f s) = ticks s"
  "procs (upd_proc p f s) = (procs s)(p := f (procs s p))"
  by (simp_all add: upd_proc_def)

text \<open>A predicate on the lock set: none of the process locks that a table scan takes is held.\<close>

definition no_proc_lock :: "'z ksync_scheme \<Rightarrow> bool" where
  "no_proc_lock s \<longleftrightarrow> (\<forall>p. ProcLock p \<notin> held s)"

lemma no_proc_lock_iff [simp]: "no_proc_lock s \<Longrightarrow> ProcLock p \<notin> held s"
  by (simp add: no_proc_lock_def)

lemma no_proc_lock_cong: "held s = held t \<Longrightarrow> no_proc_lock s = no_proc_lock t"
  by (simp add: no_proc_lock_def)

definition awake :: "chan \<Rightarrow> proc \<Rightarrow> proc" where
  "awake ch q = (if p_state q = SLEEPING \<and> p_chan q = Some ch then q\<lparr>p_state := RUNNABLE\<rparr> else q)"

lemma awake_fields [simp]:
  "p_chan (awake ch q) = p_chan q" "p_killed (awake ch q) = p_killed q"
  "p_xstate (awake ch q) = p_xstate q" "p_pid (awake ch q) = p_pid q"
  "p_parent (awake ch q) = p_parent q" "p_ofile (awake ch q) = p_ofile q"
  "p_cwd (awake ch q) = p_cwd q" "p_sz (awake ch q) = p_sz q"
  "p_pagetable (awake ch q) = p_pagetable q" "p_trapframe (awake ch q) = p_trapframe q"
  "p_kstack (awake ch q) = p_kstack q" "p_name (awake ch q) = p_name q"
  "p_context (awake ch q) = p_context q"
  by (simp_all add: awake_def)

lemma awake_idem [simp]: "awake ch (awake ch q) = awake ch q"
  by (simp add: awake_def)

text \<open>The process table after \<^verbatim>\<open>wakeup(ch)\<close> by the process \<open>me\<close> has visited the slots in \<open>A\<close>.\<close>

definition awake_in :: "chan \<Rightarrow> nat option \<Rightarrow> nat set \<Rightarrow> (nat \<Rightarrow> proc) \<Rightarrow> nat \<Rightarrow> proc" where
  "awake_in ch me A ps = (\<lambda>i. if i \<in> A \<and> Some i \<noteq> me then awake ch (ps i) else ps i)"

lemma wakeup_one_eq:
  assumes "no_proc_lock s"
  shows "wakeup_one ch p s = Inr (s\<lparr>procs := awake_in ch (curproc s) {p} (procs s)\<rparr>)"
proof (cases "Some p = curproc s")
  case True
  then have "awake_in ch (curproc s) {p} (procs s) = procs s" by (auto simp: awake_in_def)
  with True show ?thesis by (simp add: wakeup_one_def myproc_def)
next
  case False
  then have eq: "awake_in ch (curproc s) {p} (procs s) = (procs s)(p := awake ch (procs s p))"
    by (auto simp: awake_in_def)
  show ?thesis unfolding eq using False assms
    by (simp add: wakeup_one_def myproc_def kernel_simps awake_def upd_proc_def Let_def)
qed

lemma wakeup_for_each:
  assumes "no_proc_lock s"
  shows "for_each (wakeup_one ch) xs s = Inr (s\<lparr>procs := awake_in ch (curproc s) (set xs) (procs s)\<rparr>)"
  using assms
proof (induction xs arbitrary: s)
  case Nil
  then show ?case by (simp add: awake_in_def)
next
  case (Cons x xs)
  let ?s = "s\<lparr>procs := awake_in ch (curproc s) {x} (procs s)\<rparr>"
  have "no_proc_lock ?s" using Cons.prems by (simp add: no_proc_lock_def)
  moreover have "awake_in ch me (set xs) (awake_in ch me {x} ps) = awake_in ch me (set (x # xs)) ps"
    for me ps by (auto simp: awake_in_def)
  ultimately show ?case using Cons.prems by (simp add: wakeup_one_eq Cons.IH [of ?s])
qed

lemma wakeup_eq [kernel_simps]:
  "no_proc_lock s \<Longrightarrow>
   wakeup ch s = Inr (s\<lparr>procs := awake_in ch (curproc s) {0..<NPROC} (procs s)\<rparr>)"
  by (simp add: wakeup_def wakeup_for_each)

text \<open>Whatever locks are held, \<^verbatim>\<open>wakeup\<close> changes nothing but the process table.\<close>

lemma wakeup_frame:
  assumes "wakeup ch s = Inr t"
  shows "\<exists>ps. t = s\<lparr>procs := ps\<rparr>"
proof (rule for_each_inv [OF assms [unfolded wakeup_def], where I = "\<lambda>t. \<exists>ps. t = s\<lparr>procs := ps\<rparr>"])
  show "\<exists>ps. s = s\<lparr>procs := ps\<rparr>" by (rule exI [of _ "procs s"]) simp
  fix p u u' assume "\<exists>ps. u = s\<lparr>procs := ps\<rparr>" and "wakeup_one ch p u = Inr u'"
  then show "\<exists>ps. u' = s\<lparr>procs := ps\<rparr>"
    by (auto simp: wakeup_one_def acquire_lk_def release_lk_def upd_proc_def Let_def
        split: if_splits)
qed

lemma allocpid_eq [kernel_simps]:
  "PidLock \<notin> held s \<Longrightarrow> allocpid s = Inr (nextpid s, s\<lparr>nextpid := nextpid s + 1\<rparr>)"
  by (simp add: allocpid_def kernel_simps Let_def)

lemma sleep_eq:
  assumes "curproc s = Some p" and "held s = {lk}" and "lk \<noteq> ProcLock p"
  shows "sleep ch lk s = Inl (Sleeping ch
    ((upd_proc p (\<lambda>q. q\<lparr>p_chan := Some ch, p_state := SLEEPING\<rparr>) s)\<lparr>held := {ProcLock p}\<rparr>))"
  using assms by (simp add: sleep_def kernel_simps sched_def upd_proc_def Let_def insert_Diff_if)

lemma sleep_never_returns: "sleep ch lk s \<noteq> Inr x"
  by (auto simp: sleep_def with_proc_def andthen_eq_Inr_iff split: option.splits)

lemma kill_from_eq:
  assumes "no_proc_lock s" and "\<forall>q \<in> set xs. p_pid (procs s q) \<noteq> pid" and "p_pid (procs s p) = pid"
  shows "kill_from pid (xs @ p # ys) s = Inr (0, upd_proc p (\<lambda>q.
    if p_state q = SLEEPING then q\<lparr>p_killed := True, p_state := RUNNABLE\<rparr>
    else q\<lparr>p_killed := True\<rparr>) s)"
  using assms
proof (induction xs)
  case Nil
  then show ?case by (simp add: kernel_simps Let_def upd_proc_def)
qed (simp add: kernel_simps)

lemma kill_from_none:
  assumes "no_proc_lock s" and "\<forall>q \<in> set xs. p_pid (procs s q) \<noteq> pid"
  shows "kill_from pid xs s = Inr (-1, s)"
  using assms by (induction xs) (simp_all add: kernel_simps)

lemma first_slot_split:
  assumes "p < n" and "Q p" and "\<forall>i < p. \<not> Q i"
  shows "\<exists>ys. [0..<n] = [0..<p] @ p # ys \<and> (\<forall>i \<in> set [0..<p]. \<not> Q i)"
  using assms by (metis atLeastLessThan_iff le0 le_add_diff_inverse less_imp_le_nat set_upt
      upt_add_eq_append upt_conv_Cons)

lemma scheduler_scan_skip:
  assumes "no_proc_lock s" and "\<forall>i \<in> set xs. p_state (procs s i) \<noteq> RUNNABLE"
  shows "scheduler_scan (xs @ ys) s = scheduler_scan ys s"
  using assms by (induction xs) (simp_all add: scheduler_visit_def kernel_simps)

text \<open>Reparenting: what one pass does to the table.\<close>

definition orphan_to :: "nat option \<Rightarrow> nat \<Rightarrow> proc \<Rightarrow> proc" where
  "orphan_to i p q = (if p_parent q = Some p then q\<lparr>p_parent := i\<rparr> else q)"


definition orphan_in :: "nat option \<Rightarrow> nat \<Rightarrow> nat set \<Rightarrow> (nat \<Rightarrow> proc) \<Rightarrow> nat \<Rightarrow> proc" where
  "orphan_in i p A ps = (\<lambda>j. if j \<in> A then orphan_to i p (ps j) else ps j)"

lemma orphan_awake_commute:
  "orphan_in i p A (awake_in ch me B ps) = awake_in ch me B (orphan_in i p A ps)"
  by (auto simp: orphan_in_def awake_in_def orphan_to_def awake_def fun_eq_iff)

lemma awake_in_idem: "awake_in ch me B (awake_in ch me B ps) = awake_in ch me B ps"
  by (simp add: awake_in_def fun_eq_iff)

lemma reparent_for_each:
  fixes s :: "'z ksync_scheme"
  assumes "no_proc_lock s" and "initproc s = Some i" and "distinct xs"
  defines "W \<equiv> awake_in (ProcChan i) (curproc s) {0..<NPROC}"
  shows "for_each (\<lambda>pp s.
      if p_parent (procs s pp) = Some p then
        (let s = upd_proc pp (\<lambda>q. q\<lparr>p_parent := initproc s\<rparr>) s in
         case initproc s of None \<Rightarrow> Inr s | Some i \<Rightarrow> wakeup (ProcChan i) s)
      else Inr s) xs s =
    (Inr (s\<lparr>procs := (if \<exists>x \<in> set xs. p_parent (procs s x) = Some p then W else id)
      (orphan_in (Some i) p (set xs) (procs s))\<rparr>) :: ('z ksync_scheme, 'z ksync_scheme) res)"
  using assms(1-3) unfolding W_def
proof (induction xs arbitrary: s)
  case Nil
  then show ?case by (simp add: orphan_in_def)
next
  case (Cons x xs)
  show ?case
  proof (cases "p_parent (procs s x) = Some p")
    case True
    have eq: "(procs s)(x := (procs s x)\<lparr>p_parent := Some i\<rparr>) = orphan_in (Some i) p {x} (procs s)"
      using True by (auto simp: orphan_in_def orphan_to_def)
    have nn: "no_proc_lock (upd_proc x f s)" for f
      using Cons.prems(1) by (simp add: no_proc_lock_def)
    have un: "orphan_in (Some i) p (set xs) (orphan_in (Some i) p {x} ps) =
      orphan_in (Some i) p (insert x (set xs)) ps" for ps
      using Cons.prems(3) by (auto simp: orphan_in_def fun_eq_iff)
    have par: "p_parent (awake_in ch me A (orphan_in (Some i) p {x} ps) y) = p_parent (ps y)"
      if "y \<in> set xs" for ch me A ps y
      using that Cons.prems(3) by (auto simp: awake_in_def orphan_in_def)
    let ?s = "s\<lparr>procs := awake_in (ProcChan i) (curproc s) {0..<NPROC}
      (orphan_in (Some i) p {x} (procs s))\<rparr>"
    have "no_proc_lock ?s" using Cons.prems(1) by (simp add: no_proc_lock_def)
    from Cons.IH [OF this] Cons.prems(2,3) show ?thesis
      using True by (simp add: kernel_simps nn eq Let_def orphan_awake_commute un awake_in_idem par)
        (simp add: upd_proc_def eq awake_in_idem)
  next
    case False
    then have "orphan_in (Some i) p (insert x A) (procs s) = orphan_in (Some i) p A (procs s)" for A
      by (auto simp: orphan_in_def orphan_to_def)
    with False Cons show ?thesis by simp
  qed
qed

lemma reparent_eq:
  assumes "no_proc_lock s" and "initproc s = Some i"
  shows "reparent p s = Inr (s\<lparr>procs :=
    (if \<exists>x < NPROC. p_parent (procs s x) = Some p
     then awake_in (ProcChan i) (curproc s) {0..<NPROC} else id)
    (orphan_in (Some i) p {0..<NPROC} (procs s))\<rparr>)"
proof -
  have "(\<exists>x \<in> set [0..<NPROC]. p_parent (procs s x) = Some p) \<longleftrightarrow>
    (\<exists>x < NPROC. p_parent (procs s x) = Some p)" by auto
  then show ?thesis
    unfolding reparent_def by (subst reparent_for_each [OF assms]) simp_all
qed

subsection \<open>Properties\<close>

text \<open>
  \<^verbatim>\<open>wakeup(chan)\<close> returns, gives back every lock it takes, makes runnable exactly the processes
  other than the caller that sleep on \<open>chan\<close>, and changes nothing else.
\<close>

theorem wakeup_exact:
  assumes "no_proc_lock s"
  shows "\<exists>t. wakeup ch s = Inr t \<and> held t = held s \<and>
    (\<forall>p. procs t p =
      (if p < NPROC \<and> curproc s \<noteq> Some p \<and> p_state (procs s p) = SLEEPING \<and>
          p_chan (procs s p) = Some ch
       then (procs s p)\<lparr>p_state := RUNNABLE\<rparr> else procs s p))"
  using assms by (auto simp: wakeup_eq awake_in_def awake_def)

definition ksync_ex :: "procstate \<Rightarrow> ksync" where
  "ksync_ex st = \<lparr>held = {LogLock}, curproc = Some 0,
     procs = (\<lambda>i. \<lparr>p_state = (if i = 3 then st else UNUSED), p_chan = Some LogChan,
       p_killed = False, p_xstate = 0, p_pid = int i, p_parent = None, p_kstack = 0, p_sz = 0,
       p_pagetable = 0, p_trapframe = 0,
       p_context = \<lparr>ctx_ra = 0, ctx_sp = 0, ctx_s = (\<lambda>_. 0)\<rparr>,
       p_ofile = (\<lambda>_. None), p_cwd = None, p_name = []\<rparr>),
     nextpid = 1, initproc = Some 0, ticks = 0\<rparr>"

lemma ksync_ex_no_proc_lock: "no_proc_lock (ksync_ex st)"
  by (simp add: no_proc_lock_def ksync_ex_def)

theorem wakeup_exact_witness:
  "\<exists>t. wakeup LogChan (ksync_ex SLEEPING) = Inr t \<and> p_state (procs t 3) = RUNNABLE"
  using wakeup_exact [OF ksync_ex_no_proc_lock, of LogChan SLEEPING]
  by (auto simp: ksync_ex_def NPROC_def)

text \<open>
  \<^verbatim>\<open>kill(pid)\<close> marks the first slot with that pid and wakes it if it sleeps, on whatever
  channel; with no such slot it returns -1 and leaves the table alone.
\<close>

theorem kill_exact:
  assumes "no_proc_lock s"
  shows "(\<forall>p < NPROC. p_pid (procs s p) = pid \<longrightarrow> (\<forall>i < p. p_pid (procs s i) \<noteq> pid) \<longrightarrow>
      kill pid s = Inr (0, upd_proc p (\<lambda>q.
        if p_state q = SLEEPING then q\<lparr>p_killed := True, p_state := RUNNABLE\<rparr>
        else q\<lparr>p_killed := True\<rparr>) s)) \<and>
    ((\<forall>p < NPROC. p_pid (procs s p) \<noteq> pid) \<longrightarrow> kill pid s = Inr (-1, s))"
proof (intro conjI allI impI)
  fix p assume p: "p < NPROC" "p_pid (procs s p) = pid" "\<forall>i < p. p_pid (procs s i) \<noteq> pid"
  from first_slot_split [OF this] obtain ys where "[0..<NPROC] = [0..<p] @ p # ys" by blast
  with p assms show "kill pid s = Inr (0, upd_proc p (\<lambda>q.
      if p_state q = SLEEPING then q\<lparr>p_killed := True, p_state := RUNNABLE\<rparr>
      else q\<lparr>p_killed := True\<rparr>) s)"
    by (simp add: kill_def kill_from_eq)
next
  assume "\<forall>p < NPROC. p_pid (procs s p) \<noteq> pid"
  then show "kill pid s = Inr (-1, s)"
    using assms by (simp add: kill_def kill_from_none)
qed

theorem kill_exact_witness:
  "\<exists>t. kill 3 (ksync_ex SLEEPING) = Inr (0, t) \<and> p_state (procs t 3) = RUNNABLE"
proof -
  have "(3::nat) < NPROC" by (simp add: NPROC_def)
  moreover have "p_pid (procs (ksync_ex SLEEPING) 3) = 3"
    and "\<forall>i < 3. p_pid (procs (ksync_ex SLEEPING) i) \<noteq> 3" by (auto simp: ksync_ex_def)
  ultimately show ?thesis
    using kill_exact [OF ksync_ex_no_proc_lock, of SLEEPING 3]
    by (force simp: ksync_ex_def)
qed

text \<open>
  C36. The scheduler's pass over the table stops at the first runnable process, with that process
  marked running, current and its lock held (handed to the process); when no process is runnable
  the pass ends with the state unchanged, every lock given back.
\<close>

theorem scheduler_scan_exact:
  assumes "no_proc_lock s"
  shows "(\<forall>p < NPROC. p_state (procs s p) = RUNNABLE \<longrightarrow>
      (\<forall>i < p. p_state (procs s i) \<noteq> RUNNABLE) \<longrightarrow>
      scheduler_scan [0..<NPROC] s = Inr (Some p,
        (upd_proc p (\<lambda>q. q\<lparr>p_state := RUNNING\<rparr>) s)
          \<lparr>curproc := Some p, held := insert (ProcLock p) (held s)\<rparr>)) \<and>
    ((\<forall>p < NPROC. p_state (procs s p) \<noteq> RUNNABLE) \<longrightarrow>
      scheduler_scan [0..<NPROC] s = Inr (None, s))"
proof (intro conjI allI impI)
  fix p assume p: "p < NPROC" "p_state (procs s p) = RUNNABLE"
    "\<forall>i < p. p_state (procs s i) \<noteq> RUNNABLE"
  from first_slot_split [OF this] obtain ys where ys: "[0..<NPROC] = [0..<p] @ p # ys" by blast
  show "scheduler_scan [0..<NPROC] s = Inr (Some p, (upd_proc p (\<lambda>q. q\<lparr>p_state := RUNNING\<rparr>) s)
      \<lparr>curproc := Some p, held := insert (ProcLock p) (held s)\<rparr>)"
    unfolding ys using p assms
    by (simp add: scheduler_scan_skip scheduler_visit_def kernel_simps upd_proc_def)
next
  assume "\<forall>p < NPROC. p_state (procs s p) \<noteq> RUNNABLE"
  then show "scheduler_scan [0..<NPROC] s = Inr (None, s)"
    using scheduler_scan_skip [OF assms, of "[0..<NPROC]" "[]"] by simp
qed

theorem scheduler_scan_exact_witness:
  "\<exists>t. scheduler_scan [0..<NPROC] (ksync_ex RUNNABLE) = Inr (Some 3, t) \<and>
    p_state (procs t 3) = RUNNING"
proof -
  have "(3::nat) < NPROC" by (simp add: NPROC_def)
  moreover have "p_state (procs (ksync_ex RUNNABLE) 3) = RUNNABLE"
    and "\<forall>i < 3. p_state (procs (ksync_ex RUNNABLE) i) \<noteq> RUNNABLE" by (auto simp: ksync_ex_def)
  ultimately show ?thesis
    using scheduler_scan_exact [OF ksync_ex_no_proc_lock, of RUNNABLE] by force
qed

end
