(* ===== verification/Sleep_Wakeup.thy ===== *)
theory Sleep_Wakeup
  imports Proc
begin

section \<open>Sleep and wakeup do not lose wakeups\<close>

text \<open>
  The interleaving of any number of processes that use one condition protected by a lock \<open>lk\<close>,
  the pattern of every use of \<^verbatim>\<open>sleep\<close> and \<^verbatim>\<open>wakeup\<close> in the kernel (pipes, the log, sleep locks,
  the console, the ticks):

  \<^item> a waiter runs \<^verbatim>\<open>acquire(lk); while(!cond) sleep(chan, lk); ... release(lk)\<close>;
  \<^item> a waker runs \<^verbatim>\<open>acquire(lk); cond = 1; wakeup(chan); release(lk)\<close>;
  \<^item> \<^verbatim>\<open>kill\<close> may wake a sleeper at any time.

  The steps are the statements of \<^verbatim>\<open>sleep\<close> and \<^verbatim>\<open>wakeup\<close> in \<^verbatim>\<open>kernel/proc.c\<close>, one step for each
  lock operation and each write to a process slot, and of the scheduler, which releases the lock
  of a process that has switched away and takes it before it switches back.
\<close>

datatype sw_pc =
    Idle                      \<comment> \<open>not using the condition\<close>
  | Has_lk                    \<comment> \<open>after \<^verbatim>\<open>acquire(lk)\<close>, about to test the condition\<close>
  | Sl_acquire                \<comment> \<open>in \<^verbatim>\<open>sleep\<close>, before \<^verbatim>\<open>acquire(&p->lock)\<close>\<close>
  | Sl_release                \<comment> \<open>before \<^verbatim>\<open>release(lk)\<close>\<close>
  | Sl_chan                   \<comment> \<open>before \<^verbatim>\<open>p->chan = chan\<close>\<close>
  | Sl_state                  \<comment> \<open>before \<^verbatim>\<open>p->state = SLEEPING\<close>\<close>
  | Sl_sched                  \<comment> \<open>in \<^verbatim>\<open>sched()\<close>, until the scheduler releases \<^verbatim>\<open>p->lock\<close>\<close>
  | Sl_off                    \<comment> \<open>switched away\<close>
  | Sl_tidy                   \<comment> \<open>running again, before \<^verbatim>\<open>p->chan = 0\<close>\<close>
  | Sl_unlock                 \<comment> \<open>before \<^verbatim>\<open>release(&p->lock)\<close>\<close>
  | Sl_reacquire              \<comment> \<open>before \<^verbatim>\<open>acquire(lk)\<close>\<close>
  | Wk nat                    \<comment> \<open>in \<^verbatim>\<open>wakeup\<close>, at the head of the loop for a slot\<close>
  | Wk_test nat               \<comment> \<open>holding the slot's lock, before the test\<close>
  | Wk_release nat            \<comment> \<open>before \<^verbatim>\<open>release(&p->lock)\<close>\<close>

record sw =
  sw_cond :: bool
  sw_owner :: "lockid \<Rightarrow> nat option"
  sw_state :: "nat \<Rightarrow> procstate"
  sw_chan :: "nat \<Rightarrow> chan option"
  sw_pc :: "nat \<Rightarrow> sw_pc"

definition sw_init :: sw where
  "sw_init = \<lparr>sw_cond = False, sw_owner = (\<lambda>_. None), sw_state = (\<lambda>_. RUNNING),
     sw_chan = (\<lambda>_. None), sw_pc = (\<lambda>_. Idle)\<rparr>"

definition sw_take :: "lockid \<Rightarrow> nat \<Rightarrow> sw \<Rightarrow> sw" where
  "sw_take l t s = s\<lparr>sw_owner := (sw_owner s)(l := Some t)\<rparr>"

definition sw_give :: "lockid \<Rightarrow> sw \<Rightarrow> sw" where
  "sw_give l s = s\<lparr>sw_owner := (sw_owner s)(l := None)\<rparr>"

definition sw_goto :: "nat \<Rightarrow> sw_pc \<Rightarrow> sw \<Rightarrow> sw" where
  "sw_goto t c s = s\<lparr>sw_pc := (sw_pc s)(t := c)\<rparr>"

definition sw_set :: "nat \<Rightarrow> procstate \<Rightarrow> sw \<Rightarrow> sw" where
  "sw_set t st s = s\<lparr>sw_state := (sw_state s)(t := st)\<rparr>"

definition sw_setchan :: "nat \<Rightarrow> chan option \<Rightarrow> sw \<Rightarrow> sw" where
  "sw_setchan t c s = s\<lparr>sw_chan := (sw_chan s)(t := c)\<rparr>"

inductive sw_step :: "chan \<Rightarrow> lockid \<Rightarrow> sw \<Rightarrow> sw \<Rightarrow> bool" for ch lk where
  enter: "t < NPROC \<Longrightarrow> sw_pc s t = Idle \<Longrightarrow> sw_owner s lk = None \<Longrightarrow>
    sw_step ch lk s (sw_goto t Has_lk (sw_take lk t s))"
| leave: "sw_pc s t = Has_lk \<Longrightarrow> sw_cond s \<Longrightarrow>
    sw_step ch lk s (sw_goto t Idle (sw_give lk (s\<lparr>sw_cond := b\<rparr>)))"
| call_sleep: "sw_pc s t = Has_lk \<Longrightarrow> \<not> sw_cond s \<Longrightarrow>
    sw_step ch lk s (sw_goto t Sl_acquire s)"
| sleep_acquire: "sw_pc s t = Sl_acquire \<Longrightarrow> sw_owner s (ProcLock t) = None \<Longrightarrow>
    sw_step ch lk s (sw_goto t Sl_release (sw_take (ProcLock t) t s))"
| sleep_release: "sw_pc s t = Sl_release \<Longrightarrow>
    sw_step ch lk s (sw_goto t Sl_chan (sw_give lk s))"
| sleep_chan: "sw_pc s t = Sl_chan \<Longrightarrow>
    sw_step ch lk s (sw_goto t Sl_state (sw_setchan t (Some ch) s))"
| sleep_state: "sw_pc s t = Sl_state \<Longrightarrow>
    sw_step ch lk s (sw_goto t Sl_sched (sw_set t SLEEPING s))"
| sleep_switch: "sw_pc s t = Sl_sched \<Longrightarrow>
    sw_step ch lk s (sw_goto t Sl_off (sw_give (ProcLock t) s))"
| schedule: "sw_pc s t = Sl_off \<Longrightarrow> sw_owner s (ProcLock t) = None \<Longrightarrow>
    sw_state s t = RUNNABLE \<Longrightarrow>
    sw_step ch lk s (sw_goto t Sl_tidy (sw_set t RUNNING (sw_take (ProcLock t) t s)))"
| sleep_tidy: "sw_pc s t = Sl_tidy \<Longrightarrow>
    sw_step ch lk s (sw_goto t Sl_unlock (sw_setchan t None s))"
| sleep_unlock: "sw_pc s t = Sl_unlock \<Longrightarrow>
    sw_step ch lk s (sw_goto t Sl_reacquire (sw_give (ProcLock t) s))"
| sleep_reacquire: "sw_pc s t = Sl_reacquire \<Longrightarrow> sw_owner s lk = None \<Longrightarrow>
    sw_step ch lk s (sw_goto t Has_lk (sw_take lk t s))"
| call_wakeup: "sw_pc s t = Has_lk \<Longrightarrow>
    sw_step ch lk s (sw_goto t (Wk 0) (s\<lparr>sw_cond := True\<rparr>))"
| wakeup_self: "sw_pc s t = Wk t \<Longrightarrow> t < NPROC \<Longrightarrow>
    sw_step ch lk s (sw_goto t (Wk (Suc t)) s)"
| wakeup_acquire: "sw_pc s t = Wk i \<Longrightarrow> i < NPROC \<Longrightarrow> i \<noteq> t \<Longrightarrow>
    sw_owner s (ProcLock i) = None \<Longrightarrow>
    sw_step ch lk s (sw_goto t (Wk_test i) (sw_take (ProcLock i) t s))"
| wakeup_hit: "sw_pc s t = Wk_test i \<Longrightarrow> sw_state s i = SLEEPING \<Longrightarrow> sw_chan s i = Some ch \<Longrightarrow>
    sw_step ch lk s (sw_goto t (Wk_release i) (sw_set i RUNNABLE s))"
| wakeup_miss: "sw_pc s t = Wk_test i \<Longrightarrow>
    \<not> (sw_state s i = SLEEPING \<and> sw_chan s i = Some ch) \<Longrightarrow>
    sw_step ch lk s (sw_goto t (Wk_release i) s)"
| wakeup_release: "sw_pc s t = Wk_release i \<Longrightarrow>
    sw_step ch lk s (sw_goto t (Wk (Suc i)) (sw_give (ProcLock i) s))"
| wakeup_return: "sw_pc s t = Wk NPROC \<Longrightarrow>
    sw_step ch lk s (sw_goto t Idle (sw_give lk s))"
| killed: "sw_owner s (ProcLock i) = None \<Longrightarrow> sw_state s i = SLEEPING \<Longrightarrow>
    sw_step ch lk s (sw_set i RUNNABLE s)"

definition sw_reachable :: "chan \<Rightarrow> lockid \<Rightarrow> sw \<Rightarrow> bool" where
  "sw_reachable ch lk s \<longleftrightarrow> (sw_step ch lk)\<^sup>*\<^sup>* sw_init s"

lemmas sw_ops = sw_take_def sw_give_def sw_goto_def sw_set_def sw_setchan_def

subsection \<open>The invariant\<close>

text \<open>Which program points hold \<open>lk\<close>, the process's own lock, and another slot's lock.\<close>

fun at_lk :: "sw_pc \<Rightarrow> bool" where
  "at_lk Has_lk = True" | "at_lk Sl_acquire = True" | "at_lk Sl_release = True"
| "at_lk (Wk i) = True" | "at_lk (Wk_test i) = True" | "at_lk (Wk_release i) = True"
| "at_lk _ = False"

fun at_own :: "sw_pc \<Rightarrow> bool" where
  "at_own Sl_release = True" | "at_own Sl_chan = True" | "at_own Sl_state = True"
| "at_own Sl_sched = True" | "at_own Sl_tidy = True" | "at_own Sl_unlock = True"
| "at_own _ = False"

fun at_other :: "nat \<Rightarrow> sw_pc \<Rightarrow> bool" where
  "at_other i (Wk_test j) = (i = j)" | "at_other i (Wk_release j) = (i = j)"
| "at_other i _ = False"

text \<open>A waker that has still to visit slot \<open>p\<close>.\<close>

fun to_visit :: "nat \<Rightarrow> sw_pc \<Rightarrow> bool" where
  "to_visit p (Wk i) = (i \<le> p)" | "to_visit p (Wk_test i) = (i \<le> p)"
| "to_visit p (Wk_release i) = (i < p)" | "to_visit p _ = False"

text \<open>A process that is past \<^verbatim>\<open>release(lk)\<close> and has not been woken.\<close>

definition committed :: "sw \<Rightarrow> nat \<Rightarrow> bool" where
  "committed s p \<longleftrightarrow> sw_pc s p \<in> {Sl_chan, Sl_state, Sl_sched} \<or>
     (sw_pc s p = Sl_off \<and> sw_state s p = SLEEPING)"

definition sw_locks :: "lockid \<Rightarrow> sw \<Rightarrow> bool" where
  "sw_locks lk s \<longleftrightarrow> (\<forall>t. (sw_owner s lk = Some t) = at_lk (sw_pc s t)) \<and>
     (\<forall>t i. (sw_owner s (ProcLock i) = Some t) =
       ((t = i \<and> at_own (sw_pc s t)) \<or> at_other i (sw_pc s t))) \<and>
     (\<forall>t. \<not> at_other t (sw_pc s t))"

definition sw_states :: "chan \<Rightarrow> sw \<Rightarrow> bool" where
  "sw_states ch s \<longleftrightarrow>
     (\<forall>p. sw_pc s p = Sl_sched \<longrightarrow> sw_state s p = SLEEPING) \<and>
     (\<forall>p. sw_pc s p = Sl_off \<longrightarrow> sw_state s p = SLEEPING \<or> sw_state s p = RUNNABLE) \<and>
     (\<forall>p. sw_state s p = SLEEPING \<longrightarrow> sw_pc s p = Sl_sched \<or> sw_pc s p = Sl_off) \<and>
     (\<forall>p. sw_pc s p \<in> {Sl_state, Sl_sched, Sl_off} \<longrightarrow> sw_chan s p = Some ch) \<and>
     (\<forall>p. sw_pc s p \<noteq> Idle \<longrightarrow> p < NPROC)"

definition sw_pending :: "sw \<Rightarrow> bool" where
  "sw_pending s \<longleftrightarrow>
     (\<forall>p. sw_pc s p \<in> {Sl_acquire, Sl_release} \<longrightarrow> \<not> sw_cond s) \<and>
     (\<forall>p. sw_cond s \<longrightarrow> committed s p \<longrightarrow> (\<exists>t. t \<noteq> p \<and> to_visit p (sw_pc s t)))"

definition sw_inv :: "chan \<Rightarrow> lockid \<Rightarrow> sw \<Rightarrow> bool" where
  "sw_inv ch lk s \<longleftrightarrow> sw_locks lk s \<and> sw_states ch s \<and> sw_pending s"


lemma sw_locksD:
  assumes "sw_locks lk s"
  shows "sw_owner s lk = Some t \<longleftrightarrow> at_lk (sw_pc s t)"
    and "sw_owner s (ProcLock i) = Some t \<longleftrightarrow>
      (t = i \<and> at_own (sw_pc s t)) \<or> at_other i (sw_pc s t)"
    and "\<not> at_other t (sw_pc s t)"
  using assms by (simp_all add: sw_locks_def)

lemma sw_locks_step:
  assumes "sw_step ch lk s s'" and "sw_locks lk s" and "\<forall>p. lk \<noteq> ProcLock p"
  shows "sw_locks lk s'"
  using assms(1)
proof cases
qed (insert assms(2,3), simp_all add: sw_locks_def sw_ops, (metis at_lk.simps at_own.simps at_other.simps option.inject option.distinct(1))+)

lemma sw_own_exclusive:
  assumes "sw_locks lk s" and "at_other i (sw_pc s t) \<or> sw_owner s (ProcLock i) = None"
  shows "\<not> at_own (sw_pc s i)"
  using assms sw_locksD(2) [OF assms(1), of i t] sw_locksD(2) [OF assms(1), of i i]
    sw_locksD(3) [OF assms(1), of t] by auto

lemma sw_states_step:
  assumes "sw_step ch lk s s'" and "sw_locks lk s" and "sw_states ch s"
  shows "sw_states ch s'"
proof -
  have "sw_pc s i \<noteq> Sl_sched" if "sw_pc s t = Wk_test i \<or> sw_owner s (ProcLock i) = None" for i t
    using sw_own_exclusive [OF assms(2), of i t] that by auto
  with assms(1,3) show ?thesis
    by cases (auto simp add: sw_states_def sw_ops)
qed

lemma sw_lk_exclusive:
  "sw_locks lk s \<Longrightarrow> at_lk (sw_pc s t) \<Longrightarrow> at_lk (sw_pc s u) \<Longrightarrow> t = u"
  using sw_locksD(1) [of lk s t] sw_locksD(1) [of lk s u] by simp

lemma sw_pending_sleeping:
  assumes "sw_step ch lk s s'" and "sw_locks lk s" and "sw_pending s"
  shows "sw_pc s' p \<in> {Sl_acquire, Sl_release} \<longrightarrow> \<not> sw_cond s'"
proof -
  have lk: "sw_pc s p \<noteq> Sl_acquire \<and> sw_pc s p \<noteq> Sl_release"
    if "sw_pc s t = Has_lk" for t
    using sw_lk_exclusive [OF assms(2), of t p] that by auto
  from assms(1) lk assms(3) show ?thesis
    by cases (auto simp: sw_pending_def sw_ops)
qed

text \<open>A waker that has still to visit a committed sleeper keeps that obligation until it has.\<close>

lemma to_visit_step:
  assumes "sw_step ch lk s s'" and "sw_locks lk s" and "sw_states ch s"
    and "committed s p" and "committed s' p" and "t \<noteq> p" and "to_visit p (sw_pc s t)"
  shows "to_visit p (sw_pc s' t)"
proof -
  have p: "p < NPROC" using assms(3,4) by (auto simp: sw_states_def committed_def)
  have te: "sw_chan s p = Some ch \<and> sw_state s p = SLEEPING \<and> sw_pc s p = Sl_off"
    if "sw_pc s u = Wk_test p" for u
    using sw_own_exclusive [OF assms(2), of p u] that assms(3,4)
    by (auto simp: committed_def sw_states_def)
  have lk: "u = t" if "at_lk (sw_pc s u)" for u
    using sw_lk_exclusive [OF assms(2), of u t] that assms(7) by (cases "sw_pc s t") auto
  have nr: "sw_pc s t \<noteq> Wk_release p" "p = u \<Longrightarrow> sw_pc s t = Wk u \<Longrightarrow> u \<noteq> t" for u
    using assms(6,7) by auto
  from assms(1) show ?thesis
    by cases (insert assms(4-7) p te lk nr,
      auto simp: sw_ops committed_def le_less_Suc_eq Suc_le_eq le_less split: if_splits)
qed

lemma sw_pending_visit:
  assumes "sw_step ch lk s s'" and "sw_inv ch lk s" and "sw_cond s'" and "committed s' p"
  shows "\<exists>t. t \<noteq> p \<and> to_visit p (sw_pc s' t)"
proof (cases "sw_cond s \<and> committed s p")
  case True
  then obtain t where "t \<noteq> p" "to_visit p (sw_pc s t)"
    using assms(2) by (auto simp: sw_inv_def sw_pending_def)
  then show ?thesis
    using to_visit_step [OF assms(1) _ _ _ assms(4)] True assms(2) by (auto simp: sw_inv_def)
next
  case False
  from assms(2) have "sw_pc s p = Sl_release \<Longrightarrow> \<not> sw_cond s"
    by (auto simp: sw_inv_def sw_pending_def)
  with assms(1,3,4) False show ?thesis
    by cases (auto simp: sw_ops committed_def split: if_splits)
qed

lemma sw_inv_step:
  assumes "sw_step ch lk s s'" and "sw_inv ch lk s" and "\<forall>p. lk \<noteq> ProcLock p"
  shows "sw_inv ch lk s'"
proof -
  have "sw_pending s'" unfolding sw_pending_def
    using sw_pending_sleeping [OF assms(1)] sw_pending_visit [OF assms(1,2)] assms(2)
    by (auto simp: sw_inv_def)
  then show ?thesis
    using sw_locks_step [OF assms(1) _ assms(3)] sw_states_step [OF assms(1)] assms(2)
    by (simp add: sw_inv_def)
qed

lemma sw_inv_reachable:
  assumes "sw_reachable ch lk s" and "\<forall>p. lk \<noteq> ProcLock p"
  shows "sw_inv ch lk s"
  using assms(1) unfolding sw_reachable_def
proof (induction rule: rtranclp_induct)
  case base
  show ?case
    by (simp add: sw_init_def sw_inv_def sw_locks_def sw_states_def sw_pending_def committed_def)
next
  case (step s s')
  then show ?case using sw_inv_step assms(2) by blast
qed

subsection \<open>Properties\<close>

text \<open>
  C25. No wakeup is lost. Whatever the interleaving, if the condition holds while some process has
  committed to sleeping (it has released \<open>lk\<close> inside \<^verbatim>\<open>sleep\<close> and has not been woken), then a waker
  still holds \<open>lk\<close> and has not yet passed that process's slot. So once \<open>lk\<close> is free and the
  condition holds, every process that is switched away is runnable.
\<close>

theorem no_lost_wakeup:
  assumes "sw_reachable ch lk s" and "\<forall>p. lk \<noteq> ProcLock p" and "sw_cond s"
  shows "(committed s p \<longrightarrow> (\<exists>t. t \<noteq> p \<and> sw_owner s lk = Some t \<and> to_visit p (sw_pc s t))) \<and>
    (sw_owner s lk = None \<longrightarrow> sw_pc s p = Sl_off \<longrightarrow> sw_state s p = RUNNABLE)"
proof -
  have inv: "sw_inv ch lk s" by (rule sw_inv_reachable [OF assms(1,2)])
  have own: "sw_owner s lk = Some t" if "to_visit p (sw_pc s t)" for t
    using inv that by (cases "sw_pc s t") (simp_all add: sw_inv_def sw_locks_def)
  show ?thesis
    using inv own assms(3) unfolding sw_inv_def sw_states_def sw_pending_def committed_def
    by (metis insertI1 insertI2 option.distinct(1))
qed

lemma sw_reachable_step: "sw_reachable ch lk s \<Longrightarrow> sw_step ch lk s s' \<Longrightarrow> sw_reachable ch lk s'"
  unfolding sw_reachable_def by (rule rtranclp.rtrancl_into_rtrancl)

text \<open>Process 0 sleeps on the log and process 1 then sets the condition and calls \<^verbatim>\<open>wakeup\<close>.\<close>

definition sw_run :: sw where
  "sw_run =
    (let s = sw_goto 0 Has_lk (sw_take LogLock 0 sw_init);
         s = sw_goto 0 Sl_acquire s;
         s = sw_goto 0 Sl_release (sw_take (ProcLock 0) 0 s);
         s = sw_goto 0 Sl_chan (sw_give LogLock s);
         s = sw_goto 1 Has_lk (sw_take LogLock 1 s)
     in sw_goto 1 (Wk 0) (s\<lparr>sw_cond := True\<rparr>))"

lemma sw_run_reachable: "sw_reachable LogChan LogLock sw_run"
  unfolding sw_run_def Let_def
  apply (rule sw_reachable_step [OF _ call_wakeup])
   apply (rule sw_reachable_step [OF _ enter])
      apply (rule sw_reachable_step [OF _ sleep_release])
       apply (rule sw_reachable_step [OF _ sleep_acquire])
         apply (rule sw_reachable_step [OF _ call_sleep])
           apply (rule sw_reachable_step [OF _ enter])
              apply (simp_all add: sw_reachable_def sw_ops sw_init_def NPROC_def)
  done

theorem no_lost_wakeup_witness:
  "committed sw_run 0 \<and> (\<exists>t. t \<noteq> 0 \<and> sw_owner sw_run LogLock = Some t \<and> to_visit 0 (sw_pc sw_run t))"
proof -
  have "sw_cond sw_run" and "committed sw_run 0"
    by (simp_all add: sw_run_def Let_def sw_ops committed_def)
  with no_lost_wakeup [OF sw_run_reachable, of 0] show ?thesis by simp
qed

end
