(* ===== verification/Cstring.thy ===== *)
theory Cstring
  imports Xv6_Base
begin

section \<open>Byte memory and the string routines\<close>

text \<open>
  \<^verbatim>\<open>kernel/string.c\<close>. Physical memory is a function from 64-bit addresses to bytes. The routines
  that may be called on overlapping regions (\<^verbatim>\<open>memset\<close>, \<^verbatim>\<open>memmove\<close>, \<^verbatim>\<open>memcpy\<close>) work on memory. The
  routines on strings take the objects that their pointers point at, as functions of the offset:
  \<^verbatim>\<open>p[i]\<close> is \<open>p i\<close>. \<^verbatim>\<open>strlen\<close> may run off the end of memory, so it is a partial function.
\<close>

type_synonym memory = "u64 \<Rightarrow> u8"

subsection \<open>Memory routines\<close>

fun memset_loop :: "memory \<Rightarrow> u64 \<Rightarrow> u8 \<Rightarrow> nat \<Rightarrow> memory" where
  "memset_loop m d c 0 = m"
| "memset_loop m d c (Suc n) = memset_loop (m(d := c)) (d + 1) c n"

definition memset :: "memory \<Rightarrow> u64 \<Rightarrow> u8 \<Rightarrow> u32 \<Rightarrow> memory" where
  "memset m d c n = memset_loop m d c (unat n)"

fun copy_up :: "memory \<Rightarrow> u64 \<Rightarrow> u64 \<Rightarrow> nat \<Rightarrow> memory" where
  "copy_up m d s 0 = m"
| "copy_up m d s (Suc n) = copy_up (m(d := m s)) (d + 1) (s + 1) n"

fun copy_down :: "memory \<Rightarrow> u64 \<Rightarrow> u64 \<Rightarrow> nat \<Rightarrow> memory" where
  "copy_down m d s 0 = m"
| "copy_down m d s (Suc n) = copy_down (m(d - 1 := m (s - 1))) (d - 1) (s - 1) n"

definition memmove :: "memory \<Rightarrow> u64 \<Rightarrow> u64 \<Rightarrow> u32 \<Rightarrow> memory" where
  "memmove m d s n =
     (if n = 0 then m
      else if s < d \<and> s + ucast n > d then copy_down m (d + ucast n) (s + ucast n) (unat n)
      else copy_up m d s (unat n))"

definition memcpy :: "memory \<Rightarrow> u64 \<Rightarrow> u64 \<Rightarrow> u32 \<Rightarrow> memory" where
  "memcpy m d s n = memmove m d s n"

fun memcmp :: "(nat \<Rightarrow> u8) \<Rightarrow> (nat \<Rightarrow> u8) \<Rightarrow> nat \<Rightarrow> int" where
  "memcmp p q 0 = 0"
| "memcmp p q (Suc n) =
     (if p 0 \<noteq> q 0 then uint (p 0) - uint (q 0)
      else memcmp (\<lambda>i. p (Suc i)) (\<lambda>i. q (Suc i)) n)"

subsection \<open>String routines\<close>

fun strncmp :: "(nat \<Rightarrow> u8) \<Rightarrow> (nat \<Rightarrow> u8) \<Rightarrow> nat \<Rightarrow> int" where
  "strncmp p q 0 = 0"
| "strncmp p q (Suc n) =
     (if p 0 \<noteq> 0 \<and> p 0 = q 0 then strncmp (\<lambda>i. p (Suc i)) (\<lambda>i. q (Suc i)) n
      else uint (p 0) - uint (q 0))"

text \<open>
  The two loops of \<^verbatim>\<open>strncpy\<close>: the first copies up to and including a nul, the second pads. \<open>k\<close> is
  the offset that both pointers have reached, \<open>n\<close> the counter.
\<close>

fun strncpy_pad :: "(nat \<Rightarrow> u8) \<Rightarrow> nat \<Rightarrow> nat \<Rightarrow> nat \<Rightarrow> u8" where
  "strncpy_pad s k 0 = s"
| "strncpy_pad s k (Suc n) = strncpy_pad (s(k := 0)) (Suc k) n"

fun strncpy_copy :: "(nat \<Rightarrow> u8) \<Rightarrow> (nat \<Rightarrow> u8) \<Rightarrow> nat \<Rightarrow> nat \<Rightarrow> nat \<Rightarrow> u8" where
  "strncpy_copy s t k 0 = s"
| "strncpy_copy s t k (Suc n) =
     (let s = s(k := t k) in
      if t k \<noteq> 0 then strncpy_copy s t (Suc k) n else strncpy_pad s (Suc k) n)"

definition strncpy :: "(nat \<Rightarrow> u8) \<Rightarrow> (nat \<Rightarrow> u8) \<Rightarrow> int \<Rightarrow> nat \<Rightarrow> u8" where
  "strncpy s t n = strncpy_copy s t 0 (nat n)"

text \<open>\<^verbatim>\<open>safestrcpy\<close>: \<open>n\<close> is the counter after the decrement of the loop test.\<close>

fun safestrcpy_loop :: "(nat \<Rightarrow> u8) \<Rightarrow> (nat \<Rightarrow> u8) \<Rightarrow> nat \<Rightarrow> nat \<Rightarrow> nat \<Rightarrow> u8" where
  "safestrcpy_loop s t k 0 = s(k := 0)"
| "safestrcpy_loop s t k (Suc n) =
     (let s = s(k := t k) in
      if t k \<noteq> 0 then safestrcpy_loop s t (Suc k) n else s(Suc k := 0))"

definition safestrcpy :: "(nat \<Rightarrow> u8) \<Rightarrow> (nat \<Rightarrow> u8) \<Rightarrow> int \<Rightarrow> nat \<Rightarrow> u8" where
  "safestrcpy s t n = (if n \<le> 0 then s else safestrcpy_loop s t 0 (nat n - 1))"

partial_function (option) strlen_from :: "(nat \<Rightarrow> u8) \<Rightarrow> nat \<Rightarrow> nat option" where
  "strlen_from s n = (if s n \<noteq> 0 then strlen_from s (Suc n) else Some n)"

definition strlen :: "(nat \<Rightarrow> u8) \<Rightarrow> nat option" where
  "strlen s = strlen_from s 0"

subsection \<open>Offsets\<close>

lemma offset_step:
  fixes x d :: u64
  assumes "n < 2 ^ 64"
  shows "unat (x - d) < Suc n \<longleftrightarrow> x = d \<or> unat (x - (d + 1)) < n"
proof (cases "x = d")
  case False
  then have "unat (x - (d + 1)) = unat (x - d) - 1" and "unat (x - d) > 0"
    using unat_minus_one [of "x - d"] by (auto simp: algebra_simps unat_gt_0)
  then show ?thesis using False by auto
qed simp

lemma offset_self:
  fixes d :: u64
  assumes "n < 2 ^ 64" shows "\<not> unat (d - (d + 1)) < n"
proof -
  have "d - (d + 1) = - 1" by simp
  then show ?thesis using assms by (simp add: unsigned_minus_1_eq_mask mask_eq_exp_minus_1)
qed

lemma memset_loop_eq:
  "n \<le> 2 ^ 64 \<Longrightarrow> memset_loop m d c n = (\<lambda>x. if unat (x - d) < n then c else m x)"
proof (induction n arbitrary: m d)
  case (Suc n)
  then have n: "n < 2 ^ 64" by simp
  show ?case
    using Suc offset_step [OF n, of _ d] offset_self [OF n, of d] by (auto simp: fun_eq_iff)
qed simp

lemma copy_up_eq:
  assumes "n \<le> 2 ^ 64" and "d = s \<or> n \<le> unat (d - s)"
  shows "copy_up m d s n = (\<lambda>x. if unat (x - d) < n then m (s + (x - d)) else m x)"
  using assms
proof (induction n arbitrary: m d s)
  case (Suc n)
  then have n: "n < 2 ^ 64" by simp
  have diff: "d + 1 - (s + 1) = d - s" by simp
  have ne: "s + (x - d) \<noteq> d" if "unat (x - d) < Suc n" "x \<noteq> d" for x
  proof
    assume "s + (x - d) = d"
    then have "d - s = x - d" by (simp add: algebra_simps)
    with that Suc.prems(2) show False by auto
  qed
  have IH: "copy_up (m(d := m s)) (d + 1) (s + 1) n =
    (\<lambda>x. if unat (x - (d + 1)) < n then (m(d := m s)) (s + 1 + (x - (d + 1)))
      else (m(d := m s)) x)"
    by (rule Suc.IH) (use Suc.prems n diff in auto)
  have sh: "s + 1 + (x - (d + 1)) = s + (x - d)" for x by simp
  show ?case
  proof (rule ext)
    fix x show "copy_up m d s (Suc n) x = (if unat (x - d) < Suc n then m (s + (x - d)) else m x)"
      unfolding copy_up.simps IH sh
      using offset_step [OF n, of x d] offset_self [OF n, of d] ne [of x] by (cases "x = d") auto
  qed
qed simp

lemma copy_down_eq:
  assumes "n \<le> 2 ^ 64" and "d = s \<or> n \<le> unat (s - d)"
  shows "copy_down m d s n = (\<lambda>x. if unat (d - 1 - x) < n then m (s - (d - x)) else m x)"
  using assms
proof (induction n arbitrary: m d s)
  case (Suc n)
  then have n: "n < 2 ^ 64" by simp
  have diff: "s - 1 - (d - 1) = s - d" by simp
  have step: "unat (d - 1 - x) < Suc n \<longleftrightarrow> x = d - 1 \<or> unat (d - 1 - 1 - x) < n" for x
    using offset_step [OF n, of "d - 1" x] by (auto simp: algebra_simps)
  have self: "\<not> unat (d - 1 - 1 - (d - 1)) < n"
    using offset_self [OF n, of "0"] by (simp add: algebra_simps)
  have ne: "s - (d - x) \<noteq> d - 1" if "unat (d - 1 - x) < Suc n" "x \<noteq> d - 1" for x
  proof
    assume "s - (d - x) = d - 1"
    then have "s - d = d - 1 - x" by (simp add: algebra_simps)
    with that Suc.prems(2) show False by (auto simp: algebra_simps)
  qed
  have IH: "copy_down (m(d - 1 := m (s - 1))) (d - 1) (s - 1) n =
    (\<lambda>x. if unat (d - 1 - 1 - x) < n then (m(d - 1 := m (s - 1))) (s - 1 - (d - 1 - x))
      else (m(d - 1 := m (s - 1))) x)"
    by (rule Suc.IH) (use Suc.prems n diff in auto)
  have sh: "s - 1 - (d - 1 - x) = s - (d - x)" for x by simp
  show ?case
  proof (rule ext)
    fix x
    show "copy_down m d s (Suc n) x = (if unat (d - 1 - x) < Suc n then m (s - (d - x)) else m x)"
      unfolding copy_down.simps IH sh using step [of x] self ne [of x] by (cases "x = d - 1") auto
  qed
qed simp


subsection \<open>What the routines do\<close>

lemma memset_eq: "memset m d c n = (\<lambda>x. if unat (x - d) < unat n then c else m x)"
proof -
  have "unat n \<le> 2 ^ 64" using unat_less_exp [of n] by simp
  then show ?thesis by (simp add: memset_def memset_loop_eq)
qed

lemma unat_ucast_32_64: "unat (ucast n :: u64) = unat n" for n :: u32
  by (simp add: unsigned_ucast_eq take_bit_nat_eq_self unat_less_exp [THEN less_le_trans])

lemma reverse_offset:
  fixes z w :: u64
  assumes "w \<noteq> 0"
  shows "unat (w - 1 - z) < unat w \<longleftrightarrow> unat z < unat w"
proof -
  have w: "unat (w - 1) = unat w - 1" "unat w > 0"
    using assms by (simp_all add: unat_minus_one unat_gt_0)
  show ?thesis
  proof (cases "z \<le> w - 1")
    case True
    then have "unat (w - 1 - z) = unat w - 1 - unat z" using w by (simp add: unat_minus_le)
    moreover have "unat z \<le> unat w - 1" using True w by (simp add: word_le_nat_alt)
    ultimately show ?thesis using w by simp
  next
    case False
    then have z: "unat z > unat w - 1" using w by (simp add: word_le_nat_alt)
    have neg: "w - 1 - z = - (z - (w - 1))" by simp
    have sub: "unat (z - (w - 1)) = unat z - (unat w - 1)"
      using False w by (simp add: unat_minus_le)
    have "z - (w - 1) \<noteq> 0" using False by auto
    from unat_uminus [OF this] have "unat (w - 1 - z) = 2 ^ 64 - (unat z - (unat w - 1))"
      unfolding neg sub by simp
    moreover have "unat z < 2 ^ 64" using unat_less_exp [of z] by simp
    ultimately have "\<not> unat (w - 1 - z) < unat w" and "\<not> unat z < unat w"
      using z w by linarith+
    then show ?thesis by simp
  qed
qed

text \<open>
  C38. \<^verbatim>\<open>memmove\<close> copies correctly also when the regions overlap: afterwards the destination holds
  what the source held before, and every other byte is unchanged. The regions must not wrap around
  the address space.
\<close>

theorem memmove_correct:
  assumes "unat s + unat n < 2 ^ 64" and "unat d + unat n \<le> 2 ^ 64"
  shows "memmove m d s n x = (if unat (x - d) < unat n then m (s + (x - d)) else m x)"
proof (cases "n = 0")
  case False
  let ?n = "ucast n :: u64"
  have n: "unat ?n = unat n" "?n \<noteq> 0" "unat n \<le> 2 ^ 64"
    using False unat_less_exp [of n] by (auto simp: unat_ucast_32_64 unat_eq_0 [symmetric])
  have sn: "unat (s + ?n) = unat s + unat n" using assms(1) n by (simp add: unat_plus_le)
  show ?thesis
  proof (cases "s < d \<and> s + ?n > d")
    case True
    then have "unat (d - s) = unat d - unat s" and "unat s < unat d"
      by (auto simp: unat_minus_le) (simp add: word_less_nat_alt)
    moreover have "d - s \<noteq> 0" using True by auto
    ultimately have "unat (s - d) = 2 ^ 64 - (unat d - unat s)"
      using unat_uminus [of "d - s"] by simp
    then have sep: "unat n \<le> unat (s + ?n - (d + ?n))" using assms(2) by simp
    have rev: "unat (d + ?n - 1 - x) < unat n \<longleftrightarrow> unat (x - d) < unat n"
      using reverse_offset [OF n(2), of "x - d"] n(1) by (simp add: algebra_simps)
    have sh: "s + ?n - (d + ?n - x) = s + (x - d)" by simp
    show ?thesis
      using True False n(3) sep rev sh
      by (simp only: memmove_def if_True if_False copy_down_eq [OF n(3) disjI2 [OF sep]] simp_thms)
  next
    case F: False
    have "d = s \<or> unat n \<le> unat (d - s)"
    proof (cases "s < d")
      case True
      then have "s + ?n \<le> d" using F by auto
      then have "unat n \<le> unat (d - s)"
        using sn True by (simp add: unat_minus_le word_le_nat_alt)
      then show ?thesis ..
    next
      case False
      show ?thesis
      proof (cases "d = s")
        case ne: False
        have "unat (s - d) = unat s - unat d" using False by (simp add: unat_minus_le)
        with ne have "unat (d - s) = 2 ^ 64 - (unat s - unat d)"
          using unat_uminus [of "s - d"] by simp
        then have "unat n \<le> unat (d - s)" using assms(1) by simp
        then show ?thesis ..
      qed simp
    qed
    from copy_up_eq [OF n(3) this] show ?thesis
      using F False by (simp only: memmove_def if_False)
  qed
qed (simp add: memmove_def)

theorem memmove_correct_witness:
  "memmove (\<lambda>a. ucast a) 12 10 4 15 = 13 \<and> memmove (\<lambda>a. ucast a) 12 10 4 16 = 16"
  using memmove_correct [of 10 4 12 "\<lambda>a. ucast a" 15] memmove_correct [of 10 4 12 "\<lambda>a. ucast a" 16]
  by simp

text \<open>Strings as lists: the bytes before the first nul, at most \<open>n\<close> of them.\<close>

fun cstr :: "(nat \<Rightarrow> u8) \<Rightarrow> nat \<Rightarrow> u8 list" where
  "cstr p 0 = []"
| "cstr p (Suc n) = (if p 0 = 0 then [] else p 0 # cstr (\<lambda>i. p (Suc i)) n)"

lemma length_cstr: "length (cstr p n) \<le> n"
  by (induction n arbitrary: p) auto

lemma cstr_nonzero: "0 \<notin> set (cstr p n)"
  by (induction n arbitrary: p) auto

lemma cstr_nth: "i < length (cstr p n) \<Longrightarrow> cstr p n ! i = p i"
proof (induction n arbitrary: p i)
  case (Suc n)
  then show ?case by (cases i) (auto split: if_splits)
qed simp

lemma cstr_stop: "length (cstr p n) < n \<Longrightarrow> p (length (cstr p n)) = 0"
  by (induction n arbitrary: p) auto

lemma cstr_eqI:
  assumes "p (length xs) = 0" and "\<And>i. i < length xs \<Longrightarrow> p i = xs ! i" and "length xs < n"
    and "0 \<notin> set xs"
  shows "cstr p n = xs"
  using assms
proof (induction n arbitrary: p xs)
  case (Suc n)
  show ?case
  proof (cases xs)
    case (Cons x ys)
    have "p 0 = x" using Suc.prems(2) [of 0] Cons by simp
    moreover have "cstr (\<lambda>i. p (Suc i)) n = ys"
      by (rule Suc.IH) (use Suc.prems(1,3,4) Suc.prems(2) [of "Suc _"] Cons in auto)
    ultimately show ?thesis using Cons Suc.prems(4) by auto
  qed (use Suc.prems in simp)
qed simp

lemma strncmp_eq_0_iff: "strncmp p q n = 0 \<longleftrightarrow> cstr p n = cstr q n"
  by (induction p q n rule: strncmp.induct) (auto simp: word_uint_eq_iff)

lemma strncpy_pad_eq: "strncpy_pad s k n = (\<lambda>i. if k \<le> i \<and> i < k + n then 0 else s i)"
  by (induction n arbitrary: s k) (auto simp: fun_eq_iff)

lemma strncpy_copy_eq:
  "strncpy_copy s t k n = (\<lambda>i. if k \<le> i \<and> i < k + n
     then (if i - k < length (cstr (\<lambda>j. t (k + j)) n) then t i else 0) else s i)"
proof (induction n arbitrary: s k)
  case (Suc n)
  show ?case
  proof (cases "t k = 0")
    case False
    have sh: "(\<lambda>j. t (Suc k + j)) = (\<lambda>i. t (k + Suc i))" by simp
    have "strncpy_copy (s(k := t k)) t (Suc k) n = (\<lambda>i. if Suc k \<le> i \<and> i < Suc k + n
      then (if i - Suc k < length (cstr (\<lambda>j. t (Suc k + j)) n) then t i else 0)
      else (s(k := t k)) i)" by (rule Suc.IH)
    then show ?thesis using False unfolding sh by (auto simp: fun_eq_iff)
  qed (auto simp: strncpy_pad_eq fun_eq_iff)
qed (auto simp: fun_eq_iff)

lemma strncpy_eq:
  "strncpy s t n = (\<lambda>i. if i < nat n then (if i < length (cstr t (nat n)) then t i else 0) else s i)"
  unfolding strncpy_def strncpy_copy_eq by (simp only: add_0 diff_zero le0 simp_thms)

lemma safestrcpy_loop_prefix: "i < k \<Longrightarrow> safestrcpy_loop s t k n i = s i"
  by (induction n arbitrary: s k) (auto simp: Let_def)

lemma safestrcpy_loop_outside: "k + n < i \<Longrightarrow> safestrcpy_loop s t k n i = s i"
  by (induction n arbitrary: s k) (auto simp: Let_def)

lemma safestrcpy_loop_copied:
  "i < length (cstr (\<lambda>j. t (k + j)) n) \<Longrightarrow> safestrcpy_loop s t k n (k + i) = t (k + i)"
proof (induction n arbitrary: s k i)
  case (Suc n)
  show ?case
  proof (cases i)
    case 0
    with Suc show ?thesis by (auto simp: Let_def safestrcpy_loop_prefix split: if_splits)
  next
    case j: (Suc j)
    have sh: "(\<lambda>i. t (k + Suc i)) = (\<lambda>j. t (Suc k + j))" by simp
    from Suc.prems j have "t k \<noteq> 0" and "j < length (cstr (\<lambda>j. t (Suc k + j)) n)"
      unfolding sh [symmetric] by (auto split: if_splits)
    moreover from this(2) have "safestrcpy_loop (s(k := t k)) t (Suc k) n (Suc k + j) = t (Suc k + j)"
      by (rule Suc.IH)
    ultimately show ?thesis using j by simp
  qed
qed simp

lemma safestrcpy_loop_end:
  "safestrcpy_loop s t k n (k + length (cstr (\<lambda>j. t (k + j)) n)) = 0"
proof (induction n arbitrary: s k)
  case (Suc n)
  have sh: "(\<lambda>i. t (k + Suc i)) = (\<lambda>j. t (Suc k + j))" by simp
  have "safestrcpy_loop (s(k := t k)) t (Suc k) n (Suc k + length (cstr (\<lambda>j. t (Suc k + j)) n)) = 0"
    by (rule Suc.IH)
  then show ?case by (cases "t k = 0") (simp_all add: sh)
qed simp

lemma strlen_from_eq:
  assumes "\<forall>i < n. s (k + i) \<noteq> 0" and "s (k + n) = 0"
  shows "strlen_from s k = Some (k + n)"
  using assms
proof (induction n arbitrary: k)
  case 0
  then show ?case by (subst strlen_from.simps) simp
next
  case (Suc n)
  have "s (Suc k + i) \<noteq> 0" if "i < n" for i
    using Suc.prems(1) that by (metis Suc_less_eq add_Suc_shift)
  then have "strlen_from s (Suc k) = Some (Suc k + n)" using Suc by simp
  moreover have "s k \<noteq> 0" using Suc.prems(1) by (metis add.right_neutral zero_less_Suc)
  ultimately show ?case by (subst strlen_from.simps) simp
qed

lemma strlen_eq: "\<forall>i < n. s i \<noteq> 0 \<Longrightarrow> s n = 0 \<Longrightarrow> strlen s = Some n"
  using strlen_from_eq [of n s 0] by (simp add: strlen_def)

text \<open>
  \<^verbatim>\<open>safestrcpy(s, t, n)\<close> with a positive \<open>n\<close> always leaves a nul-terminated string within the
  first \<open>n\<close> bytes: the longest prefix of \<open>t\<close> that fits. Bytes from \<open>n\<close> on are untouched.
\<close>

theorem safestrcpy_terminates_string:
  assumes "0 < n"
  shows "cstr (safestrcpy s t n) (nat n) = cstr t (nat n - 1) \<and>
    safestrcpy s t n (length (cstr t (nat n - 1))) = 0 \<and>
    length (cstr t (nat n - 1)) < nat n \<and>
    (\<forall>i \<ge> nat n. safestrcpy s t n i = s i)"
proof -
  let ?l = "cstr t (nat n - 1)" and ?r = "safestrcpy s t n"
  have len: "length ?l < nat n" using length_cstr [of t "nat n - 1"] assms by linarith
  have r: "?r = safestrcpy_loop s t 0 (nat n - 1)" using assms by (simp add: safestrcpy_def)
  have z: "?r (length ?l) = 0" using safestrcpy_loop_end [of s t 0] by (simp add: r)
  have c: "?r i = ?l ! i" if "i < length ?l" for i
    using safestrcpy_loop_copied [of i t 0] that by (simp add: r cstr_nth)
  have "cstr ?r (nat n) = ?l" by (rule cstr_eqI [OF z c len]) (use cstr_nonzero in auto)
  moreover have "\<forall>i \<ge> nat n. ?r i = s i"
    using assms by (auto simp: r safestrcpy_loop_outside)
  ultimately show ?thesis using len z by blast
qed

theorem safestrcpy_terminates_string_witness:
  "cstr (safestrcpy (\<lambda>_. 9) (\<lambda>i. [1, 2, 3, 4, 0] ! i) 3) 3 = [1, 2]"
  using safestrcpy_terminates_string [of 3 "\<lambda>_. 9" "\<lambda>i. [1, 2, 3, 4, 0] ! i"]
  by (simp add: numeral_2_eq_2)

end
