(* ===== verification/Memory.thy ===== *)
theory Memory
  imports Cstring
begin

section \<open>Words in byte memory\<close>

text \<open>
  Loads and stores of multi-byte integers and of byte ranges, little-endian as on RISC-V. The
  kernel's page tables, free list links and trap frames live in pages of physical memory, and the
  on-disk structures of the file system in disk blocks; both are read and written through the
  encoding here. Two addresses are apart when neither region reaches into the other.
\<close>

fun le_word :: "u8 list \<Rightarrow> 'a::len word" where
  "le_word [] = 0"
| "le_word (b # bs) = ucast b OR push_bit 8 (le_word bs)"

fun le_bytes :: "nat \<Rightarrow> 'a::len word \<Rightarrow> u8 list" where
  "le_bytes 0 v = []"
| "le_bytes (Suc n) v = ucast v # le_bytes n (drop_bit 8 v)"

lemma length_le_bytes [simp]: "length (le_bytes n v) = n"
  by (induction n arbitrary: v) auto

lemma le_word_le_bytes: "le_word (le_bytes n v) = take_bit (8 * n) v"
proof (induction n arbitrary: v)
  case (Suc n)
  have "ucast (ucast v :: u8) OR push_bit 8 (take_bit (8 * n) (drop_bit 8 v)) =
    take_bit (8 * Suc n) v"
    by (rule bit_word_eqI) (auto simp: bit_simps)
  then show ?case by (simp add: Suc)
qed simp

lemma le_bytes_le_word:
  "8 * length bs \<le> LENGTH('a) \<Longrightarrow> le_bytes (length bs) (le_word bs :: 'a::len word) = bs"
proof (induction bs)
  case (Cons b bs)
  let ?w = "le_word bs :: 'a word"
  have len: "8 * length bs + 8 \<le> LENGTH('a)" using Cons.prems by simp
  have bits: "\<not> bit ?w k" if "8 * length bs \<le> k" for k
  proof -
    have "?w = take_bit (8 * length bs) ?w"
      using le_word_le_bytes [of "length bs" ?w] Cons by simp
    then have "bit ?w k = bit (take_bit (8 * length bs) ?w) k" by simp
    then show ?thesis using that by (simp add: bit_take_bit_iff)
  qed
  have "ucast (ucast b OR push_bit 8 ?w) = b"
    by (rule bit_word_eqI) (use len in \<open>auto simp: bit_simps\<close>)
  moreover have "drop_bit 8 (ucast b OR push_bit 8 ?w) = ?w"
  proof (rule bit_word_eqI)
    fix n assume n: "n < LENGTH('a)"
    have "\<not> bit b (8 + n)" using bit_imp_le_length [of b "8 + n"] by auto
    then show "bit (drop_bit 8 (ucast b OR push_bit 8 ?w)) n = bit ?w n"
      using n bits [of n] len by (cases "8 + n < LENGTH('a)") (auto simp: bit_simps)
  qed
  ultimately show ?case using Cons by simp
qed simp

subsection \<open>Byte ranges\<close>

definition read_bytes :: "memory \<Rightarrow> u64 \<Rightarrow> nat \<Rightarrow> u8 list" where
  "read_bytes m a n = map (\<lambda>i. m (a + of_nat i)) [0..<n]"

definition write_bytes :: "memory \<Rightarrow> u64 \<Rightarrow> u8 list \<Rightarrow> memory" where
  "write_bytes m a bs = (\<lambda>x. if unat (x - a) < length bs then bs ! unat (x - a) else m x)"

definition apart :: "u64 \<Rightarrow> nat \<Rightarrow> u64 \<Rightarrow> nat \<Rightarrow> bool" where
  "apart a m b n \<longleftrightarrow> m \<le> unat (b - a) \<and> n \<le> unat (a - b)"

lemma length_read_bytes [simp]: "length (read_bytes m a n) = n"
  by (simp add: read_bytes_def)

lemma unat_of_nat_64: "i < 2 ^ 64 \<Longrightarrow> unat (of_nat i :: u64) = i"
  by (simp add: unat_of_nat take_bit_nat_eq_self)

lemma read_write_bytes:
  assumes "length bs \<le> 2 ^ 64"
  shows "read_bytes (write_bytes m a bs) a (length bs) = bs"
  using assms by (auto simp: read_bytes_def write_bytes_def unat_of_nat_64 intro!: nth_equalityI)

lemma apart_sym: "apart a m b n = apart b n a m"
  by (auto simp: apart_def)

lemma apart_offset:
  assumes "apart a m b n" and "i < m"
  shows "n \<le> unat (a + of_nat i - b)"
proof (cases "a = b")
  case False
  have i: "i < 2 ^ 64" using assms unat_less_exp [of "b - a"] by (auto simp: apart_def)
  have ba: "unat (b - a) = 2 ^ 64 - unat (a - b)"
    using False unat_uminus [of "a - b"] by simp
  have "unat (a - b) + i < 2 ^ 64"
    using assms ba unat_less_exp [of "a - b"] unfolding apart_def by (simp, linarith)
  then have "unat (a - b + of_nat i) = unat (a - b) + i"
    using i by (subst unat_plus_le) (simp_all add: unat_of_nat_64)
  moreover have eq: "a + of_nat i - b = a - b + of_nat i" by simp
  ultimately show ?thesis using assms unfolding eq apart_def by simp
qed (use assms in \<open>simp add: apart_def\<close>)

lemma read_write_apart:
  "apart a n b (length bs) \<Longrightarrow> read_bytes (write_bytes m b bs) a n = read_bytes m a n"
  by (auto simp: read_bytes_def write_bytes_def dest: apart_offset)

lemma read_bytes_cong:
  "(\<And>i. i < n \<Longrightarrow> m (a + of_nat i) = m' (a + of_nat i)) \<Longrightarrow> read_bytes m a n = read_bytes m' a n"
  by (simp add: read_bytes_def)

subsection \<open>64-bit loads and stores\<close>

definition load64 :: "memory \<Rightarrow> u64 \<Rightarrow> u64" where
  "load64 m a = le_word (read_bytes m a 8)"

definition store64 :: "memory \<Rightarrow> u64 \<Rightarrow> u64 \<Rightarrow> memory" where
  "store64 m a v = write_bytes m a (le_bytes 8 v)"

lemma load64_store64_same [simp]: "load64 (store64 m a v) a = v"
  using read_write_bytes [of "le_bytes 8 v" m a]
  by (simp add: load64_def store64_def le_word_le_bytes take_bit_word_eq_self)

lemma load64_store64_apart: "apart a 8 b 8 \<Longrightarrow> load64 (store64 m b v) a = load64 m a"
  by (simp add: load64_def store64_def read_write_apart)

lemma store64_outside: "8 \<le> unat (x - a) \<Longrightarrow> store64 m a v x = m x"
  by (simp add: store64_def write_bytes_def)

lemma load64_cong:
  "(\<And>i. i < 8 \<Longrightarrow> m (a + of_nat i) = m' (a + of_nat i)) \<Longrightarrow> load64 m a = load64 m' a"
  unfolding load64_def by (rule arg_cong [OF read_bytes_cong])

text \<open>A word at an offset into a range of \<open>n\<close> bytes.\<close>

lemma store64_in:
  assumes "unat off + 8 \<le> n" and "n \<le> unat (x - pa)"
  shows "store64 m (pa + off) v x = m x"
proof -
  have "unat (x - pa - off) = unat (x - pa) - unat off" by (rule unat_minus_le) (use assms in \<open>simp add: word_le_nat_alt\<close>)
  then have "8 \<le> unat (x - pa - off)" using assms by simp
  then show ?thesis by (intro store64_outside) (simp add: diff_diff_eq)
qed

lemma load64_in:
  assumes "unat off + 8 \<le> n" and "n < 2 ^ 63" and "\<And>x. unat (x - pa) < n \<Longrightarrow> m' x = m x"
  shows "load64 m' (pa + off) = load64 m (pa + off)"
proof (rule load64_cong)
  fix i :: nat assume i: "i < 8"
  have "unat off + i < 2 ^ 64" using i assms(1,2) by simp
  then have "unat (off + of_nat i) = unat off + i" using i by (subst unat_plus_le) (simp_all add: unat_of_nat_64)
  then have "unat (pa + off + of_nat i - pa) < n" using assms(1) i by simp
  then show "m' (pa + off + of_nat i) = m (pa + off + of_nat i)" by (rule assms(3))
qed

subsection \<open>Pages\<close>

definition page_aligned :: "u64 \<Rightarrow> bool" where
  "page_aligned a \<longleftrightarrow> unat a mod 4096 = 0"

text \<open>The bytes of the page at \<open>p\<close>.\<close>

definition in_page :: "u64 \<Rightarrow> u64 \<Rightarrow> bool" where
  "in_page p x \<longleftrightarrow> unat (x - p) < 4096"

lemma in_page_iff_div:
  assumes "page_aligned p"
  shows "in_page p x \<longleftrightarrow> unat x div 4096 = unat p div 4096"
proof (cases "p \<le> x")
  case True
  obtain q where q: "unat p = 4096 * q"
    using assms by (metis page_aligned_def mod_0_imp_dvd dvdE)
  have "unat (x - p) = unat x - unat p" and "unat p \<le> unat x"
    using True by (simp_all add: unat_minus_le word_le_nat_alt)
  then show ?thesis unfolding in_page_def q by auto
next
  case False
  obtain q where q: "unat p = 4096 * q"
    using assms by (metis page_aligned_def mod_0_imp_dvd dvdE)
  have lt: "unat x < unat p" using False by (simp add: word_le_nat_alt)
  have "p - x \<noteq> 0" using False by auto
  moreover have "unat (p - x) = unat p - unat x" using False by (simp add: unat_minus_le)
  ultimately have "unat (x - p) = 2 ^ 64 - (unat p - unat x)"
    using unat_uminus [of "p - x"] by simp
  moreover have "unat p + 4096 \<le> 2 ^ 64"
    using unat_less_exp [of p] q by simp
  ultimately have "\<not> in_page p x" by (simp add: in_page_def)
  moreover have "unat x div 4096 < unat p div 4096" unfolding q using lt q by auto
  ultimately show ?thesis by simp
qed

lemma in_page_self [simp]: "in_page p p"
  by (simp add: in_page_def)

lemma in_page_unique:
  assumes "page_aligned p" and "page_aligned q" and "in_page p x" and "in_page q x"
  shows "p = q"
proof -
  have "unat p div 4096 = unat q div 4096" using assms by (metis in_page_iff_div)
  moreover have "4096 dvd unat p" "4096 dvd unat q" using assms by (auto simp: page_aligned_def)
  ultimately have "unat p = unat q" by (metis dvd_div_mult_self)
  then show ?thesis by (rule unat_eqI)
qed

lemma in_page_offset: "i < 4096 \<Longrightarrow> in_page p (p + of_nat i)"
  by (simp add: in_page_def unat_of_nat_64)

lemma store64_other_page:
  assumes "page_aligned p" and "\<not> in_page p x"
  shows "store64 m p v x = m x"
  using assms by (simp add: store64_outside in_page_def)

end
