(* ===== verification/Kalloc.thy ===== *)
theory Kalloc
  imports Proc Memory
begin

section \<open>The physical page allocator\<close>

text \<open>
  \<^verbatim>\<open>kernel/kalloc.c\<close> and the constants of \<^verbatim>\<open>kernel/memlayout.h\<close>. The free list is threaded through
  the free pages themselves: the first eight bytes of a free page hold the address of the next.
  \<open>kend\<close> is the linker's symbol \<^verbatim>\<open>end\<close>, a constant of the running kernel.

  The locale \<open>page_allocator\<close> is what the rest of the kernel relies on; the invariant \<open>kmem_ok\<close>
  and the set of free pages interpret it.
\<close>

subsection \<open>Memory layout\<close>

definition UART0 :: u64 where "UART0 = 0x10000000"
definition VIRTIO0 :: u64 where "VIRTIO0 = 0x10001000"
definition CLINT :: u64 where "CLINT = 0x2000000"
definition CLINT_MTIMECMP :: "u64 \<Rightarrow> u64" where "CLINT_MTIMECMP h = CLINT + 0x4000 + 8 * h"
definition CLINT_MTIME :: u64 where "CLINT_MTIME = CLINT + 0xBFF8"
definition PLIC :: u64 where "PLIC = 0x0c000000"
definition KERNBASE :: u64 where "KERNBASE = 0x80000000"
definition PHYSTOP :: u64 where "PHYSTOP = KERNBASE + 128 * 1024 * 1024"
definition TRAMPOLINE :: u64 where "TRAMPOLINE = MAXVA - PGSIZE"
definition KSTACK :: "u64 \<Rightarrow> u64" where "KSTACK p = TRAMPOLINE - (p + 1) * 2 * PGSIZE"
definition TRAPFRAME :: u64 where "TRAPFRAME = TRAMPOLINE - PGSIZE"

subsection \<open>State and operations\<close>

record kmem = ksync +
  mem :: memory
  kend :: u64
  freelist :: u64

definition kfree :: "u64 \<Rightarrow> 'z kmem_scheme \<Rightarrow> ('z kmem_scheme, 'z kmem_scheme) res" where
  "kfree pa s =
     (if pa mod PGSIZE \<noteq> 0 \<or> pa < kend s \<or> pa \<ge> PHYSTOP then Inl (Panic ''kfree'')
      else
        (let s = s\<lparr>mem := memset (mem s) pa 1 (ucast PGSIZE)\<rparr> in
         andthen (acquire_lk KmemLock s) (\<lambda>s.
         let s = s\<lparr>mem := store64 (mem s) pa (freelist s)\<rparr>;
             s = s\<lparr>freelist := pa\<rparr>
         in release_lk KmemLock s)))"

definition kalloc :: "'z kmem_scheme \<Rightarrow> ('z kmem_scheme, u64 \<times> 'z kmem_scheme) res" where
  "kalloc s =
     andthen (acquire_lk KmemLock s) (\<lambda>s.
     let r = freelist s;
         s = (if r \<noteq> 0 then s\<lparr>freelist := load64 (mem s) r\<rparr> else s)
     in andthen (release_lk KmemLock s) (\<lambda>s.
     Inr (r, if r \<noteq> 0 then s\<lparr>mem := memset (mem s) r 5 (ucast PGSIZE)\<rparr> else s)))"

lemma PHYSTOP_val: "unat PHYSTOP = 0x88000000"
  by (simp add: PHYSTOP_def KERNBASE_def)

lemma kfree_below: "kfree pa s = Inr s' \<Longrightarrow> unat pa < 0x88000000"
  by (auto simp: kfree_def word_le_nat_alt PHYSTOP_val split: if_splits)

text \<open>The loop of \<^verbatim>\<open>freerange\<close>; it ends because \<^verbatim>\<open>kfree\<close> panics past the end of memory.\<close>

function freerange_loop ::
    "u64 \<Rightarrow> u64 \<Rightarrow> 'z kmem_scheme \<Rightarrow> ('z kmem_scheme, 'z kmem_scheme) res" where
  "freerange_loop p pa_end s =
     (if p + PGSIZE \<le> pa_end
      then andthen (kfree p s) (freerange_loop (p + PGSIZE) pa_end)
      else Inr s)"
  by pat_completeness auto
termination
proof (relation "measure (\<lambda>(p, _, _). 0x88000000 - unat p)", simp)
  fix p pa_end :: u64 and s x :: "'z kmem_scheme"
  assume "kfree p s = Inr x"
  then have "unat p < 0x88000000" by (rule kfree_below)
  moreover from this have "unat (p + PGSIZE) = unat p + 4096"
    by (subst unat_plus_le) (simp_all add: PGSIZE_def)
  ultimately show "((p + PGSIZE, pa_end, x), (p, pa_end, s)) \<in> measure (\<lambda>(p, _, _). 0x88000000 - unat p)"
    by simp
qed

definition freerange ::
    "u64 \<Rightarrow> u64 \<Rightarrow> 'z kmem_scheme \<Rightarrow> ('z kmem_scheme, 'z kmem_scheme) res" where
  "freerange pa_start pa_end s = freerange_loop (PGROUNDUP pa_start) pa_end s"

definition kinit :: "'z kmem_scheme \<Rightarrow> ('z kmem_scheme, 'z kmem_scheme) res" where
  "kinit s = freerange (kend s) PHYSTOP s"

declare freerange_loop.simps [simp del]

subsection \<open>The free list\<close>

fun chain :: "memory \<Rightarrow> u64 \<Rightarrow> u64 list \<Rightarrow> bool" where
  "chain m a [] \<longleftrightarrow> a = 0"
| "chain m a (p # ps) \<longleftrightarrow> a = p \<and> p \<noteq> 0 \<and> chain m (load64 m p) ps"

definition valid_page :: "'z kmem_scheme \<Rightarrow> u64 \<Rightarrow> bool" where
  "valid_page s p \<longleftrightarrow> page_aligned p \<and> kend s \<le> p \<and> p < PHYSTOP"

definition kmem_ok :: "'z kmem_scheme \<Rightarrow> u64 list \<Rightarrow> bool" where
  "kmem_ok s ps \<longleftrightarrow> KERNBASE \<le> kend s \<and> chain (mem s) (freelist s) ps \<and> distinct ps \<and>
     (\<forall>p \<in> set ps. valid_page s p)"

lemma mod_PGSIZE [simp]: "p mod PGSIZE = 0 \<longleftrightarrow> page_aligned p"
  by (simp add: page_aligned_def PGSIZE_def unat_mod_distrib unat_eq_0 [symmetric])

lemma chain_unique: "chain m a ps \<Longrightarrow> chain m a qs \<Longrightarrow> ps = qs"
proof (induction m a ps arbitrary: qs rule: chain.induct)
  case (1 m a)
  then show ?case by (cases qs) auto
next
  case (2 m a p ps)
  then show ?case by (cases qs) auto
qed

lemma load64_page_cong:
  assumes "\<And>x. in_page p x \<Longrightarrow> m' x = m x"
  shows "load64 m' p = load64 m p"
  by (rule load64_cong) (use assms in_page_offset in auto)

lemma chain_cong:
  assumes "\<And>p x. p \<in> set ps \<Longrightarrow> in_page p x \<Longrightarrow> m' x = m x"
  shows "chain m' a ps = chain m a ps"
  using assms
proof (induction ps arbitrary: a)
  case (Cons p ps)
  have "load64 m' p = load64 m p" by (rule load64_page_cong) (use Cons.prems in auto)
  then show ?case using Cons by auto
qed simp

lemma kmem_ok_mem:
  assumes "\<And>p x. p \<in> set ps \<Longrightarrow> in_page p x \<Longrightarrow> m' x = mem s x"
  shows "kmem_ok (s\<lparr>mem := m'\<rparr>) ps = kmem_ok s ps"
  using chain_cong [OF assms] by (simp add: kmem_ok_def valid_page_def)

lemma page_nonzero: "KERNBASE \<le> kend s \<Longrightarrow> valid_page s p \<Longrightarrow> p \<noteq> 0"
  by (auto simp: valid_page_def KERNBASE_def)

text \<open>Filling a page changes that page only.\<close>

lemma memset_page: "memset m p c (ucast PGSIZE) = (\<lambda>x. if in_page p x then c else m x)"
  by (simp add: memset_eq in_page_def PGSIZE_def)

lemma other_page:
  "page_aligned p \<Longrightarrow> page_aligned q \<Longrightarrow> p \<noteq> q \<Longrightarrow> in_page q x \<Longrightarrow> \<not> in_page p x"
  using in_page_unique by blast

lemma kalloc_empty [kernel_simps]:
  "kmem_ok s [] \<Longrightarrow> KmemLock \<notin> held s \<Longrightarrow> kalloc s = Inr (0, s)"
  by (simp add: kalloc_def kernel_simps kmem_ok_def)

lemma kalloc_page:
  assumes ok: "kmem_ok s (p # ps)" and "KmemLock \<notin> held s"
  defines "s' \<equiv> s\<lparr>freelist := load64 (mem s) p,
    mem := \<lambda>x. if in_page p x then 5 else mem s x\<rparr>"
  shows "kalloc s = Inr (p, s')" and "kmem_ok s' ps"
proof -
  have fl: "freelist s = p" "p \<noteq> 0" using ok by (simp_all add: kmem_ok_def)
  show "kalloc s = Inr (p, s')"
    using assms(2) fl by (simp add: kalloc_def kernel_simps memset_page s'_def Let_def cong: if_cong)
  have al: "page_aligned q" if "q \<in> set (p # ps)" for q
    using ok that by (auto simp: kmem_ok_def valid_page_def)
  have "chain (mem s) (load64 (mem s) p) ps" using ok by (simp add: kmem_ok_def)
  moreover have "chain (mem s') a ps = chain (mem s) a ps" for a
  proof (rule chain_cong)
    fix q x assume q: "q \<in> set ps" "in_page q x"
    then have "p \<noteq> q" using ok by (auto simp: kmem_ok_def)
    then have "\<not> in_page p x" using other_page [OF al al] q by auto
    then show "mem s' x = mem s x" by (simp add: s'_def)
  qed
  ultimately show "kmem_ok s' ps"
    using ok by (simp add: kmem_ok_def s'_def valid_page_def)
qed

lemma kfree_page:
  assumes ok: "kmem_ok s ps" and v: "valid_page s p" and new: "p \<notin> set ps"
    and "KmemLock \<notin> held s"
  defines "s' \<equiv> s\<lparr>mem := store64 (\<lambda>x. if in_page p x then 1 else mem s x) p (freelist s),
    freelist := p\<rparr>"
  shows "kfree p s = Inr s'" and "kmem_ok s' (p # ps)"
    and "\<not> in_page p x \<Longrightarrow> mem s' x = mem s x"
proof -
  show "kfree p s = Inr s'"
    using assms(4) v by (auto simp: kfree_def valid_page_def kernel_simps memset_page s'_def Let_def)
  have al: "page_aligned q" if "q \<in> set (p # ps)" for q
    using ok v that by (auto simp: kmem_ok_def valid_page_def)
  show frame: "mem s' x = mem s x" if "\<not> in_page p x" for x
    using that al by (simp add: s'_def store64_other_page)
  have "chain (mem s') (freelist s) ps"
  proof (rule chain_cong [THEN iffD2])
    fix q x assume q: "q \<in> set ps" "in_page q x"
    then have "\<not> in_page p x" using other_page [OF al al] q new by auto
    then show "mem s' x = mem s x" by (rule frame)
  qed (use ok in \<open>simp add: kmem_ok_def\<close>)
  then have "chain (mem s') p (p # ps)"
    using page_nonzero [OF _ v] ok by (simp add: s'_def kmem_ok_def)
  then show "kmem_ok s' (p # ps)"
    using ok v new by (simp add: kmem_ok_def s'_def valid_page_def)
qed

lemma kfree_panics:
  "\<not> valid_page s p \<Longrightarrow> kfree p s = Inl (Panic ''kfree'')"
  by (auto simp: kfree_def valid_page_def not_le)

subsection \<open>What the kernel relies on\<close>

text \<open>
  A page allocator keeps a list of free pages: it hands out the first, reports exhaustion with a
  null pointer, and takes back any page of its range that is not free already.
\<close>

fun allocs :: "('s \<Rightarrow> ('s, u64 \<times> 's) res) \<Rightarrow> nat \<Rightarrow> 's \<Rightarrow> ('s, u64 list \<times> 's) res" where
  "allocs f 0 s = Inr ([], s)"
| "allocs f (Suc n) s = andthen (f s) (\<lambda>(p, s). andthen (allocs f n s) (\<lambda>(ps, s). Inr (p # ps, s)))"

locale page_allocator =
  fixes alloc :: "'s \<Rightarrow> ('s, u64 \<times> 's) res" and free :: "u64 \<Rightarrow> 's \<Rightarrow> ('s, 's) res"
    and inv :: "'s \<Rightarrow> u64 list \<Rightarrow> bool" and range :: "'s \<Rightarrow> u64 \<Rightarrow> bool"
  assumes alloc_page: "inv s (p # ps) \<Longrightarrow>
      \<exists>t. alloc s = Inr (p, t) \<and> inv t ps \<and> range t = range s"
    and alloc_none: "inv s [] \<Longrightarrow> alloc s = Inr (0, s)"
    and free_page: "inv s ps \<Longrightarrow> range s p \<Longrightarrow> p \<notin> set ps \<Longrightarrow>
      \<exists>t. free p s = Inr t \<and> inv t (p # ps) \<and> range t = range s"
    and free_bad: "\<not> range s p \<Longrightarrow> \<exists>msg. free p s = Inl (Panic msg)"
    and inv_pages: "inv s ps \<Longrightarrow> distinct ps \<and> (\<forall>p \<in> set ps. range s p \<and> p \<noteq> 0)"
begin

lemma allocs_prefix:
  "inv s (ps @ qs) \<Longrightarrow> \<exists>t. allocs alloc (length ps) s = Inr (ps, t) \<and> inv t qs"
proof (induction ps arbitrary: s)
  case (Cons p ps)
  then obtain t where "alloc s = Inr (p, t)" "inv t (ps @ qs)" using alloc_page by fastforce
  with Cons.IH [of t] show ?case by auto
qed auto

text \<open>Successive allocations give distinct non-null pages until the pages run out.\<close>

lemma allocs_distinct:
  assumes "inv s ps" and "n \<le> length ps"
  shows "\<exists>qs t. allocs alloc n s = Inr (qs, t) \<and> length qs = n \<and> distinct qs \<and> 0 \<notin> set qs"
proof -
  have eq: "take n ps @ drop n ps = ps" and len: "length (take n ps) = n" using assms(2) by auto
  then obtain t where "allocs alloc n s = Inr (take n ps, t)"
    using allocs_prefix [of s "take n ps" "drop n ps"] assms(1) by auto
  moreover have "distinct (take n ps)" "0 \<notin> set (take n ps)"
    using inv_pages [OF assms(1)] by (auto dest: in_set_takeD)
  ultimately show ?thesis using len by blast
qed

text \<open>A page that is allocated and freed can be allocated again, and no other page moved.\<close>

lemma alloc_free:
  assumes "inv s (p # ps)"
  shows "\<exists>t. andthen (alloc s) (\<lambda>(p, s). free p s) = Inr t \<and> inv t (p # ps)"
proof -
  obtain t where t: "alloc s = Inr (p, t)" "inv t ps" "range t = range s"
    using alloc_page [OF assms] by blast
  have "range t p" and "p \<notin> set ps" using inv_pages [OF assms] t(3) by auto
  then show ?thesis using free_page [OF t(2)] t(1) by auto
qed

end

definition kmem_inv :: "'z kmem_scheme \<Rightarrow> u64 list \<Rightarrow> bool" where
  "kmem_inv s ps \<longleftrightarrow> kmem_ok s ps \<and> KmemLock \<notin> held s"

interpretation kmem_pages: page_allocator kalloc kfree kmem_inv valid_page
proof (unfold_locales, goal_cases)
  case (1 s p ps)
  then have ok: "kmem_ok s (p # ps)" and nh: "KmemLock \<notin> held s" by (simp_all add: kmem_inv_def)
  from kalloc_page [OF ok nh] nh show ?case by (auto simp: kmem_inv_def valid_page_def fun_eq_iff)
next
  case (2 s)
  then show ?case by (simp add: kmem_inv_def kalloc_empty)
next
  case (3 s ps p)
  then have ok: "kmem_ok s ps" and nh: "KmemLock \<notin> held s" by (simp_all add: kmem_inv_def)
  from kfree_page(1,2) [OF ok 3(2,3) nh] nh show ?case
    by (auto simp: kmem_inv_def valid_page_def fun_eq_iff)
next
  case (4 s p)
  then show ?case using kfree_panics by blast
next
  case (5 s ps)
  then show ?case using page_nonzero by (auto simp: kmem_inv_def kmem_ok_def)
qed

subsection \<open>Initialisation\<close>

lemma aligned_gap:
  assumes "page_aligned p" and "page_aligned q" and "p < q" and "unat (p + PGSIZE) = unat p + 4096"
  shows "p + PGSIZE \<le> q"
proof -
  obtain a b where "unat p = 4096 * a" "unat q = 4096 * b"
    using assms(1,2) by (auto simp: page_aligned_def elim!: dvdE simp flip: dvd_eq_mod_eq_0)
  then show ?thesis using assms(3,4) by (simp add: word_less_nat_alt word_le_nat_alt)
qed

lemma freerange_loop_frees:
  assumes "page_aligned p" and "kend s \<le> p" and "p \<le> PHYSTOP"
    and "kmem_ok s ps" and "KmemLock \<notin> held s" and "\<forall>q \<in> set ps. q < p"
  shows "\<exists>t qs. freerange_loop p PHYSTOP s = Inr t \<and> kmem_ok t qs \<and> held t = held s \<and>
    kend t = kend s \<and> set qs = set ps \<union> {q. page_aligned q \<and> p \<le> q \<and> q < PHYSTOP}"
  using assms
proof (induction "0x88000000 - unat p" arbitrary: p s ps rule: less_induct)
  case less
  note prems = less.prems
  have p_le: "unat p \<le> 0x88000000" using prems(3) by (simp add: word_le_nat_alt PHYSTOP_val)
  have next_p: "unat (p + PGSIZE) = unat p + 4096"
    by (subst unat_plus_le) (use p_le in \<open>simp_all add: PGSIZE_def\<close>)
  show ?case
  proof (cases "p = PHYSTOP")
    case True
    then have "\<not> p + PGSIZE \<le> PHYSTOP" using next_p by (simp add: word_le_nat_alt)
    moreover have "{q. page_aligned q \<and> p \<le> q \<and> q < PHYSTOP} = {}" using True by auto
    ultimately show ?thesis using prems by (subst freerange_loop.simps) auto
  next
    case False
    then have lt: "p < PHYSTOP" using prems(3) by auto
    have dvd: "4096 dvd unat p" using prems(1) by (auto simp: page_aligned_def)
    have lt_n: "unat p < 0x88000000" using lt by (simp add: word_less_nat_alt PHYSTOP_val)
    then have le_n: "unat p + 4096 \<le> 0x88000000" using dvd by (auto elim!: dvdE)
    have v: "valid_page s p" using prems lt by (simp add: valid_page_def)
    have new: "p \<notin> set ps" using prems(6) by auto
    note k = kfree_page [OF prems(4) v new prems(5)]
    let ?s = "s\<lparr>mem := store64 (\<lambda>x. if in_page p x then 1 else mem s x) p (freelist s),
      freelist := p\<rparr>"
    have al: "page_aligned (p + PGSIZE)" using prems(1) next_p by (simp add: page_aligned_def)
    have p_lt: "p < p + PGSIZE" using next_p by (simp add: word_less_nat_alt)
    have IH: "\<exists>t qs. freerange_loop (p + PGSIZE) PHYSTOP ?s = Inr t \<and> kmem_ok t qs \<and>
      held t = held ?s \<and> kend t = kend ?s \<and>
      set qs = set (p # ps) \<union> {q. page_aligned q \<and> p + PGSIZE \<le> q \<and> q < PHYSTOP}"
    proof (rule less.hyps [OF _ al _ _ k(2)])
      show "0x88000000 - unat (p + PGSIZE) < 0x88000000 - unat p" using next_p lt_n by simp
      show "kend ?s \<le> p + PGSIZE" using prems(2) p_lt by simp
      show "p + PGSIZE \<le> PHYSTOP" using next_p le_n by (simp add: word_le_nat_alt PHYSTOP_val)
      show "KmemLock \<notin> held ?s" using prems(5) by simp
      show "\<forall>q \<in> set (p # ps). q < p + PGSIZE" using prems(6) p_lt by auto
    qed
    have split: "{q. page_aligned q \<and> p \<le> q \<and> q < PHYSTOP} =
      insert p {q. page_aligned q \<and> p + PGSIZE \<le> q \<and> q < PHYSTOP}"
      using aligned_gap [OF prems(1) _ _ next_p] prems(1) lt p_lt by fastforce
    have "p + PGSIZE \<le> PHYSTOP" using next_p le_n by (simp add: word_le_nat_alt PHYSTOP_val)
    then show ?thesis
      unfolding split using IH k(1) by (subst freerange_loop.simps) auto
  qed
qed

lemma PGROUNDUP_least:
  assumes "unat a \<le> 0x88000000"
  shows "page_aligned (PGROUNDUP a)" and "a \<le> PGROUNDUP a"
    and "page_aligned q \<Longrightarrow> a \<le> q \<Longrightarrow> PGROUNDUP a \<le> q"
proof -
  have eq: "unat (PGROUNDUP a) = (unat a + 4095) div 4096 * 4096"
    using assms by (simp add: unat_PGROUNDUP)
  then show "page_aligned (PGROUNDUP a)" by (simp add: page_aligned_def)
  show "a \<le> PGROUNDUP a" unfolding word_le_nat_alt eq by linarith
  show "PGROUNDUP a \<le> q" if q: "page_aligned q" "a \<le> q"
  proof -
    obtain b where b: "unat q = 4096 * b"
      using q(1) by (metis page_aligned_def mod_0_imp_dvd dvdE)
    have "unat a \<le> 4096 * b" using q(2) b by (simp add: word_le_nat_alt)
    then have "(unat a + 4095) div 4096 \<le> b" by linarith
    then show ?thesis unfolding word_le_nat_alt eq b by simp
  qed
qed

subsection \<open>Properties\<close>

text \<open>
  C19. \<^verbatim>\<open>kinit()\<close> returns with every whole page between the end of the kernel and the top of
  memory on the free list, each exactly once, and no other page.
\<close>

theorem kinit_frees_every_page:
  assumes "KERNBASE \<le> kend s" and "kend s \<le> PHYSTOP" and "freelist s = 0" and "KmemLock \<notin> held s"
  shows "\<exists>t ps. kinit s = Inr t \<and> kmem_ok t ps \<and> distinct ps \<and> set ps = {p. valid_page s p} \<and>
    held t = held s"
proof -
  have a: "unat (kend s) \<le> 0x88000000" using assms(2) by (simp add: word_le_nat_alt PHYSTOP_val)
  note r = PGROUNDUP_least [OF a]
  have al: "page_aligned PHYSTOP" by (simp add: page_aligned_def PHYSTOP_val)
  have "kmem_ok s []" using assms by (simp add: kmem_ok_def)
  from freerange_loop_frees [OF r(1,2) r(3) [OF al assms(2)] this assms(4)]
  obtain t ps where t: "freerange_loop (PGROUNDUP (kend s)) PHYSTOP s = Inr t" "kmem_ok t ps"
    "held t = held s" "set ps = {q. page_aligned q \<and> PGROUNDUP (kend s) \<le> q \<and> q < PHYSTOP}"
    by auto
  moreover have "set ps = {p. valid_page s p}"
    unfolding t(4) valid_page_def using r(2) r(3) by (auto intro: order_trans)
  ultimately show ?thesis
    unfolding kinit_def freerange_def by (auto simp: kmem_ok_def)
qed

definition kmem_ex :: "u64 \<Rightarrow> kmem" where
  "kmem_ex e = \<lparr>held = {}, curproc = None, procs = procs (ksync_ex UNUSED), nextpid = 1,
     initproc = None, ticks = 0, mem = (\<lambda>_. 0), kend = e, freelist = 0\<rparr>"

theorem kinit_frees_every_page_witness:
  "\<exists>t ps. kinit (kmem_ex 0x80021000) = Inr t \<and> distinct ps \<and> (0x80021000 :: u64) \<in> set ps"
proof -
  have "KERNBASE \<le> kend (kmem_ex 0x80021000)" "kend (kmem_ex 0x80021000) \<le> PHYSTOP"
    "freelist (kmem_ex 0x80021000) = 0" "KmemLock \<notin> held (kmem_ex 0x80021000)"
    by (simp_all add: kmem_ex_def KERNBASE_def PHYSTOP_def)
  from kinit_frees_every_page [OF this] show ?thesis
    by (auto simp: valid_page_def page_aligned_def kmem_ex_def PHYSTOP_def KERNBASE_def)
qed

text \<open>
  C21. \<^verbatim>\<open>kalloc\<close> and \<^verbatim>\<open>kfree\<close> implement a stack of free pages. With pages left, \<^verbatim>\<open>kalloc\<close> hands out
  the first and changes no byte outside it; with none it returns a null pointer and changes
  nothing. \<^verbatim>\<open>kfree\<close> puts a page that is not free back, changing no byte outside it, and panics on
  an address that is misaligned or outside the allocator's range.
\<close>

theorem kalloc_kfree_refine:
  assumes "kmem_ok s ps" and "KmemLock \<notin> held s"
  shows "(case ps of
      [] \<Rightarrow> kalloc s = Inr (0, s)
    | p # qs \<Rightarrow> \<exists>t. kalloc s = Inr (p, t) \<and> p \<noteq> 0 \<and> valid_page s p \<and> kmem_ok t qs \<and>
        p \<notin> set qs \<and> held t = held s \<and> (\<forall>x. mem t x = (if in_page p x then 5 else mem s x))) \<and>
    (\<forall>p. valid_page s p \<longrightarrow> p \<notin> set ps \<longrightarrow>
      (\<exists>t. kfree p s = Inr t \<and> kmem_ok t (p # ps) \<and> held t = held s \<and>
        (\<forall>x. \<not> in_page p x \<longrightarrow> mem t x = mem s x))) \<and>
    (\<forall>p. \<not> valid_page s p \<longrightarrow> kfree p s = Inl (Panic ''kfree''))"
proof (intro conjI)
  show "case ps of [] \<Rightarrow> kalloc s = Inr (0, s)
    | p # qs \<Rightarrow> \<exists>t. kalloc s = Inr (p, t) \<and> p \<noteq> 0 \<and> valid_page s p \<and> kmem_ok t qs \<and>
        p \<notin> set qs \<and> held t = held s \<and> (\<forall>x. mem t x = (if in_page p x then 5 else mem s x))"
  proof (cases ps)
    case (Cons p qs)
    note k = kalloc_page [OF assms(1) [unfolded Cons] assms(2)]
    have "p \<noteq> 0" "valid_page s p" "p \<notin> set qs" using assms(1) Cons by (auto simp: kmem_ok_def)
    with k Cons show ?thesis by auto
  qed (use assms in \<open>simp add: kalloc_empty\<close>)
  show "\<forall>p. valid_page s p \<longrightarrow> p \<notin> set ps \<longrightarrow>
      (\<exists>t. kfree p s = Inr t \<and> kmem_ok t (p # ps) \<and> held t = held s \<and>
        (\<forall>x. \<not> in_page p x \<longrightarrow> mem t x = mem s x))"
    using kfree_page [OF assms(1) _ _ assms(2)] by auto
qed (auto simp: kfree_panics)

theorem kalloc_kfree_refine_witness:
  "kalloc (kmem_ex 0x80021000) = Inr (0, kmem_ex 0x80021000) \<and>
   (\<exists>t. kfree 0x80022000 (kmem_ex 0x80021000) = Inr t \<and> kmem_ok t [0x80022000])"
proof -
  have "kmem_ok (kmem_ex 0x80021000) []" "KmemLock \<notin> held (kmem_ex 0x80021000)"
    by (simp_all add: kmem_ok_def kmem_ex_def KERNBASE_def)
  note r = kalloc_kfree_refine [OF this]
  have "valid_page (kmem_ex 0x80021000) 0x80022000"
    by (simp add: valid_page_def page_aligned_def kmem_ex_def PHYSTOP_def KERNBASE_def)
  with r show ?thesis by fastforce
qed

text \<open>
  Successive calls of \<^verbatim>\<open>kalloc\<close> return distinct, non-null pages as long as pages are left.
\<close>

theorem kalloc_distinct:
  assumes "kmem_inv s ps" and "n \<le> length ps"
  shows "\<exists>qs t. allocs kalloc n s = Inr (qs, t) \<and> length qs = n \<and> distinct qs \<and> 0 \<notin> set qs"
  using assms by (rule kmem_pages.allocs_distinct)

theorem kalloc_distinct_witness:
  "\<exists>p s t. kfree 0x80022000 (kmem_ex 0x80021000) = Inr s \<and> allocs kalloc 1 s = Inr ([p], t) \<and> p \<noteq> 0"
proof -
  let ?s = "kmem_ex 0x80021000"
  have ok: "kmem_ok ?s []" and nh: "KmemLock \<notin> held ?s"
    by (simp_all add: kmem_ok_def kmem_ex_def KERNBASE_def)
  have v: "valid_page ?s 0x80022000"
    by (simp add: valid_page_def page_aligned_def kmem_ex_def PHYSTOP_def KERNBASE_def)
  obtain s where s: "kfree 0x80022000 ?s = Inr s" "kmem_inv s [0x80022000]"
    using kmem_pages.free_page [of ?s "[]", OF _ v] ok nh by (auto simp: kmem_inv_def)
  have "1 \<le> length [0x80022000 :: u64]" by simp
  from kalloc_distinct [OF s(2) this] obtain qs t where
    q: "allocs kalloc 1 s = Inr (qs, t)" "length qs = 1" "0 \<notin> set qs" by blast
  from q(2) obtain p where "qs = [p]" by (cases qs) auto
  with q s(1) show ?thesis by force
qed

end
