(* ===== verification/Vm.thy ===== *)
theory Vm
  imports Kalloc
begin

section \<open>Virtual memory\<close>

text \<open>
  \<^verbatim>\<open>kernel/vm.c\<close> and \<^verbatim>\<open>proc_mapstacks\<close>. Page tables live in pages of physical memory, which the
  kernel maps at their physical addresses, so a page-table pointer is an address and a PTE is read
  with \<open>load64\<close>. A null pointer is 0; a call that would write through one ends in \<open>Fault\<close>.

  The kernel side of \<^verbatim>\<open>copyin\<close> and \<^verbatim>\<open>copyout\<close> is a buffer outside the page allocator's memory, so
  it is a list of bytes: \<^verbatim>\<open>copyout\<close> takes it and \<^verbatim>\<open>copyin\<close> returns what it has copied, also when it
  fails half-way. \<open>ketext\<close> and \<open>ktrampoline\<close> are linker symbols.
\<close>

record kvm = kmem +
  khart :: hart
  kernel_pagetable :: u64
  ketext :: u64
  ktrampoline :: u64

definition set_mem :: "memory \<Rightarrow> 'z kvm_scheme \<Rightarrow> 'z kvm_scheme" where
  "set_mem m s = s\<lparr>mem := m\<rparr>"

definition pte_addr :: "u64 \<Rightarrow> nat \<Rightarrow> u64 \<Rightarrow> u64" where
  "pte_addr pagetable level va = pagetable + 8 * PX level va"

subsection \<open>Walking a page table\<close>

text \<open>The loop of \<^verbatim>\<open>walk\<close> from \<open>level\<close> down to 1; the result is the address of the level-0 PTE.\<close>

fun walk_loop ::
    "nat \<Rightarrow> u64 \<Rightarrow> u64 \<Rightarrow> bool \<Rightarrow> 'z kvm_scheme \<Rightarrow> ('z kvm_scheme, u64 \<times> 'z kvm_scheme) res" where
  "walk_loop 0 pagetable va alloc s = Inr (pte_addr pagetable 0 va, s)"
| "walk_loop (Suc l) pagetable va alloc s =
     (let pte = pte_addr pagetable (Suc l) va in
      if load64 (mem s) pte AND PTE_V \<noteq> 0
      then walk_loop l (PTE2PA (load64 (mem s) pte)) va alloc s
      else if \<not> alloc then Inr (0, s)
      else
        andthen (kalloc s) (\<lambda>(page, s).
        if page = 0 then Inr (0, s)
        else
          (let s = set_mem (memset (mem s) page 0 (ucast PGSIZE)) s;
               s = set_mem (store64 (mem s) pte (PA2PTE page OR PTE_V)) s
           in walk_loop l page va alloc s)))"

definition walk ::
    "u64 \<Rightarrow> u64 \<Rightarrow> bool \<Rightarrow> 'z kvm_scheme \<Rightarrow> ('z kvm_scheme, u64 \<times> 'z kvm_scheme) res" where
  "walk pagetable va alloc s =
     (if va \<ge> MAXVA then Inl (Panic ''walk'') else walk_loop 2 pagetable va alloc s)"

definition walkaddr :: "u64 \<Rightarrow> u64 \<Rightarrow> 'z kvm_scheme \<Rightarrow> ('z kvm_scheme, u64) res" where
  "walkaddr pagetable va s =
     (if va \<ge> MAXVA then Inr 0
      else
        andthen (walk pagetable va False s) (\<lambda>(pte, s).
        if pte = 0 then Inr 0
        else if load64 (mem s) pte AND PTE_V = 0 then Inr 0
        else if load64 (mem s) pte AND PTE_U = 0 then Inr 0
        else Inr (PTE2PA (load64 (mem s) pte))))"

subsection \<open>Mapping and unmapping\<close>

lemma walk_below: "walk pt va a s = Inr x \<Longrightarrow> va < MAXVA"
  by (auto simp: walk_def not_le split: if_splits)

lemma MAXVA_val: "unat MAXVA = 2 ^ 38"
  by (simp add: MAXVA_def push_bit_eq_mult)

lemma next_page_measure: "va < MAXVA \<Longrightarrow> 2 ^ 38 - unat (va + PGSIZE) < 2 ^ 38 - unat va"
proof -
  assume "va < MAXVA"
  then have "unat va < 2 ^ 38" by (simp add: word_less_nat_alt MAXVA_val)
  moreover from this have "unat (va + PGSIZE) = unat va + 4096"
    by (subst unat_plus_le) (simp_all add: PGSIZE_def)
  ultimately show ?thesis by simp
qed

text \<open>The loop of \<^verbatim>\<open>mappages\<close>; it ends because \<^verbatim>\<open>walk\<close> panics at \<^verbatim>\<open>MAXVA\<close>.\<close>

function mappages_loop ::
    "u64 \<Rightarrow> u64 \<Rightarrow> u64 \<Rightarrow> u64 \<Rightarrow> u64 \<Rightarrow> 'z kvm_scheme \<Rightarrow> ('z kvm_scheme, int \<times> 'z kvm_scheme) res" where
  "mappages_loop pagetable a alast pa perm s =
     andthen (walk pagetable a True s) (\<lambda>(pte, s).
     if pte = 0 then Inr (-1, s)
     else if load64 (mem s) pte AND PTE_V \<noteq> 0 then Inl (Panic ''mappages: remap'')
     else
       (let s = set_mem (store64 (mem s) pte (PA2PTE pa OR perm OR PTE_V)) s in
        if a = alast then Inr (0, s)
        else mappages_loop pagetable (a + PGSIZE) alast (pa + PGSIZE) perm s))"
  by pat_completeness auto
termination
  by (relation "measure (\<lambda>(_, a, _). 2 ^ 38 - unat a)")
    (auto dest!: walk_below intro: next_page_measure [simplified])

definition mappages ::
    "u64 \<Rightarrow> u64 \<Rightarrow> u64 \<Rightarrow> u64 \<Rightarrow> u64 \<Rightarrow> 'z kvm_scheme \<Rightarrow> ('z kvm_scheme, int \<times> 'z kvm_scheme) res" where
  "mappages pagetable va sz pa perm s =
     (if sz = 0 then Inl (Panic ''mappages: size'')
      else mappages_loop pagetable (PGROUNDDOWN va) (PGROUNDDOWN (va + sz - 1)) pa perm s)"

function uvmunmap_loop ::
    "u64 \<Rightarrow> u64 \<Rightarrow> u64 \<Rightarrow> bool \<Rightarrow> 'z kvm_scheme \<Rightarrow> ('z kvm_scheme, 'z kvm_scheme) res" where
  "uvmunmap_loop pagetable a stop do_free s =
     (if a < stop then
        andthen (walk pagetable a False s) (\<lambda>(pte, s).
        if pte = 0 then Inl (Panic ''uvmunmap: walk'')
        else if load64 (mem s) pte AND PTE_V = 0 then Inl (Panic ''uvmunmap: not mapped'')
        else if PTE_FLAGS (load64 (mem s) pte) = PTE_V then Inl (Panic ''uvmunmap: not a leaf'')
        else
          andthen (if do_free then kfree (PTE2PA (load64 (mem s) pte)) s else Inr s) (\<lambda>s.
          uvmunmap_loop pagetable (a + PGSIZE) stop do_free (set_mem (store64 (mem s) pte 0) s)))
      else Inr s)"
  by pat_completeness auto
termination
  by (relation "measure (\<lambda>(_, a, _). 2 ^ 38 - unat a)")
    (auto dest!: walk_below intro: next_page_measure [simplified])

definition uvmunmap ::
    "u64 \<Rightarrow> u64 \<Rightarrow> u64 \<Rightarrow> bool \<Rightarrow> 'z kvm_scheme \<Rightarrow> ('z kvm_scheme, 'z kvm_scheme) res" where
  "uvmunmap pagetable va npages do_free s =
     (if va mod PGSIZE \<noteq> 0 then Inl (Panic ''uvmunmap: not aligned'')
      else uvmunmap_loop pagetable va (va + npages * PGSIZE) do_free s)"

declare mappages_loop.simps [simp del] uvmunmap_loop.simps [simp del]

subsection \<open>The kernel page table\<close>

definition kvmmap ::
    "u64 \<Rightarrow> u64 \<Rightarrow> u64 \<Rightarrow> u64 \<Rightarrow> u64 \<Rightarrow> 'z kvm_scheme \<Rightarrow> ('z kvm_scheme, 'z kvm_scheme) res" where
  "kvmmap kpgtbl va pa sz perm s =
     andthen (mappages kpgtbl va sz pa perm s) (\<lambda>(r, s).
     if r \<noteq> 0 then Inl (Panic ''kvmmap'') else Inr s)"

definition proc_mapstacks :: "u64 \<Rightarrow> 'z kvm_scheme \<Rightarrow> ('z kvm_scheme, 'z kvm_scheme) res" where
  "proc_mapstacks kpgtbl s = for_each (\<lambda>p s.
     andthen (kalloc s) (\<lambda>(pa, s).
     if pa = 0 then Inl (Panic ''kalloc'')
     else kvmmap kpgtbl (KSTACK (of_nat p)) pa PGSIZE (PTE_R OR PTE_W) s)) [0..<NPROC] s"

definition kvmmake :: "'z kvm_scheme \<Rightarrow> ('z kvm_scheme, u64 \<times> 'z kvm_scheme) res" where
  "kvmmake s =
     andthen (kalloc s) (\<lambda>(kpgtbl, s).
     if kpgtbl = 0 then Inl Fault else
     (let s = set_mem (memset (mem s) kpgtbl 0 (ucast PGSIZE)) s in
     andthen (kvmmap kpgtbl UART0 UART0 PGSIZE (PTE_R OR PTE_W) s) (\<lambda>s.
     andthen (kvmmap kpgtbl VIRTIO0 VIRTIO0 PGSIZE (PTE_R OR PTE_W) s) (\<lambda>s.
     andthen (kvmmap kpgtbl PLIC PLIC 0x400000 (PTE_R OR PTE_W) s) (\<lambda>s.
     andthen (kvmmap kpgtbl KERNBASE KERNBASE (ketext s - KERNBASE) (PTE_R OR PTE_X) s) (\<lambda>s.
     andthen (kvmmap kpgtbl (ketext s) (ketext s) (PHYSTOP - ketext s) (PTE_R OR PTE_W) s) (\<lambda>s.
     andthen (kvmmap kpgtbl TRAMPOLINE (ktrampoline s) PGSIZE (PTE_R OR PTE_X) s) (\<lambda>s.
     andthen (proc_mapstacks kpgtbl s) (\<lambda>s.
     Inr (kpgtbl, s))))))))))"

definition kvminit :: "'z kvm_scheme \<Rightarrow> ('z kvm_scheme, 'z kvm_scheme) res" where
  "kvminit s = andthen (kvmmake s) (\<lambda>(kpgtbl, s). Inr (s\<lparr>kernel_pagetable := kpgtbl\<rparr>))"

definition kvminithart :: "'z kvm_scheme \<Rightarrow> 'z kvm_scheme" where
  "kvminithart s = s\<lparr>khart := w_satp (MAKE_SATP (kernel_pagetable s)) (khart s)\<rparr>"

subsection \<open>User memory\<close>

definition uvmcreate :: "'z kvm_scheme \<Rightarrow> ('z kvm_scheme, u64 \<times> 'z kvm_scheme) res" where
  "uvmcreate s =
     andthen (kalloc s) (\<lambda>(pagetable, s).
     if pagetable = 0 then Inr (0, s)
     else Inr (pagetable, set_mem (memset (mem s) pagetable 0 (ucast PGSIZE)) s))"

definition uvminit ::
    "u64 \<Rightarrow> u8 list \<Rightarrow> 'z kvm_scheme \<Rightarrow> ('z kvm_scheme, 'z kvm_scheme) res" where
  "uvminit pagetable src s =
     (if length src \<ge> 4096 then Inl (Panic ''inituvm: more than a page'')
      else
        andthen (kalloc s) (\<lambda>(page, s).
        if page = 0 then Inl Fault
        else
          (let s = set_mem (memset (mem s) page 0 (ucast PGSIZE)) s in
           andthen (mappages pagetable 0 PGSIZE page (PTE_W OR PTE_R OR PTE_X OR PTE_U) s) (\<lambda>(_, s).
           Inr (set_mem (write_bytes (mem s) page src) s)))))"

definition uvmdealloc ::
    "u64 \<Rightarrow> u64 \<Rightarrow> u64 \<Rightarrow> 'z kvm_scheme \<Rightarrow> ('z kvm_scheme, u64 \<times> 'z kvm_scheme) res" where
  "uvmdealloc pagetable oldsz newsz s =
     (if newsz \<ge> oldsz then Inr (oldsz, s)
      else if PGROUNDUP newsz < PGROUNDUP oldsz then
        (let npages = (ucast ((PGROUNDUP oldsz - PGROUNDUP newsz) div PGSIZE) :: u32) in
         andthen (uvmunmap pagetable (PGROUNDUP newsz) (scast npages) True s) (\<lambda>s.
         Inr (newsz, s)))
      else Inr (newsz, s))"

lemma mappages_round_below:
  assumes "mappages pt a PGSIZE pa perm s = Inr x"
  shows "PGROUNDDOWN a < MAXVA"
  using assms walk_below
  by (auto simp: mappages_def mappages_loop.simps [of pt "PGROUNDDOWN a"] andthen_eq_Inr_iff
      split: if_splits)

lemma next_round_measure:
  "PGROUNDDOWN a < MAXVA \<Longrightarrow> 2 ^ 38 - unat (PGROUNDDOWN (a + PGSIZE)) < 2 ^ 38 - unat (PGROUNDDOWN a)"
proof -
  assume "PGROUNDDOWN a < MAXVA"
  then have r: "unat a div 4096 * 4096 < 2 ^ 38"
    by (simp add: word_less_nat_alt MAXVA_val unat_PGROUNDDOWN)
  then have "unat a < 2 ^ 38 + 4096" by linarith
  then have "unat (a + PGSIZE) = unat a + 4096"
    by (subst unat_plus_le) (simp_all add: PGSIZE_def)
  then show ?thesis using r by (simp add: unat_PGROUNDDOWN)
qed

text \<open>
  The loop of \<^verbatim>\<open>uvmalloc\<close>. The loop variable starts at a page boundary; on either failure the
  pages added so far are taken away again.
\<close>

function uvmalloc_loop ::
    "u64 \<Rightarrow> u64 \<Rightarrow> u64 \<Rightarrow> u64 \<Rightarrow> 'z kvm_scheme \<Rightarrow> ('z kvm_scheme, u64 \<times> 'z kvm_scheme) res" where
  "uvmalloc_loop pagetable oldsz newsz a s =
     (if a < newsz then
        andthen (kalloc s) (\<lambda>(page, s).
        if page = 0 then andthen (uvmdealloc pagetable a oldsz s) (\<lambda>(_, s). Inr (0, s))
        else
          (let s = set_mem (memset (mem s) page 0 (ucast PGSIZE)) s in
           andthen (mappages pagetable a PGSIZE page (PTE_W OR PTE_X OR PTE_R OR PTE_U) s) (\<lambda>(r, s).
           if r \<noteq> 0 then
             andthen (kfree page s) (\<lambda>s.
             andthen (uvmdealloc pagetable a oldsz s) (\<lambda>(_, s). Inr (0, s)))
           else uvmalloc_loop pagetable oldsz newsz (a + PGSIZE) s)))
      else Inr (newsz, s))"
  by pat_completeness auto
termination
proof (relation "measure (\<lambda>(_, _, _, a, _). 2 ^ 38 - unat (PGROUNDDOWN a))", simp, goal_cases)
  case (1 pagetable oldsz newsz a s y page t u z r v)
  then show ?case by (auto dest!: mappages_round_below intro: next_round_measure [simplified])
qed

declare uvmalloc_loop.simps [simp del]

definition uvmalloc ::
    "u64 \<Rightarrow> u64 \<Rightarrow> u64 \<Rightarrow> 'z kvm_scheme \<Rightarrow> ('z kvm_scheme, u64 \<times> 'z kvm_scheme) res" where
  "uvmalloc pagetable oldsz newsz s =
     (if newsz < oldsz then Inr (oldsz, s)
      else uvmalloc_loop pagetable (PGROUNDUP oldsz) newsz (PGROUNDUP oldsz) s)"

text \<open>
  \<^verbatim>\<open>freewalk\<close> recurses into whatever its PTEs point at; on a cyclic table it would overflow the
  kernel stack. The first argument bounds the depth of the recursion; running out is \<open>Fault\<close>. A
  page table has three levels, so a bound of three is enough.
\<close>

fun freewalk :: "nat \<Rightarrow> u64 \<Rightarrow> 'z kvm_scheme \<Rightarrow> ('z kvm_scheme, 'z kvm_scheme) res" where
  "freewalk 0 pagetable s = Inl Fault"
| "freewalk (Suc n) pagetable s =
     andthen (for_each (\<lambda>i s.
       let pte = load64 (mem s) (pagetable + 8 * of_nat i) in
       if pte AND PTE_V \<noteq> 0 \<and> pte AND (PTE_R OR PTE_W OR PTE_X) = 0 then
         andthen (freewalk n (PTE2PA pte) s) (\<lambda>s.
         Inr (set_mem (store64 (mem s) (pagetable + 8 * of_nat i) 0) s))
       else if pte AND PTE_V \<noteq> 0 then Inl (Panic ''freewalk: leaf'')
       else Inr s) [0..<512] s) (kfree pagetable)"

definition uvmfree :: "u64 \<Rightarrow> u64 \<Rightarrow> 'z kvm_scheme \<Rightarrow> ('z kvm_scheme, 'z kvm_scheme) res" where
  "uvmfree pagetable sz s =
     andthen (if sz > 0 then uvmunmap pagetable 0 (PGROUNDUP sz div PGSIZE) True s else Inr s)
       (freewalk 3 pagetable)"

function uvmcopy_loop ::
    "u64 \<Rightarrow> u64 \<Rightarrow> u64 \<Rightarrow> u64 \<Rightarrow> 'z kvm_scheme \<Rightarrow> ('z kvm_scheme, int \<times> 'z kvm_scheme) res" where
  "uvmcopy_loop old new sz i s =
     (if i < sz then
        andthen (walk old i False s) (\<lambda>(pte, s).
        if pte = 0 then Inl (Panic ''uvmcopy: pte should exist'')
        else if load64 (mem s) pte AND PTE_V = 0 then Inl (Panic ''uvmcopy: page not present'')
        else
          (let pa = PTE2PA (load64 (mem s) pte); flags = PTE_FLAGS (load64 (mem s) pte) in
           andthen (kalloc s) (\<lambda>(page, s).
           if page = 0 then
             andthen (uvmunmap new 0 (i div PGSIZE) True s) (\<lambda>s. Inr (-1, s))
           else
             (let s = set_mem (memmove (mem s) page pa (ucast PGSIZE)) s in
              andthen (mappages new i PGSIZE page flags s) (\<lambda>(r, s).
              if r \<noteq> 0 then
                andthen (kfree page s) (\<lambda>s.
                andthen (uvmunmap new 0 (i div PGSIZE) True s) (\<lambda>s. Inr (-1, s)))
              else uvmcopy_loop old new sz (i + PGSIZE) s)))))
      else Inr (0, s))"
  by pat_completeness auto
termination
  by (relation "measure (\<lambda>(_, _, _, i, _). 2 ^ 38 - unat i)")
    (auto dest!: walk_below intro: next_page_measure [simplified])

declare uvmcopy_loop.simps [simp del]

definition uvmcopy ::
    "u64 \<Rightarrow> u64 \<Rightarrow> u64 \<Rightarrow> 'z kvm_scheme \<Rightarrow> ('z kvm_scheme, int \<times> 'z kvm_scheme) res" where
  "uvmcopy old new sz s = uvmcopy_loop old new sz 0 s"

definition uvmclear :: "u64 \<Rightarrow> u64 \<Rightarrow> 'z kvm_scheme \<Rightarrow> ('z kvm_scheme, 'z kvm_scheme) res" where
  "uvmclear pagetable va s =
     andthen (walk pagetable va False s) (\<lambda>(pte, s).
     if pte = 0 then Inl (Panic ''uvmclear'')
     else Inr (set_mem (store64 (mem s) pte (load64 (mem s) pte AND NOT PTE_U)) s))"

subsection \<open>Copying between user and kernel\<close>

text \<open>The number of bytes to the end of the page of \<open>va\<close>, at most \<open>len\<close>.\<close>

definition chunk :: "u64 \<Rightarrow> nat \<Rightarrow> nat" where
  "chunk va len = min (unat (PGSIZE - (va - PGROUNDDOWN va))) len"

lemma PGROUNDDOWN_offset: "unat (va - PGROUNDDOWN va) = unat va mod 4096"
proof -
  have "PGROUNDDOWN va \<le> va" by (simp add: word_le_nat_alt unat_PGROUNDDOWN)
  then show ?thesis by (simp add: unat_minus_le unat_PGROUNDDOWN minus_div_mult_eq_mod)
qed

lemma chunk_eq: "chunk va len = min (4096 - unat va mod 4096) len"
proof -
  have "unat va mod 4096 \<le> 4096" by simp
  then have "va - PGROUNDDOWN va \<le> PGSIZE"
    by (simp add: word_le_nat_alt PGROUNDDOWN_offset PGSIZE_def)
  then have "unat (PGSIZE - (va - PGROUNDDOWN va)) = 4096 - unat va mod 4096"
    unfolding unat_minus_le by (simp add: unat_minus_le PGROUNDDOWN_offset PGSIZE_def)
  then show ?thesis by (simp add: chunk_def)
qed

lemma chunk_pos: "0 < len \<Longrightarrow> 0 < chunk va len" and chunk_le: "chunk va len \<le> len"
  by (simp_all add: chunk_eq)

function copyout ::
    "u64 \<Rightarrow> u64 \<Rightarrow> u8 list \<Rightarrow> 'z kvm_scheme \<Rightarrow> ('z kvm_scheme, int \<times> 'z kvm_scheme) res" where
  "copyout pagetable dstva src s =
     (if src \<noteq> [] then
        andthen (walkaddr pagetable (PGROUNDDOWN dstva) s) (\<lambda>pa0.
        if pa0 = 0 then Inr (-1, s)
        else
          (let va0 = PGROUNDDOWN dstva; n = chunk dstva (length src);
               s = set_mem (write_bytes (mem s) (pa0 + (dstva - va0)) (take n src)) s
           in copyout pagetable (va0 + PGSIZE) (drop n src) s))
      else Inr (0, s))"
  by pat_completeness auto
termination
  by (relation "measure (\<lambda>(_, _, src, _). length src)") (auto simp: chunk_pos)

text \<open>\<^verbatim>\<open>copyin\<close> returns 0 or -1 and the bytes that it has stored at \<^verbatim>\<open>dst\<close>.\<close>

function copyin ::
    "u64 \<Rightarrow> u64 \<Rightarrow> nat \<Rightarrow> 'z kvm_scheme \<Rightarrow> ('z kvm_scheme, int \<times> u8 list) res" where
  "copyin pagetable srcva len s =
     (if len > 0 then
        andthen (walkaddr pagetable (PGROUNDDOWN srcva) s) (\<lambda>pa0.
        if pa0 = 0 then Inr (-1, [])
        else
          (let va0 = PGROUNDDOWN srcva; n = chunk srcva len in
           andthen (copyin pagetable (va0 + PGSIZE) (len - n) s) (\<lambda>(r, bs).
           Inr (r, read_bytes (mem s) (pa0 + (srcva - va0)) n @ bs))))
      else Inr (0, []))"
  by pat_completeness auto
termination
  by (relation "measure (\<lambda>(_, _, len, _). len)") (auto simp: chunk_pos)

text \<open>
  The inner loop of \<^verbatim>\<open>copyinstr\<close> on one page: the bytes stored at \<^verbatim>\<open>dst\<close> and whether a nul was met.
\<close>

fun copyinstr_page :: "memory \<Rightarrow> u64 \<Rightarrow> nat \<Rightarrow> u8 list \<times> bool" where
  "copyinstr_page m p 0 = ([], False)"
| "copyinstr_page m p (Suc n) =
     (if m p = 0 then ([0], True)
      else (let (bs, got) = copyinstr_page m (p + 1) n in (m p # bs, got)))"

function copyinstr ::
    "u64 \<Rightarrow> u64 \<Rightarrow> nat \<Rightarrow> 'z kvm_scheme \<Rightarrow> ('z kvm_scheme, int \<times> u8 list) res" where
  "copyinstr pagetable srcva maxlen s =
     (if maxlen > 0 then
        andthen (walkaddr pagetable (PGROUNDDOWN srcva) s) (\<lambda>pa0.
        if pa0 = 0 then Inr (-1, [])
        else
          (let va0 = PGROUNDDOWN srcva; n = chunk srcva maxlen;
               (bs, got_null) = copyinstr_page (mem s) (pa0 + (srcva - va0)) n
           in if got_null then Inr (0, bs)
              else
                andthen (copyinstr pagetable (va0 + PGSIZE) (maxlen - n) s) (\<lambda>(r, bs').
                Inr (r, bs @ bs'))))
      else Inr (-1, []))"
  by pat_completeness auto
termination
  by (relation "measure (\<lambda>(_, _, len, _). len)") (auto simp: chunk_pos)

declare copyout.simps [simp del] copyin.simps [simp del] copyinstr.simps [simp del]

subsection \<open>What user memory looks like\<close>

text \<open>The read-only walk, as a function of memory alone.\<close>

fun walk_ro :: "nat \<Rightarrow> memory \<Rightarrow> u64 \<Rightarrow> u64 \<Rightarrow> u64" where
  "walk_ro 0 m pagetable va = pte_addr pagetable 0 va"
| "walk_ro (Suc l) m pagetable va =
     (let pte = load64 m (pte_addr pagetable (Suc l) va) in
      if pte AND PTE_V \<noteq> 0 then walk_ro l m (PTE2PA pte) va else 0)"

lemma walk_loop_ro [kernel_simps]: "walk_loop l pt va False s = Inr (walk_ro l (mem s) pt va, s)"
  by (induction l arbitrary: pt) (auto simp: Let_def)

lemma walk_ro_eq [kernel_simps]:
  "va < MAXVA \<Longrightarrow> walk pt va False s = Inr (walk_ro 2 (mem s) pt va, s)"
  by (simp add: walk_def walk_loop_ro not_le)

text \<open>The physical address of a user page, 0 when it is not mapped for the user.\<close>

definition user_page :: "memory \<Rightarrow> u64 \<Rightarrow> u64 \<Rightarrow> u64" where
  "user_page m pt va =
     (if va \<ge> MAXVA then 0
      else
        (let pte = walk_ro 2 m pt va in
         if pte = 0 \<or> load64 m pte AND PTE_V = 0 \<or> load64 m pte AND PTE_U = 0 then 0
         else PTE2PA (load64 m pte)))"

lemma walkaddr_eq [kernel_simps]: "walkaddr pt va s = Inr (user_page (mem s) pt va)"
  by (auto simp: walkaddr_def user_page_def walk_ro_eq not_le Let_def)

lemma le_word_zeros: "set bs \<subseteq> {0} \<Longrightarrow> le_word bs = 0"
  by (induction bs) auto

lemma load64_zeros: "load64 (\<lambda>_. 0) a = 0"
  unfolding load64_def by (rule le_word_zeros) (auto simp: read_bytes_def)

lemma user_page_zeros: "user_page (\<lambda>_. 0) pt va = 0"
  by (simp add: user_page_def load64_zeros numeral_2_eq_2)

text \<open>The physical address and the content of a byte of user memory.\<close>

definition user_addr :: "memory \<Rightarrow> u64 \<Rightarrow> u64 \<Rightarrow> u64 option" where
  "user_addr m pt va =
     (let pa = user_page m pt (PGROUNDDOWN va) in
      if pa = 0 then None else Some (pa + (va - PGROUNDDOWN va)))"

definition user_byte :: "memory \<Rightarrow> u64 \<Rightarrow> u64 \<Rightarrow> u8 option" where
  "user_byte m pt va = map_option m (user_addr m pt va)"

definition user_bytes :: "memory \<Rightarrow> u64 \<Rightarrow> u64 \<Rightarrow> nat \<Rightarrow> u8 option list" where
  "user_bytes m pt va n = map (\<lambda>i. user_byte m pt (va + of_nat i)) [0..<n]"

lemma length_user_bytes [simp]: "length (user_bytes m pt va n) = n"
  by (simp add: user_bytes_def)

lemma user_bytes_add:
  "user_bytes m pt va (j + k) = user_bytes m pt va j @ user_bytes m pt (va + of_nat j) k"
proof -
  have "[0..<j + k] = [0..<j] @ map (\<lambda>i. j + i) [0..<k]"
    using upt_add_eq_append [of 0 j k] map_add_upt [of j k] by (simp add: add.commute)
  then show ?thesis by (simp add: user_bytes_def add.assoc)
qed

text \<open>Bytes of one page share their translation.\<close>

lemma PGROUNDDOWN_chunk:
  assumes "i < chunk va n"
  shows "PGROUNDDOWN (va + of_nat i) = PGROUNDDOWN va"
proof -
  have i: "i < 4096 - unat va mod 4096" using assms by (simp add: chunk_eq)
  have "unat va div 4096 * 4096 + 4096 \<le> 2 ^ 64"
    using unat_less_exp [of va] by simp
  then have lt: "unat va + i < 2 ^ 64" using i div_mult_mod_eq [of "unat va" 4096] by linarith
  then have "unat (va + of_nat i) = unat va + i"
    by (subst unat_plus_le) (simp_all add: unat_of_nat_64)
  moreover have "unat va mod 4096 + i < 4096" using i by linarith
  then have "(unat va div 4096 * 4096 + (unat va mod 4096 + i)) div 4096 = unat va div 4096"
    by (subst div_mult_self3) simp_all
  then have "(unat va + i) div 4096 = unat va div 4096"
    by (simp only: add.assoc [symmetric] div_mult_mod_eq)
  ultimately show ?thesis
    by (intro unat_eqI) (simp add: unat_PGROUNDDOWN)
qed

lemma user_bytes_page:
  assumes "k \<le> chunk va n"
  shows "user_bytes m pt va k =
    (let pa = user_page m pt (PGROUNDDOWN va) in
     if pa = 0 then replicate k None
     else map Some (read_bytes m (pa + (va - PGROUNDDOWN va)) k))"
proof -
  have "PGROUNDDOWN (va + of_nat i) = PGROUNDDOWN va" if "i < k" for i
    by (rule PGROUNDDOWN_chunk [of i va n]) (use that assms in simp)
  then show ?thesis
    by (auto simp: user_bytes_def user_byte_def user_addr_def Let_def read_bytes_def
        intro!: nth_equalityI simp: algebra_simps)
qed

lemma next_page_chunk:
  assumes "chunk va n < n"
  shows "PGROUNDDOWN va + PGSIZE = va + of_nat (chunk va n)"
proof -
  have c: "chunk va n = 4096 - unat va mod 4096" using assms by (simp add: chunk_eq split: if_splits)
  have "of_nat (unat va mod 4096) = va - PGROUNDDOWN va"
    using PGROUNDDOWN_offset [of va] by (metis of_nat_unat ucast_id)
  then have "of_nat (chunk va n) = PGSIZE - (va - PGROUNDDOWN va)"
    unfolding c by (simp add: of_nat_diff PGSIZE_def)
  then show ?thesis by simp
qed

text \<open>\<^verbatim>\<open>copyin\<close> returns the bytes of user memory up to the first one that is not mapped.\<close>

definition mapped_prefix :: "u8 option list \<Rightarrow> u8 list" where
  "mapped_prefix xs = map the (takeWhile (\<lambda>x. x \<noteq> None) xs)"

lemma mapped_prefix_simps [simp]:
  "mapped_prefix [] = []"
  "mapped_prefix (Some b # xs) = b # mapped_prefix xs"
  "mapped_prefix (None # xs) = []"
  "mapped_prefix (map Some bs @ xs) = bs @ mapped_prefix xs"
  by (simp_all add: mapped_prefix_def) (induction bs, simp_all)

lemma mapped_prefix_map_Some [simp]: "mapped_prefix (map Some bs) = bs"
  using mapped_prefix_simps(4) [of bs "[]"] by simp

lemma length_mapped_prefix: "length (mapped_prefix xs) \<le> length xs"
  by (simp add: mapped_prefix_def length_takeWhile_le)

lemma mapped_prefix_full: "length (mapped_prefix xs) = length xs \<longleftrightarrow> None \<notin> set xs"
proof (induction xs)
  case (Cons x xs)
  then show ?case by (cases x) auto
qed simp

lemma copyin_eq:
  "copyin pt va n s =
    (let bs = mapped_prefix (user_bytes (mem s) pt va n)
     in Inr (if length bs = n then 0 else -1, bs))"
proof (induction pt va n s rule: copyin.induct)
  case (1 pt va n s)
  let ?k = "chunk va n" and ?pa = "user_page (mem s) pt (PGROUNDDOWN va)"
  show ?case
  proof (cases "n = 0")
    case True
    then show ?thesis by (simp add: copyin.simps [of pt va 0 s] user_bytes_def)
  next
    case n: False
    have split: "user_bytes (mem s) pt va n =
      user_bytes (mem s) pt va ?k @ user_bytes (mem s) pt (va + of_nat ?k) (n - ?k)"
      using user_bytes_add [of "mem s" pt va ?k "n - ?k"] chunk_le [of va n] by simp
    note page = user_bytes_page [OF order_refl, of "mem s" pt va n]
    show ?thesis
    proof (cases "?pa = 0")
      case True
      have "?k \<noteq> 0" using n chunk_pos [of n va] by simp
      then obtain j where "?k = Suc j" by (cases ?k) auto
      then have "mapped_prefix (user_bytes (mem s) pt va n) = []"
        unfolding split page using True by simp
      then show ?thesis using True n by (simp add: copyin.simps [of pt va n s] walkaddr_eq)
    next
      case False
      let ?b = "read_bytes (mem s) (?pa + (va - PGROUNDDOWN va)) ?k"
      let ?rest = "mapped_prefix (user_bytes (mem s) pt (va + of_nat ?k) (n - ?k))"
      have pre: "mapped_prefix (user_bytes (mem s) pt va n) = ?b @ ?rest"
        unfolding split page using False by simp
      have rest: "copyin pt (PGROUNDDOWN va + PGSIZE) (n - ?k) s =
        Inr (if length ?rest = n - ?k then 0 else -1, ?rest)"
      proof (cases "?k < n")
        case True
        then show ?thesis
          using 1 [of ?pa "PGROUNDDOWN va" ?k] n False next_page_chunk [OF True]
          by (simp add: walkaddr_eq Let_def)
      next
        case False
        then have "n - ?k = 0" by simp
        then show ?thesis by (simp add: copyin.simps [of _ _ 0] user_bytes_def)
      qed
      have "length (?b @ ?rest) = n \<longleftrightarrow> length ?rest = n - ?k" using chunk_le [of va n] by auto
      then show ?thesis
        using n False rest pre by (simp add: copyin.simps [of pt va n s] walkaddr_eq Let_def)
    qed
  qed
qed

text \<open>\<^verbatim>\<open>copyinstr\<close> looks for a nul among the mapped bytes.\<close>

lemma read_bytes_Suc: "read_bytes m p (Suc n) = m p # read_bytes m (p + 1) n"
  unfolding read_bytes_def
  by (simp only: upt_conv_Cons zero_less_Suc list.map map_Suc_upt [symmetric] map_map o_def)
    (simp add: algebra_simps)

lemma copyinstr_page_eq:
  "copyinstr_page m p n = (let bs = read_bytes m p n in
     if 0 \<in> set bs then (takeWhile (\<lambda>b. b \<noteq> 0) bs @ [0], True) else (bs, False))"
proof (induction n arbitrary: p)
  case (Suc n)
  then show ?case by (auto simp: read_bytes_Suc Let_def)
qed (simp add: read_bytes_def)

definition copyinstr_result :: "u8 list \<Rightarrow> int \<times> u8 list" where
  "copyinstr_result bs =
     (if 0 \<in> set bs then (0, takeWhile (\<lambda>b. b \<noteq> 0) bs @ [0]) else (-1, bs))"

lemma copyinstr_eq:
  "copyinstr pt va n s = Inr (copyinstr_result (mapped_prefix (user_bytes (mem s) pt va n)))"
proof (induction pt va n s rule: copyinstr.induct)
  case (1 pt va n s)
  let ?k = "chunk va n" and ?pa = "user_page (mem s) pt (PGROUNDDOWN va)"
  show ?case
  proof (cases "n = 0")
    case True
    then show ?thesis by (simp add: copyinstr.simps [of pt va 0 s] user_bytes_def copyinstr_result_def)
  next
    case n: False
    have split: "user_bytes (mem s) pt va n =
      user_bytes (mem s) pt va ?k @ user_bytes (mem s) pt (va + of_nat ?k) (n - ?k)"
      using user_bytes_add [of "mem s" pt va ?k "n - ?k"] chunk_le [of va n] by simp
    note page = user_bytes_page [OF order_refl, of "mem s" pt va n]
    show ?thesis
    proof (cases "?pa = 0")
      case True
      have "?k \<noteq> 0" using n chunk_pos [of n va] by simp
      then obtain j where "?k = Suc j" by (cases ?k) auto
      then have "mapped_prefix (user_bytes (mem s) pt va n) = []"
        unfolding split page using True by simp
      then show ?thesis
        using True n by (simp add: copyinstr.simps [of pt va n s] walkaddr_eq copyinstr_result_def)
    next
      case False
      let ?b = "read_bytes (mem s) (?pa + (va - PGROUNDDOWN va)) ?k"
      let ?rest = "mapped_prefix (user_bytes (mem s) pt (va + of_nat ?k) (n - ?k))"
      have pre: "mapped_prefix (user_bytes (mem s) pt va n) = ?b @ ?rest"
        unfolding split page using False by simp
      have rest: "copyinstr pt (PGROUNDDOWN va + PGSIZE) (n - ?k) s = Inr (copyinstr_result ?rest)"
        if "0 \<notin> set ?b"
      proof (cases "?k < n")
        case True
        then show ?thesis
          using 1 [of ?pa "PGROUNDDOWN va" ?k] n False next_page_chunk [OF True] that
          by (simp add: walkaddr_eq Let_def copyinstr_page_eq)
      next
        case False
        then have "n - ?k = 0" by simp
        then show ?thesis
          by (simp add: copyinstr.simps [of _ _ 0] user_bytes_def copyinstr_result_def)
      qed
      show ?thesis
        unfolding pre using n False rest
        by (auto simp: copyinstr.simps [of pt va n s] walkaddr_eq Let_def copyinstr_page_eq
            copyinstr_result_def takeWhile_append)
    qed
  qed
qed

text \<open>The addresses of the entries that a walk reads.\<close>

fun walk_path :: "nat \<Rightarrow> memory \<Rightarrow> u64 \<Rightarrow> u64 \<Rightarrow> u64 list" where
  "walk_path 0 m pagetable va = [pte_addr pagetable 0 va]"
| "walk_path (Suc l) m pagetable va =
     (let a = pte_addr pagetable (Suc l) va in
      a # (if load64 m a AND PTE_V \<noteq> 0 then walk_path l m (PTE2PA (load64 m a)) va else []))"

lemma walk_ro_cong:
  assumes "\<And>a i. a \<in> set (walk_path l m pt va) \<Longrightarrow> i < 8 \<Longrightarrow> m' (a + of_nat i) = m (a + of_nat i)"
  shows "walk_ro l m' pt va = walk_ro l m pt va \<and> walk_path l m' pt va = walk_path l m pt va \<and>
    (walk_ro l m pt va \<noteq> 0 \<longrightarrow> load64 m' (walk_ro l m pt va) = load64 m (walk_ro l m pt va))"
  using assms
proof (induction l arbitrary: pt)
  case 0
  then show ?case by (auto intro: load64_cong)
next
  case (Suc l)
  let ?a = "pte_addr pt (Suc l) va"
  have e: "load64 m' ?a = load64 m ?a" using Suc.prems by (intro load64_cong) (simp add: Let_def)
  show ?case
  proof (cases "load64 m ?a AND PTE_V \<noteq> 0")
    case True
    then show ?thesis using Suc.IH [of "PTE2PA (load64 m ?a)"] Suc.prems e by (simp add: Let_def)
  qed (simp add: e Let_def)
qed

text \<open>
  A buffer in user memory: no two of its addresses are mapped to the same byte of physical memory, and the entries of the page table
  that map it are not themselves in it.
\<close>

definition buffer_bytes :: "memory \<Rightarrow> u64 \<Rightarrow> u64 \<Rightarrow> nat \<Rightarrow> u64 set" where
  "buffer_bytes m pt va n = {x. \<exists>j < n. user_addr m pt (va + of_nat j) = Some x}"

definition user_buffer :: "memory \<Rightarrow> u64 \<Rightarrow> u64 \<Rightarrow> nat \<Rightarrow> bool" where
  "user_buffer m pt va n \<longleftrightarrow>
     (\<forall>i < n. \<forall>j < n. \<forall>x. user_addr m pt (va + of_nat i) = Some x \<and> user_addr m pt (va + of_nat j) = Some x \<longrightarrow> i = j) \<and>
     (\<forall>j < n. \<forall>a \<in> set (walk_path 2 m pt (PGROUNDDOWN (va + of_nat j))). \<forall>k < 8. a + of_nat k \<notin> buffer_bytes m pt va n)"

lemma user_addr_cong:
  assumes "\<And>a k. a \<in> set (walk_path 2 m pt (PGROUNDDOWN va)) \<Longrightarrow> k < 8 \<Longrightarrow> m' (a + of_nat k) = m (a + of_nat k)"
  shows "user_addr m' pt va = user_addr m pt va"
  using walk_ro_cong [of 2 m pt "PGROUNDDOWN va" m', OF assms] by (auto simp: user_addr_def user_page_def Let_def)

lemma user_buffer_stable:
  assumes "user_buffer m pt va n" and "\<And>x. x \<notin> buffer_bytes m pt va n \<Longrightarrow> m' x = m x" and "j < n"
  shows "user_addr m' pt (va + of_nat j) = user_addr m pt (va + of_nat j)"
  using assms by (intro user_addr_cong) (simp add: user_buffer_def)

lemma copyout_1:
  "copyout pt va [b] s = Inr (case user_addr (mem s) pt va of None \<Rightarrow> (-1, s) | Some x \<Rightarrow> (0, set_mem ((mem s)(x := b)) s))"
proof -
  have c: "chunk va (Suc 0) = Suc 0" using chunk_pos [of "Suc 0" va] chunk_le [of va "Suc 0"] by simp
  have w: "write_bytes m a [b] = m(a := b)" for m a by (auto simp: write_bytes_def fun_eq_iff unat_eq_0)
  show ?thesis
    by (simp add: copyout.simps [of pt va "[b]"] copyout.simps [of pt _ "[]"] walkaddr_eq user_addr_def c w Let_def)
qed

subsection \<open>A page table that maps one page\<close>

text \<open>A table at \<^verbatim>\<open>0x80010000\<close> that maps the user's first page to \<^verbatim>\<open>0x80013000\<close>, which starts with the bytes 1, 2, 3.\<close>

definition user_mem_ex :: memory where
  "user_mem_ex =
     store64 (store64 (store64 (store64 (\<lambda>_. 0) 0x80010000 (PA2PTE 0x80011000 OR PTE_V)) 0x80011000 (PA2PTE 0x80012000 OR PTE_V))
       0x80012000 (PA2PTE 0x80013000 OR (PTE_V OR PTE_R OR PTE_W OR PTE_U))) 0x80013000 0x030201"

lemma user_mem_ex_loads:
  "load64 user_mem_ex 0x80010000 = PA2PTE 0x80011000 OR PTE_V" "load64 user_mem_ex 0x80011000 = PA2PTE 0x80012000 OR PTE_V"
  "load64 user_mem_ex 0x80012000 = PA2PTE 0x80013000 OR (PTE_V OR PTE_R OR PTE_W OR PTE_U)"
  by (simp_all add: user_mem_ex_def load64_store64_apart apart_def)

lemma user_mem_ex_ptes:
  "PTE2PA (PA2PTE 0x80011000 OR PTE_V) = 0x80011000" "PTE2PA (PA2PTE 0x80012000 OR PTE_V) = 0x80012000"
  "PTE2PA (PA2PTE 0x80013000 OR (PTE_V OR PTE_R OR PTE_W OR PTE_U)) = 0x80013000"
  "(PA2PTE 0x80011000 OR PTE_V) AND PTE_V \<noteq> 0" "(PA2PTE 0x80012000 OR PTE_V) AND PTE_V \<noteq> 0"
  "(PA2PTE 0x80013000 OR (PTE_V OR PTE_R OR PTE_W OR PTE_U)) AND PTE_V \<noteq> 0"
  "(PA2PTE 0x80013000 OR (PTE_V OR PTE_R OR PTE_W OR PTE_U)) AND PTE_U \<noteq> 0"
  by (simp_all add: PTE2PA_def PA2PTE_def pte_flag_defs)

lemma user_mem_ex_walk:
  "walk_ro 2 user_mem_ex 0x80010000 0 = 0x80012000" "walk_path 2 user_mem_ex 0x80010000 0 = [0x80010000, 0x80011000, 0x80012000]"
proof -
  have l: "(2::nat) = Suc (Suc 0)" by simp
  show "walk_ro 2 user_mem_ex 0x80010000 0 = 0x80012000" "walk_path 2 user_mem_ex 0x80010000 0 = [0x80010000, 0x80011000, 0x80012000]"
    using user_mem_ex_loads user_mem_ex_ptes by (simp_all add: l pte_addr_def PX_def Let_def)
qed

lemma PGROUNDDOWN_first: "va < PGSIZE \<Longrightarrow> PGROUNDDOWN va = 0"
  by (rule unat_eqI) (simp add: unat_PGROUNDDOWN PGSIZE_def word_less_nat_alt)

lemma user_mem_ex_addr: "va < PGSIZE \<Longrightarrow> user_addr user_mem_ex 0x80010000 va = Some (0x80013000 + va)"
  using user_mem_ex_loads user_mem_ex_walk user_mem_ex_ptes
  by (simp add: user_addr_def user_page_def PGROUNDDOWN_first MAXVA_def Let_def)

subsection \<open>Copies to a user or kernel address\<close>

text \<open>
  \<^verbatim>\<open>either_copyout\<close> and \<^verbatim>\<open>either_copyin\<close> of \<^verbatim>\<open>kernel/proc.c\<close>. Their second argument is a user address,
  or a kernel address: of a page of physical memory, or of a local variable of the caller, whose
  bytes the caller of the model keeps itself.
\<close>

datatype addr = UserAddr u64 | KernAddr u64 | Local

fun addr_plus :: "addr \<Rightarrow> u64 \<Rightarrow> addr" where
  "addr_plus (UserAddr a) n = UserAddr (a + n)"
| "addr_plus (KernAddr a) n = KernAddr (a + n)"
| "addr_plus Local n = Local"

fun either_copyout ::
    "addr \<Rightarrow> u8 list \<Rightarrow> 'z kvm_scheme \<Rightarrow> ('z kvm_scheme, int \<times> 'z kvm_scheme) res" where
  "either_copyout (UserAddr dst) src s =
     with_proc s (\<lambda>p. copyout (p_pagetable (procs s p)) dst src s)"
| "either_copyout (KernAddr dst) src s = Inr (0, set_mem (write_bytes (mem s) dst src) s)"
| "either_copyout Local src s = Inr (0, s)"

text \<open>For a local source the caller passes the bytes itself.\<close>

fun either_copyin ::
    "addr \<Rightarrow> u8 list \<Rightarrow> nat \<Rightarrow> 'z kvm_scheme \<Rightarrow> ('z kvm_scheme, int \<times> u8 list) res" where
  "either_copyin (UserAddr src) loc len s =
     with_proc s (\<lambda>p. copyin (p_pagetable (procs s p)) src len s)"
| "either_copyin (KernAddr src) loc len s = Inr (0, read_bytes (mem s) src len)"
| "either_copyin Local loc len s = Inr (0, take len loc)"

subsection \<open>Properties\<close>

text \<open>
  C27. \<^verbatim>\<open>copyin\<close> never panics, changes nothing, and stores exactly the bytes of user memory from the
  source address up to the first one that the page table does not map for the user; it returns 0
  when that is all of them and -1 otherwise.
\<close>

theorem copyin_exact:
  "copyin pt va n s =
    (let bs = mapped_prefix (user_bytes (mem s) pt va n)
     in Inr (if None \<notin> set (user_bytes (mem s) pt va n) then 0 else -1, bs))"
  using mapped_prefix_full [of "user_bytes (mem s) pt va n"] by (simp add: copyin_eq Let_def)

text \<open>
  C28. \<^verbatim>\<open>copyinstr\<close> never panics and returns 0 exactly when a nul byte occurs among the first
  \<open>max\<close> bytes before any unmapped one; it has then stored the string with its nul, and otherwise
  the mapped bytes.
\<close>

theorem copyinstr_exact:
  "copyinstr pt va n s =
    (let bs = mapped_prefix (user_bytes (mem s) pt va n)
     in Inr (if 0 \<in> set bs then (0, takeWhile (\<lambda>b. b \<noteq> 0) bs @ [0]) else (-1, bs)))"
  by (simp add: copyinstr_eq copyinstr_result_def Let_def)

end
