(* ===== verification/Ring.thy ===== *)
theory Ring
  imports Xv6_Base
begin

section \<open>Ring buffers with free-running counters\<close>

text \<open>
  The pipe, the UART's transmit buffer and the console's input buffer share one technique: a read
  and a write counter that only ever increase (and wrap around at the width of the integer), and
  an array indexed by the counter modulo its size. It works because the size divides the range of
  the counter. The locales \<open>fifo\<close> and \<open>bounded_fifo\<close> are the contract of such a buffer; what follows from it is that
  the buffer refines a bounded queue, so that what comes out is what went in, in order.
\<close>

definition ring_items :: "nat \<Rightarrow> (nat \<Rightarrow> 'b) \<Rightarrow> 'a::len word \<Rightarrow> 'a word \<Rightarrow> 'b list" where
  "ring_items N buf r w = map (\<lambda>k. buf (unat (r + of_nat k) mod N)) [0..<unat (w - r)]"

lemma length_ring_items [simp]: "length (ring_items N buf r w) = unat (w - r)"
  by (simp add: ring_items_def)

lemma mod_of_unat_plus:
  fixes r :: "'a::len word"
  assumes "N dvd 2 ^ LENGTH('a)" and "k < 2 ^ LENGTH('a)"
  shows "unat (r + of_nat k) mod N = (unat r + k) mod N"
proof -
  have "unat (r + of_nat k) = (unat r + k) mod 2 ^ LENGTH('a)"
    using assms(2) by (simp add: unat_word_ariths unat_of_nat take_bit_nat_eq_self)
  then show ?thesis using assms(1) by (simp add: mod_mod_cancel)
qed

lemma ring_index_neq:
  fixes r w :: "'a::len word"
  assumes "N dvd 2 ^ LENGTH('a)" and "unat (w - r) < N" and "k < unat (w - r)"
  shows "unat (r + of_nat k) mod N \<noteq> unat w mod N"
proof
  let ?d = "unat (w - r)"
  assume eq: "unat (r + of_nat k) mod N = unat w mod N"
  have lt: "k < 2 ^ LENGTH('a)" "?d < 2 ^ LENGTH('a)"
    using less_trans [OF assms(3) unat_less_exp] unat_less_exp by blast+
  have "unat w mod N = (unat r + ?d) mod N"
    using mod_of_unat_plus [OF assms(1) lt(2), of r] by simp
  then have "(unat r + k) mod N = (unat r + ?d) mod N"
    using eq mod_of_unat_plus [OF assms(1) lt(1), of r] by simp
  then have "N dvd ?d - k" using assms(3) by (metis add_diff_cancel_left less_imp_le
        mod_eq_dvd_iff_nat nat_add_left_cancel_le)
  moreover have "0 < ?d - k" "?d - k < N" using assms(2,3) by auto
  ultimately show False by (auto dest: dvd_imp_le)
qed

lemma unat_succ_diff:
  fixes r w :: "'a::len word"
  assumes "unat (w - r) < N" and "N < 2 ^ LENGTH('a)"
  shows "unat (w + 1 - r) = Suc (unat (w - r))"
proof -
  have eq: "w + 1 - r = (w - r) + 1" by simp
  have "unat (w - r) + unat (1 :: 'a word) < 2 ^ LENGTH('a)" using assms by simp
  then show ?thesis unfolding eq by (simp add: unat_plus_le)
qed

lemma ring_put:
  fixes r w :: "'a::len word"
  assumes "N dvd 2 ^ LENGTH('a)" and "N < 2 ^ LENGTH('a)" and "unat (w - r) < N"
  shows "ring_items N (buf(unat w mod N := c)) r (w + 1) = ring_items N buf r w @ [c]"
proof -
  have "r + of_nat (unat (w - r)) = w" by simp
  moreover have "map (\<lambda>k. (buf(unat w mod N := c)) (unat (r + of_nat k) mod N)) [0..<unat (w - r)] =
    map (\<lambda>k. buf (unat (r + of_nat k) mod N)) [0..<unat (w - r)]"
    using ring_index_neq [OF assms(1,3)] by auto
  ultimately show ?thesis
    using unat_succ_diff [OF assms(3,2)] by (simp add: ring_items_def)
qed

lemma ring_get:
  fixes r w :: "'a::len word"
  assumes "r \<noteq> w"
  shows "ring_items N buf r w = buf (unat r mod N) # ring_items N buf (r + 1) w"
proof -
  have ne: "w - r \<noteq> 0" using assms by simp
  have eq: "w - (r + 1) = (w - r) - 1" by simp
  have d: "unat (w - r) = Suc (unat (w - (r + 1)))"
    unfolding eq unat_minus_one [OF ne] using ne by (simp add: unat_gt_0)
  show ?thesis unfolding ring_items_def d
    by (simp only: upt_conv_Cons zero_less_Suc list.map map_Suc_upt [symmetric] map_map o_def)
      (simp add: algebra_simps)
qed

lemma ring_unput:
  fixes r w :: "'a::len word"
  assumes "r \<noteq> w"
  shows "ring_items N buf r w = ring_items N buf r (w - 1) @ [buf (unat (w - 1) mod N)]"
proof -
  have ne: "w - r \<noteq> 0" using assms by simp
  have eq: "w - 1 - r = (w - r) - 1" by simp
  have d: "unat (w - r) = Suc (unat (w - 1 - r))"
    unfolding eq unat_minus_one [OF ne] using ne by (simp add: unat_gt_0)
  have "r + of_nat (unat (w - 1 - r)) = w - 1" by simp
  then show ?thesis unfolding ring_items_def d by simp
qed

lemma ring_split:
  fixes r w e :: "'a::len word"
  assumes "unat (w - r) + unat (e - w) < 2 ^ LENGTH('a)"
  shows "unat (e - r) = unat (w - r) + unat (e - w)"
    and "ring_items N buf r e = ring_items N buf r w @ ring_items N buf w e"
proof -
  have sum: "e - r = (w - r) + (e - w)" by simp
  show d: "unat (e - r) = unat (w - r) + unat (e - w)"
    unfolding sum using assms by (rule unat_plus_le)
  have upt: "[0..<unat (w - r) + unat (e - w)] =
    [0..<unat (w - r)] @ map (\<lambda>k. unat (w - r) + k) [0..<unat (e - w)]"
    using upt_add_eq_append [of 0 "unat (w - r)" "unat (e - w)"] map_add_upt [of "unat (w - r)"]
    by (simp add: add.commute)
  have shift: "r + of_nat (unat (w - r) + k) = w + of_nat k" for k by simp
  show "ring_items N buf r e = ring_items N buf r w @ ring_items N buf w e"
    unfolding ring_items_def d upt map_append map_map o_def shift ..
qed

subsection \<open>First in, first out\<close>

datatype 'b qop = Put 'b | Get

text \<open>
  Runs a sequence of operations on a buffer, with the tests that the code makes: a put is skipped when the buffer says that it
  is full, a get when it says that it is empty. The results are the elements that went in, those that came out and the buffer.
\<close>

fun run_ops :: "('b \<Rightarrow> 's \<Rightarrow> 's) \<Rightarrow> ('s \<Rightarrow> 'b \<times> 's) \<Rightarrow> ('s \<Rightarrow> bool) \<Rightarrow> ('s \<Rightarrow> bool) \<Rightarrow>
    'b qop list \<Rightarrow> 's \<Rightarrow> 'b list \<times> 'b list \<times> 's" where
  "run_ops enq deq full nothing [] s = ([], [], s)"
| "run_ops enq deq full nothing (Put b # ops) s =
     (if full s then run_ops enq deq full nothing ops s
      else (let (i, p, t) = run_ops enq deq full nothing ops (enq b s) in (b # i, p, t)))"
| "run_ops enq deq full nothing (Get # ops) s =
     (if nothing s then run_ops enq deq full nothing ops s
      else (let (b, s) = deq s; (i, p, t) = run_ops enq deq full nothing ops s in (i, b # p, t)))"

text \<open>The same on the specification: a list of at most \<open>cap\<close> elements.\<close>

definition queue_ops :: "nat \<Rightarrow> 'b qop list \<Rightarrow> 'b list \<Rightarrow> 'b list \<times> 'b list \<times> 'b list" where
  "queue_ops cap = run_ops (\<lambda>b xs. xs @ [b]) (\<lambda>xs. (hd xs, tl xs)) (\<lambda>xs. length xs = cap) (\<lambda>xs. xs = [])"

text \<open>What was inside and what was put in comes out in order; the rest is still inside, and the bound is kept.\<close>

lemma queue_ops_fifo:
  "queue_ops cap ops xs = (ins, outs, ys) \<Longrightarrow> length xs \<le> cap \<Longrightarrow> xs @ ins = outs @ ys \<and> length ys \<le> cap"
  unfolding queue_ops_def
proof (induction ops arbitrary: xs ins outs)
  case (Cons op ops)
  show ?case
  proof (cases op)
    case (Put b)
    then show ?thesis using Cons by (fastforce split: if_splits prod.splits)
  next
    case Get
    then show ?thesis using Cons by (cases xs) (fastforce split: prod.splits)+
  qed
qed simp

locale fifo =
  fixes enq :: "'b \<Rightarrow> 's \<Rightarrow> 's" and deq :: "'s \<Rightarrow> 'b \<times> 's" and items :: "'s \<Rightarrow> 'b list" and cap :: nat
  assumes items_enq: "length (items s) < cap \<Longrightarrow> items (enq b s) = items s @ [b]"
    and items_deq: "items s = b # bs \<Longrightarrow> deq s = (b, s') \<Longrightarrow> items s' = bs"
    and deq_head: "items s = b # bs \<Longrightarrow> fst (deq s) = b"

text \<open>A buffer that can tell whether it is full or empty.\<close>

locale bounded_fifo = fifo enq deq items cap
  for enq :: "'b \<Rightarrow> 's \<Rightarrow> 's" and deq :: "'s \<Rightarrow> 'b \<times> 's" and items :: "'s \<Rightarrow> 'b list" and cap :: nat +
  fixes full :: "'s \<Rightarrow> bool" and nothing :: "'s \<Rightarrow> bool"
  assumes full_iff: "length (items s) \<le> cap \<Longrightarrow> full s \<longleftrightarrow> length (items s) = cap"
    and nothing_iff: "nothing s \<longleftrightarrow> items s = []"
begin

text \<open>Every run refines the run of the specification.\<close>

lemma run_refines:
  "run_ops enq deq full nothing ops s = (ins, outs, t) \<Longrightarrow> length (items s) \<le> cap \<Longrightarrow>
    queue_ops cap ops (items s) = (ins, outs, items t)"
  unfolding queue_ops_def
proof (induction ops arbitrary: s ins outs)
  case (Cons op ops)
  show ?case
  proof (cases op)
    case (Put b)
    show ?thesis
    proof (cases "full s")
      case True
      then show ?thesis using Cons full_iff [of s] Put by simp
    next
      case False
      then have "items (enq b s) = items s @ [b]" "length (items s) < cap" using items_enq [of s b] full_iff [of s] Cons.prems(2) by auto
      then show ?thesis using Cons False Put by (fastforce split: prod.splits)
    qed
  next
    case Get
    show ?thesis
    proof (cases "items s")
      case ne: (Cons b bs)
      obtain s' where s': "deq s = (b, s')" using deq_head [OF ne] by (cases "deq s") auto
      moreover have "items s' = bs" by (rule items_deq [OF ne s'])
      ultimately show ?thesis
        using Cons.prems Cons.IH [of s'] Get ne nothing_iff [of s] by (fastforce split: prod.splits)
    qed (use Cons.prems Cons.IH [of s] Get nothing_iff [of s] in simp)
  qed
qed simp

end

end
