(* ===== verification/Pipe.thy ===== *)
theory Pipe
  imports Vm Ring
begin

section \<open>Pipes\<close>

text \<open>
  \<^verbatim>\<open>kernel/pipe.c\<close>, except \<^verbatim>\<open>pipealloc\<close>, which is in theory \<open>File\<close>. A pipe lives in a page of its own
  from \<^verbatim>\<open>kalloc\<close>; the model keeps its fields in a table by that page's address. \<^verbatim>\<open>pipewrite\<close> and
  \<^verbatim>\<open>piperead\<close> run until they return or sleep; the \<open>_resume\<close> functions are what runs after the sleep,
  with the local variable \<^verbatim>\<open>i\<close> as it was.
\<close>

definition PIPESIZE :: nat where "PIPESIZE = 512"

record pipe =
  pi_data :: "nat \<Rightarrow> u8"
  pi_nread :: u32
  pi_nwrite :: u32
  pi_readopen :: bool
  pi_writeopen :: bool

record kpipe = kvm +
  pipes :: "u64 \<Rightarrow> pipe"

definition upd_pipe :: "u64 \<Rightarrow> (pipe \<Rightarrow> pipe) \<Rightarrow> 'z kpipe_scheme \<Rightarrow> 'z kpipe_scheme" where
  "upd_pipe pi f s = s\<lparr>pipes := (pipes s)(pi := f (pipes s pi))\<rparr>"

text \<open>\<^verbatim>\<open>pi->data[pi->nwrite++ % PIPESIZE] = ch\<close> and \<^verbatim>\<open>ch = pi->data[pi->nread++ % PIPESIZE]\<close>.\<close>

definition pipe_put :: "u8 \<Rightarrow> pipe \<Rightarrow> pipe" where
  "pipe_put ch p = p\<lparr>pi_data := (pi_data p)(unat (pi_nwrite p) mod PIPESIZE := ch),
     pi_nwrite := pi_nwrite p + 1\<rparr>"

definition pipe_get :: "pipe \<Rightarrow> u8 \<times> pipe" where
  "pipe_get p = (pi_data p (unat (pi_nread p) mod PIPESIZE), p\<lparr>pi_nread := pi_nread p + 1\<rparr>)"

definition pipe_full :: "pipe \<Rightarrow> bool" where
  "pipe_full p \<longleftrightarrow> pi_nwrite p = pi_nread p + of_nat PIPESIZE"

definition pipe_empty :: "pipe \<Rightarrow> bool" where
  "pipe_empty p \<longleftrightarrow> pi_nread p = pi_nwrite p"

definition pipeclose :: "u64 \<Rightarrow> bool \<Rightarrow> 'z kpipe_scheme \<Rightarrow> ('z kpipe_scheme, 'z kpipe_scheme) res" where
  "pipeclose pi writable s =
     andthen (acquire_lk (PipeLock pi) s) (\<lambda>s.
     andthen
       (if writable
        then wakeup (PipeReadChan pi) (upd_pipe pi (\<lambda>p. p\<lparr>pi_writeopen := False\<rparr>) s)
        else wakeup (PipeWriteChan pi) (upd_pipe pi (\<lambda>p. p\<lparr>pi_readopen := False\<rparr>) s)) (\<lambda>s.
     if \<not> pi_readopen (pipes s pi) \<and> \<not> pi_writeopen (pipes s pi)
     then andthen (release_lk (PipeLock pi) s) (kfree pi)
     else release_lk (PipeLock pi) s))"

subsection \<open>Writing\<close>

definition pipewrite_done ::
    "u64 \<Rightarrow> int \<Rightarrow> 'z kpipe_scheme \<Rightarrow> ('z kpipe_scheme, int \<times> 'z kpipe_scheme) res" where
  "pipewrite_done pi i s =
     andthen (wakeup (PipeReadChan pi) s) (\<lambda>s.
     andthen (release_lk (PipeLock pi) s) (\<lambda>s. Inr (i, s)))"

function pipewrite_loop ::
    "u64 \<Rightarrow> nat \<Rightarrow> u64 \<Rightarrow> int \<Rightarrow> int \<Rightarrow> 'z kpipe_scheme \<Rightarrow> ('z kpipe_scheme, int \<times> 'z kpipe_scheme) res" where
  "pipewrite_loop pi pr addr n i s =
     (if i < n then
        if \<not> pi_readopen (pipes s pi) \<or> p_killed (procs s pr) then
          andthen (release_lk (PipeLock pi) s) (\<lambda>s. Inr (-1, s))
        else if pipe_full (pipes s pi) then
          andthen (wakeup (PipeReadChan pi) s) (sleep (PipeWriteChan pi) (PipeLock pi))
        else
          andthen (copyin (p_pagetable (procs s pr)) (addr + of_int i) 1 s) (\<lambda>(r, ch).
          if r = -1 then pipewrite_done pi i s
          else pipewrite_loop pi pr addr n (i + 1) (upd_pipe pi (pipe_put (hd ch)) s))
      else pipewrite_done pi i s)"
  by pat_completeness auto
termination
  by (relation "measure (\<lambda>(_, _, _, n, i, _). nat (n - i))") auto

definition pipewrite ::
    "u64 \<Rightarrow> u64 \<Rightarrow> int \<Rightarrow> 'z kpipe_scheme \<Rightarrow> ('z kpipe_scheme, int \<times> 'z kpipe_scheme) res" where
  "pipewrite pi addr n s = with_proc s (\<lambda>pr.
     andthen (acquire_lk (PipeLock pi) s) (pipewrite_loop pi pr addr n 0))"

definition pipewrite_resume ::
    "u64 \<Rightarrow> u64 \<Rightarrow> int \<Rightarrow> int \<Rightarrow> 'z kpipe_scheme \<Rightarrow> ('z kpipe_scheme, int \<times> 'z kpipe_scheme) res" where
  "pipewrite_resume pi addr n i s = with_proc s (\<lambda>pr.
     andthen (sleep_resume (PipeLock pi) s) (pipewrite_loop pi pr addr n i))"

subsection \<open>Reading\<close>

definition piperead_done ::
    "u64 \<Rightarrow> int \<Rightarrow> 'z kpipe_scheme \<Rightarrow> ('z kpipe_scheme, int \<times> 'z kpipe_scheme) res" where
  "piperead_done pi i s =
     andthen (wakeup (PipeWriteChan pi) s) (\<lambda>s.
     andthen (release_lk (PipeLock pi) s) (\<lambda>s. Inr (i, s)))"

function piperead_copy ::
    "u64 \<Rightarrow> nat \<Rightarrow> u64 \<Rightarrow> int \<Rightarrow> int \<Rightarrow> 'z kpipe_scheme \<Rightarrow> ('z kpipe_scheme, int \<times> 'z kpipe_scheme) res" where
  "piperead_copy pi pr addr n i s =
     (if i < n then
        if pipe_empty (pipes s pi) then piperead_done pi i s
        else
          (let (ch, p) = pipe_get (pipes s pi); s = upd_pipe pi (\<lambda>_. p) s in
           andthen (copyout (p_pagetable (procs s pr)) (addr + of_int i) [ch] s) (\<lambda>(r, s).
           if r = -1 then piperead_done pi i s
           else piperead_copy pi pr addr n (i + 1) s))
      else piperead_done pi i s)"
  by pat_completeness auto
termination
  by (relation "measure (\<lambda>(_, _, _, n, i, _). nat (n - i))") auto

definition piperead_wait ::
    "u64 \<Rightarrow> nat \<Rightarrow> u64 \<Rightarrow> int \<Rightarrow> 'z kpipe_scheme \<Rightarrow> ('z kpipe_scheme, int \<times> 'z kpipe_scheme) res" where
  "piperead_wait pi pr addr n s =
     (if pipe_empty (pipes s pi) \<and> pi_writeopen (pipes s pi) then
        if p_killed (procs s pr) then andthen (release_lk (PipeLock pi) s) (\<lambda>s. Inr (-1, s))
        else sleep (PipeReadChan pi) (PipeLock pi) s
      else piperead_copy pi pr addr n 0 s)"

definition piperead ::
    "u64 \<Rightarrow> u64 \<Rightarrow> int \<Rightarrow> 'z kpipe_scheme \<Rightarrow> ('z kpipe_scheme, int \<times> 'z kpipe_scheme) res" where
  "piperead pi addr n s = with_proc s (\<lambda>pr.
     andthen (acquire_lk (PipeLock pi) s) (piperead_wait pi pr addr n))"

definition piperead_resume ::
    "u64 \<Rightarrow> u64 \<Rightarrow> int \<Rightarrow> 'z kpipe_scheme \<Rightarrow> ('z kpipe_scheme, int \<times> 'z kpipe_scheme) res" where
  "piperead_resume pi addr n s = with_proc s (\<lambda>pr.
     andthen (sleep_resume (PipeLock pi) s) (piperead_wait pi pr addr n))"

declare pipewrite_loop.simps [simp del] piperead_copy.simps [simp del]

subsection \<open>The buffer is a queue\<close>

definition pipe_items :: "pipe \<Rightarrow> u8 list" where
  "pipe_items p = ring_items PIPESIZE (pi_data p) (pi_nread p) (pi_nwrite p)"

definition pipe_ok :: "pipe \<Rightarrow> bool" where
  "pipe_ok p \<longleftrightarrow> length (pipe_items p) \<le> PIPESIZE"

lemma pipe_empty_iff: "pipe_empty p \<longleftrightarrow> pipe_items p = []"
proof -
  have "pipe_items p = [] \<longleftrightarrow> unat (pi_nwrite p - pi_nread p) = 0"
    by (simp flip: length_0_conv add: pipe_items_def)
  then show ?thesis by (auto simp: pipe_empty_def unat_eq_0)
qed

lemma pipe_full_iff: "pipe_ok p \<Longrightarrow> pipe_full p \<longleftrightarrow> length (pipe_items p) = PIPESIZE"
proof -
  have "length (pipe_items p) = PIPESIZE \<longleftrightarrow> pi_nwrite p - pi_nread p = of_nat PIPESIZE"
    unfolding pipe_items_def length_ring_items
    by (auto intro!: unat_eqI simp: PIPESIZE_def)
  also have "\<dots> \<longleftrightarrow> pipe_full p" by (auto simp: pipe_full_def algebra_simps)
  finally show ?thesis by simp
qed

interpretation pipe_queue: bounded_fifo pipe_put pipe_get pipe_items PIPESIZE pipe_full pipe_empty
proof (unfold_locales, goal_cases)
  case (1 s b)
  then show ?case
    by (simp add: pipe_items_def pipe_put_def PIPESIZE_def ring_put)
next
  case (2 s b bs s')
  then have "pi_nread s \<noteq> pi_nwrite s" by (auto simp: pipe_items_def ring_items_def)
  from ring_get [OF this, of PIPESIZE "pi_data s"] 2 show ?case
    by (auto simp: pipe_items_def pipe_get_def)
next
  case (3 s b bs)
  then have "pi_nread s \<noteq> pi_nwrite s" by (auto simp: pipe_items_def ring_items_def)
  from ring_get [OF this, of PIPESIZE "pi_data s"] 3 show ?case
    by (auto simp: pipe_items_def pipe_get_def)
qed (simp_all add: pipe_full_iff pipe_empty_iff pipe_ok_def)

lemma pipe_put_ok: "pipe_ok p \<Longrightarrow> \<not> pipe_full p \<Longrightarrow> pipe_ok (pipe_put b p)"
  using pipe_full_iff [of p] pipe_queue.items_enq [of p b] by (simp add: pipe_ok_def)

subsection \<open>What \<^verbatim>\<open>pipewrite\<close> does\<close>

lemma upd_pipe_fields [simp, frame_simps]:
  "held (upd_pipe pi f s) = held s" "curproc (upd_pipe pi f s) = curproc s"
  "procs (upd_pipe pi f s) = procs s" "mem (upd_pipe pi f s) = mem s"
  "pipes (upd_pipe pi f s) pi = f (pipes s pi)"
  by (simp_all add: upd_pipe_def)

lemma upd_pipe_upd_pipe: "upd_pipe pi f (upd_pipe pi g s) = upd_pipe pi (\<lambda>p. f (g p)) s"
  by (simp add: upd_pipe_def)

lemma user_bytes_Suc: "user_bytes m pt va (Suc n) = user_byte m pt va # user_bytes m pt (va + 1) n"
  using user_bytes_add [of m pt va 1 n] by (simp add: user_bytes_def)

lemma copyin_1:
  "copyin pt va (Suc 0) s = Inr (case user_byte (mem s) pt va of None \<Rightarrow> (-1, []) | Some b \<Rightarrow> (0, [b]))"
  by (auto simp: copyin_eq user_bytes_def mapped_prefix_def Let_def split: option.splits)

definition pipe_puts :: "u8 list \<Rightarrow> pipe \<Rightarrow> pipe" where
  "pipe_puts bs p = fold pipe_put bs p"

lemma pipe_puts_simps [simp]:
  "pipe_puts [] p = p" "pipe_puts (b # bs) p = pipe_puts bs (pipe_put b p)"
  by (simp_all add: pipe_puts_def)

lemma pipe_puts_Cons: "pipe_puts (b # bs) = (\<lambda>p. pipe_puts bs (pipe_put b p))"
  by (simp add: fun_eq_iff)

lemma pipe_put_open [simp]:
  "pi_readopen (pipe_put b p) = pi_readopen p" "pi_writeopen (pipe_put b p) = pi_writeopen p"
  by (simp_all add: pipe_put_def)

lemma pipe_puts_items:
  "length (pipe_items p) + length bs \<le> PIPESIZE \<Longrightarrow> pipe_items (pipe_puts bs p) = pipe_items p @ bs"
  by (induction bs arbitrary: p) (auto simp: pipe_queue.items_enq)

text \<open>
  The loop writes the mapped bytes as far as there is room. It is done when it has written all
  bytes or met an unmapped one while there is room; otherwise it wakes the readers and sleeps.
\<close>

lemma pipewrite_loop_eq:
  fixes addr :: u64 and s :: "'z kpipe_scheme"
  assumes "pipe_ok (pipes s pi)" and "pi_readopen (pipes s pi)" and "\<not> p_killed (procs s pr)"
    and "i \<le> n"
  defines "bs \<equiv> mapped_prefix (user_bytes (mem s) (p_pagetable (procs s pr)) (addr + of_int i) (nat (n - i)))"
    and "room \<equiv> PIPESIZE - length (pipe_items (pipes s pi))"
  defines "k \<equiv> min (length bs) room"
  defines "t \<equiv> upd_pipe pi (pipe_puts (take k bs)) s"
  shows "pipewrite_loop pi pr addr n i s =
    (if k = nat (n - i) \<or> k < room then pipewrite_done pi (i + int k) t
     else andthen (wakeup (PipeReadChan pi) t) (sleep (PipeWriteChan pi) (PipeLock pi)))"
  using assms(1-4) unfolding t_def k_def bs_def room_def
proof (induction "nat (n - i)" arbitrary: i s)
  case 0
  then show ?case
    by (simp add: pipewrite_loop.simps [of pi pr addr i i s] user_bytes_def upd_pipe_def)
next
  case (Suc m)
  let ?p = "pipes s pi" and ?a = "addr + of_int i" and ?pt = "p_pagetable (procs s pr)"
  let ?u = "user_byte (mem s) ?pt ?a"
  have lt: "i < n" and m: "nat (n - i) = Suc m" "nat (n - (i + 1)) = m" using Suc.hyps(2) by auto
  have ok: "length (pipe_items ?p) \<le> PIPESIZE" using Suc.prems(1) by (simp add: pipe_ok_def)
  have next_a: "?a + 1 = addr + of_int (i + 1)" by simp
  consider (full) "pipe_full ?p" | (unmapped) "\<not> pipe_full ?p" "?u = None"
    | (byte) b where "\<not> pipe_full ?p" "?u = Some b" by (cases ?u) auto
  then show ?case
  proof cases
    case full
    then have "PIPESIZE - length (pipe_items ?p) = 0" using pipe_full_iff [OF Suc.prems(1)] by simp
    with full lt Suc.prems show ?thesis
      by (simp add: pipewrite_loop.simps [of pi pr addr n i s] upd_pipe_def)
  next
    case unmapped
    then have "0 < PIPESIZE - length (pipe_items ?p)"
      using pipe_full_iff [OF Suc.prems(1)] ok by simp
    with unmapped lt Suc.prems m show ?thesis
      by (simp add: pipewrite_loop.simps [of pi pr addr n i s] copyin_1 user_bytes_Suc upd_pipe_def)
  next
    case (byte b)
    let ?s = "upd_pipe pi (pipe_put b) s"
    have room: "length (pipe_items ?p) < PIPESIZE"
      using byte pipe_full_iff [OF Suc.prems(1)] ok by simp
    have items: "pipe_items (pipe_put b ?p) = pipe_items ?p @ [b]"
      by (rule pipe_queue.items_enq [OF room])
    have "m = nat (n - (i + 1))" using m by simp
    note IH = Suc.hyps(1) [OF this, of ?s]
    have eq: "pipewrite_loop pi pr addr n i s = pipewrite_loop pi pr addr n (i + 1) ?s"
      using byte lt Suc.prems by (simp add: pipewrite_loop.simps [of pi pr addr n i s] copyin_1)
    have ok': "pipe_ok (pipe_put b ?p)" using pipe_put_ok byte Suc.prems(1) by blast
    define rest where "rest = mapped_prefix (user_bytes (mem s) ?pt (addr + of_int (i + 1)) m)"
    define k' where "k' = min (length rest) (PIPESIZE - Suc (length (pipe_items ?p)))"
    have bs: "mapped_prefix (user_bytes (mem s) ?pt ?a (Suc m)) = b # rest"
      unfolding user_bytes_Suc rest_def next_a using byte by simp
    have k: "min (length (b # rest)) (PIPESIZE - length (pipe_items ?p)) = Suc k'"
      using room by (auto simp: k'_def)
    have IH': "pipewrite_loop pi pr addr n (i + 1) ?s =
      (if k' = m \<or> k' < PIPESIZE - Suc (length (pipe_items ?p))
       then pipewrite_done pi (i + 1 + int k') (upd_pipe pi (pipe_puts (take k' rest)) ?s)
       else andthen (wakeup (PipeReadChan pi) (upd_pipe pi (pipe_puts (take k' rest)) ?s))
         (sleep (PipeWriteChan pi) (PipeLock pi)))"
      using IH [unfolded upd_pipe_fields m(2) items length_append_singleton,
        folded rest_def, folded k'_def] Suc.prems ok' lt by simp
    have lt_iff: "Suc k' < PIPESIZE - length (pipe_items ?p) \<longleftrightarrow>
      k' < PIPESIZE - Suc (length (pipe_items ?p))" using room by auto
    show ?thesis
      unfolding eq IH' m(1) bs k lt_iff
      by (simp add: upd_pipe_upd_pipe pipe_puts_Cons add.assoc)
  qed
qed

subsection \<open>What \<^verbatim>\<open>piperead\<close> does\<close>

lemma pipe_get_items:
  "\<not> pipe_empty p \<Longrightarrow> pipe_get p = (b, q) \<Longrightarrow> pipe_items p = b # pipe_items q"
  unfolding pipe_empty_iff
  using pipe_queue.items_deq [of p] pipe_queue.deq_head [of p] by (cases "pipe_items p") auto

text \<open>
  The copying loop, from byte \<open>c\<close> of the buffer on. \<open>A j\<close> is the physical address of byte \<open>j\<close> of the buffer. The loop stores a byte for each
  mapped address until the pipe is empty, the buffer is full, or an address is not mapped; the byte for that address is lost.
\<close>

definition stored :: "(nat \<Rightarrow> u64 option) \<Rightarrow> nat \<Rightarrow> nat \<Rightarrow> nat" where
  "stored A c k = length (takeWhile (\<lambda>j. A j \<noteq> None) [c..<c + k])"

lemma stored_simps [simp]:
  "stored A c 0 = 0" "A c = None \<Longrightarrow> stored A c (Suc k) = 0" "A c = Some x \<Longrightarrow> stored A c (Suc k) = Suc (stored A (Suc c) k)"
  by (simp_all add: stored_def upt_conv_Cons del: upt_Suc)

lemma stored_le: "stored A c k \<le> k"
  unfolding stored_def by (metis add_diff_cancel_left' length_takeWhile_le length_upt)

lemma stored_mapped: "j < stored A c k \<Longrightarrow> A (c + j) \<noteq> None"
proof -
  assume j: "j < stored A c k"
  then have "takeWhile (\<lambda>j. A j \<noteq> None) [c..<c + k] ! j = c + j" using stored_le [of A c k] by (simp add: stored_def takeWhile_nth)
  then show ?thesis using nth_mem [of j "takeWhile (\<lambda>j. A j \<noteq> None) [c..<c + k]"] j by (auto simp: stored_def dest: set_takeWhileD)
qed

text \<open>Stores bytes one after the other, at the addresses that \<open>A\<close> gives for the positions from \<open>c\<close> on.\<close>

fun store_seq :: "(nat \<Rightarrow> u64 option) \<Rightarrow> nat \<Rightarrow> u8 list \<Rightarrow> memory \<Rightarrow> memory" where
  "store_seq A c [] m = m"
| "store_seq A c (b # bs) m = store_seq A (Suc c) bs (m(the (A c) := b))"

lemma store_seq_outside: "(\<And>j. j < length bs \<Longrightarrow> the (A (c + j)) \<noteq> x) \<Longrightarrow> store_seq A c bs m x = m x"
proof (induction bs arbitrary: c m)
  case (Cons b bs)
  have "the (A (Suc c + j)) \<noteq> x" if "j < length bs" for j using Cons.prems [of "Suc j"] that by simp
  then have "store_seq A (Suc c) bs m' x = m' x" for m' by (rule Cons.IH)
  then show ?case using Cons.prems [of 0] by simp
qed simp

lemma store_seq_inside:
  "inj_on (\<lambda>j. the (A j)) {c..<c + length bs} \<Longrightarrow> j < length bs \<Longrightarrow> store_seq A c bs m (the (A (c + j))) = bs ! j"
proof (induction bs arbitrary: c m j)
  case (Cons b bs)
  have inj: "inj_on (\<lambda>j. the (A j)) {Suc c..<Suc c + length bs}" using Cons.prems(1) by (rule inj_on_subset) auto
  show ?case
  proof (cases j)
    case 0
    have "the (A (Suc c + i)) \<noteq> the (A c)" if "i < length bs" for i using inj_onD [OF Cons.prems(1), of "Suc c + i" c] that by auto
    then show ?thesis using 0 store_seq_outside [of bs A "Suc c" "the (A c)"] by simp
  next
    case (Suc i)
    then show ?thesis using Cons.IH [OF inj, of i] Cons.prems(2) by simp
  qed
qed simp

lemma piperead_copy_eq:
  fixes s :: "'z kpipe_scheme" and pi :: u64
  assumes buf: "user_buffer m pt addr n" and same: "\<And>x. x \<notin> buffer_bytes m pt addr n \<Longrightarrow> mem s x = m x"
    and pt: "p_pagetable (procs s pr) = pt" and c: "c \<le> n"
  defines "A \<equiv> \<lambda>j. user_addr m pt (addr + of_nat j)"
  defines "k \<equiv> min (n - c) (length (pipe_items (pipes s pi)))"
  shows "\<exists>q. piperead_copy pi pr addr (int n) (int c) s = piperead_done pi (int (c + stored A c k))
      (set_mem (store_seq A c (take (stored A c k) (pipe_items (pipes s pi))) (mem s)) (upd_pipe pi (\<lambda>_. q) s)) \<and>
    pipe_items q = drop (if stored A c k < k then Suc (stored A c k) else stored A c k) (pipe_items (pipes s pi))"
  using same pt c unfolding k_def
proof (induction "n - c" arbitrary: c s)
  case 0
  then show ?case by (intro exI [of _ "pipes s pi"]) (simp add: piperead_copy.simps upd_pipe_def set_mem_def)
next
  case (Suc d)
  let ?p = "pipes s pi" and ?a = "addr + of_nat c"
  have lt: "c < n" using Suc.hyps(2) by simp
  note step = piperead_copy.simps [of pi pr addr _ "int c" s]
  show ?case
  proof (cases "pipe_empty ?p")
    case True
    then show ?thesis using lt by (intro exI [of _ ?p]) (simp add: step pipe_empty_iff upd_pipe_def set_mem_def)
  next
    case False
    obtain b q where g: "pipe_get ?p = (b, q)" by (cases "pipe_get ?p")
    have items: "pipe_items ?p = b # pipe_items q" by (rule pipe_get_items [OF False g])
    have A: "user_addr (mem s) pt ?a = A c" unfolding A_def by (rule user_buffer_stable [OF buf Suc.prems(1) lt])
    have k: "min (n - c) (length (pipe_items ?p)) = Suc (min (n - Suc c) (length (pipe_items q)))" using lt items by simp
    show ?thesis
    proof (cases "A c")
      case None
      then show ?thesis unfolding k using lt False g Suc.prems(2) A items
        by (intro exI [of _ q]) (simp add: step copyout_1 set_mem_def upd_pipe_def)
    next
      case (Some x)
      let ?t = "set_mem ((mem s)(x := b)) (upd_pipe pi (\<lambda>_. q) s)"
      have run: "piperead_copy pi pr addr (int n) (int c) s = piperead_copy pi pr addr (int n) (int (Suc c)) ?t"
        using lt False g Suc.prems(2) A Some by (simp add: step copyout_1 add.commute)
      have "mem ?t y = m y" if "y \<notin> buffer_bytes m pt addr n" for y
        using that Suc.prems(1) Some lt by (auto simp: buffer_bytes_def A_def set_mem_def)
      moreover have "p_pagetable (procs ?t pr) = pt" using Suc.prems(2) by (simp add: set_mem_def)
      ultimately show ?thesis
        unfolding k run stored_simps(3) [where A = A and c = c and x = x, OF Some] using Suc.hyps(1) [of "Suc c" ?t] Suc.hyps(2) lt items Some
        by (auto simp: set_mem_def upd_pipe_def)
    qed
  qed
qed

lemma piperead_done_eq:
  assumes "no_proc_lock s" and "PipeLock pi \<in> held s"
  shows "piperead_done pi i s =
    Inr (i, s\<lparr>procs := awake_in (PipeWriteChan pi) (curproc s) {0..<NPROC} (procs s), held := held s - {PipeLock pi}\<rparr>)"
  using assms by (simp add: piperead_done_def wakeup_eq release_lk_held)

subsection \<open>Properties\<close>

text \<open>
  C29. The ring buffer of a pipe implements a bounded queue. Run any sequence of writes and reads of single bytes, each guarded by the
  code's own tests \<^verbatim>\<open>nwrite == nread + PIPESIZE\<close> and \<^verbatim>\<open>nread == nwrite\<close>, from any counters, also across the wrap-around at 32
  bits: exactly the bytes go in and come out that go in and come out of a list of at most 512 bytes. So a write is refused exactly
  when 512 bytes are inside, the bytes that were inside followed by the bytes written are the bytes read
  followed by those still inside, and there are never more than 512.
\<close>

theorem pipe_is_fifo:
  assumes "pipe_ok p" and "run_ops pipe_put pipe_get pipe_full pipe_empty ops p = (ins, outs, q)"
  shows "queue_ops PIPESIZE ops (pipe_items p) = (ins, outs, pipe_items q) \<and>
    pipe_items p @ ins = outs @ pipe_items q \<and> length (pipe_items q) \<le> PIPESIZE"
proof -
  have le: "length (pipe_items p) \<le> PIPESIZE" using assms(1) by (simp add: pipe_ok_def)
  have "queue_ops PIPESIZE ops (pipe_items p) = (ins, outs, pipe_items q)" by (rule pipe_queue.run_refines [OF assms(2) le])
  then show ?thesis using queue_ops_fifo [OF _ le] by blast
qed

definition pipe_ex :: pipe where
  "pipe_ex = \<lparr>pi_data = (\<lambda>_. 0), pi_nread = 0xFFFFFFFF, pi_nwrite = 0xFFFFFFFF, pi_readopen = True, pi_writeopen = True\<rparr>"

lemma pipe_ex_ok: "pipe_items pipe_ex = []" "pipe_ok pipe_ex"
  by (simp_all add: pipe_ok_def pipe_items_def pipe_ex_def ring_items_def)

theorem pipe_is_fifo_witness:
  "\<exists>q. run_ops pipe_put pipe_get pipe_full pipe_empty [Put 1, Put 2, Get] pipe_ex = ([1, 2], [1], q) \<and> pipe_items q = [2]"
proof -
  obtain ins outs q where r: "run_ops pipe_put pipe_get pipe_full pipe_empty [Put 1, Put 2, Get] pipe_ex = (ins, outs, q)" by (rule prod_cases3)
  have "queue_ops PIPESIZE [Put 1, Put 2, Get] [] = ([1, 2], [1 :: u8], [2])" by (simp add: queue_ops_def PIPESIZE_def)
  then show ?thesis using pipe_is_fifo [OF pipe_ex_ok(2) r] r by (simp add: pipe_ex_ok)
qed

lemma pipewrite_done_eq:
  assumes "no_proc_lock s" and "PipeLock pi \<in> held s"
  shows "pipewrite_done pi i s =
    Inr (i, s\<lparr>procs := awake_in (PipeReadChan pi) (curproc s) {0..<NPROC} (procs s), held := held s - {PipeLock pi}\<rparr>)"
  using assms by (simp add: pipewrite_done_def wakeup_eq release_lk_held)

text \<open>
  C30. All the ways in which \<^verbatim>\<open>pipewrite\<close> ends, or goes to sleep for the first time. With something to write, it returns -1 and changes
  nothing when the read end is closed or the process has been killed. Otherwise let \<open>bs\<close> be the bytes of user memory from \<open>addr\<close> on up
  to the first unmapped one. If they fit (and, when a byte is unmapped, room is left), the call returns their number, with all of them
  appended to the pipe in order, the sleeping readers woken and the lock released; if not, it fills the pipe with the first of them, wakes
  the readers and goes to sleep, holding only its own process lock.
\<close>

theorem pipewrite_appends:
  fixes addr :: u64 and s :: "'z kpipe_scheme"
  assumes "curproc s = Some pr" and "held s = {}" and "pipe_ok (pipes s pi)" and "0 \<le> n"
  defines "bs \<equiv> mapped_prefix (user_bytes (mem s) (p_pagetable (procs s pr)) addr (nat n))"
    and "room \<equiv> PIPESIZE - length (pipe_items (pipes s pi))"
    and "woken \<equiv> awake_in (PipeReadChan pi) (Some pr) {0..<NPROC} (procs s)"
  shows "if 0 < n \<and> (\<not> pi_readopen (pipes s pi) \<or> p_killed (procs s pr)) then pipewrite pi addr n s = Inr (-1, s)
    else if length bs \<le> room \<and> (length bs = nat n \<or> length bs < room)
    then \<exists>t. pipewrite pi addr n s = Inr (int (length bs), t) \<and>
      pipe_items (pipes t pi) = pipe_items (pipes s pi) @ bs \<and> procs t = woken \<and> mem t = mem s \<and> held t = {}
    else \<exists>t. pipewrite pi addr n s = Inl (Sleeping (PipeWriteChan pi) t) \<and>
      pipe_items (pipes t pi) = pipe_items (pipes s pi) @ take room bs \<and> length (pipe_items (pipes t pi)) = PIPESIZE \<and>
      procs t = woken(pr := (woken pr)\<lparr>p_chan := Some (PipeWriteChan pi), p_state := SLEEPING\<rparr>) \<and> mem t = mem s \<and> held t = {ProcLock pr}"
proof -
  let ?s = "s\<lparr>held := {PipeLock pi}\<rparr>" and ?k = "min (length bs) room"
  let ?t = "upd_pipe pi (pipe_puts (take ?k bs)) ?s"
  have ok: "length (pipe_items (pipes s pi)) \<le> PIPESIZE" using assms(3) by (simp add: pipe_ok_def)
  have le: "length bs \<le> nat n" unfolding bs_def by (metis length_mapped_prefix length_user_bytes)
  have items: "pipe_items (pipes ?t pi) = pipe_items (pipes s pi) @ take ?k bs"
    using ok by (simp add: pipe_puts_items room_def)
  have npl: "no_proc_lock ?t" by (simp add: no_proc_lock_def)
  have start: "pipewrite pi addr n s = pipewrite_loop pi pr addr n 0 ?s" using assms(1,2) by (simp add: pipewrite_def acquire_lk_free)
  show ?thesis
  proof (cases "0 < n \<and> (\<not> pi_readopen (pipes s pi) \<or> p_killed (procs s pr))")
    case True
    then show ?thesis using assms(2) by (simp add: start pipewrite_loop.simps [of pi pr addr n 0] release_lk_held)
  next
    case going: False
    have eq: "pipewrite pi addr n s =
      (if ?k = nat n \<or> ?k < room then pipewrite_done pi (int ?k) ?t
       else andthen (wakeup (PipeReadChan pi) ?t) (sleep (PipeWriteChan pi) (PipeLock pi)))"
    proof (cases "n = 0")
      case True
      then show ?thesis using start by (simp add: pipewrite_loop.simps [of pi pr addr 0 0] bs_def user_bytes_def upd_pipe_def)
    next
      case False
      then show ?thesis using pipewrite_loop_eq [of ?s pi pr 0 n addr] going assms(3,4) by (simp add: start bs_def room_def)
    qed
    show ?thesis
    proof (cases "length bs \<le> room \<and> (length bs = nat n \<or> length bs < room)")
      case True
      then show ?thesis using eq going items pipewrite_done_eq [OF npl, of pi "int ?k"] assms(1) by (auto simp: woken_def min_absorb1)
    next
      case False
      then have k: "?k = room" "\<not> (?k = nat n \<or> ?k < room)" using le by auto
      let ?w = "?t\<lparr>procs := awake_in (PipeReadChan pi) (curproc ?t) {0..<NPROC} (procs ?t)\<rparr>"
      have "sleep (PipeWriteChan pi) (PipeLock pi) ?w = Inl (Sleeping (PipeWriteChan pi)
        ((upd_proc pr (\<lambda>q. q\<lparr>p_chan := Some (PipeWriteChan pi), p_state := SLEEPING\<rparr>) ?w)
          \<lparr>held := {ProcLock pr}\<rparr>))"
        by (rule sleep_eq) (use assms(1) in simp_all)
      then show ?thesis
        using eq k items False going ok npl assms(1) by (auto simp: wakeup_eq upd_proc_def room_def woken_def)
    qed
  qed
qed

text \<open>Process 0 with the page table of the example, whose first three bytes of memory are 1, 2 and 3.\<close>

definition kpipe_ex :: kpipe where
  "kpipe_ex = \<lparr>held = {}, curproc = Some 0, procs = (procs (ksync_ex RUNNING))(0 := (procs (ksync_ex RUNNING) 0)\<lparr>p_pagetable := 0x80010000\<rparr>),
     nextpid = 1, initproc = None, ticks = 0, mem = user_mem_ex, kend = 0x80021000, freelist = 0,
     khart = undefined, kernel_pagetable = 0, ketext = 0, ktrampoline = 0, pipes = (\<lambda>_. pipe_ex)\<rparr>"

lemma user_mem_ex_bytes: "user_bytes user_mem_ex 0x80010000 0 3 = [Some 1, Some 2, Some 3]"
proof -
  have u: "[0..<3] = [0, 1, 2::nat]" by (simp add: numeral_3_eq_3)
  have eight: "le_bytes 8 (0x030201 :: u64) = [1, 2, 3, 0, 0, 0, 0, 0]" by code_simp
  have "user_mem_ex 0x80013000 = 1" "user_mem_ex 0x80013001 = 2" "user_mem_ex 0x80013002 = 3"
    by (simp_all add: user_mem_ex_def store64_def [of _ "0x80013000"] write_bytes_def eight)
  then show ?thesis by (simp add: user_bytes_def user_byte_def user_mem_ex_addr PGSIZE_def u)
qed

theorem pipewrite_appends_witness:
  "\<exists>t. pipewrite 0x80022000 0 3 kpipe_ex = Inr (3, t) \<and> pipe_items (pipes t 0x80022000) = [1, 2, 3]"
proof -
  have e: "curproc kpipe_ex = Some 0" "held kpipe_ex = {}" "pipes kpipe_ex 0x80022000 = pipe_ex" "mem kpipe_ex = user_mem_ex"
    "p_pagetable (procs kpipe_ex 0) = 0x80010000" "\<not> p_killed (procs kpipe_ex 0)"
    by (simp_all add: kpipe_ex_def ksync_ex_def)
  have b: "mapped_prefix (user_bytes user_mem_ex 0x80010000 0 (nat 3)) = [1, 2, 3]" by (simp add: user_mem_ex_bytes)
  have "pi_readopen pipe_ex" by (simp add: pipe_ex_def)
  then show ?thesis
    using pipewrite_appends [OF e(1,2), of "0x80022000" 3 0, unfolded e(3-5) b] pipe_ex_ok e(6) by (auto simp: PIPESIZE_def)
qed

text \<open>
  C31. All the ways in which \<^verbatim>\<open>piperead\<close> ends, or goes to sleep for the first time. On an empty pipe whose write end is open it returns -1
  when the process has been killed and sleeps otherwise, with pipe and memory untouched. In every other case let \<open>k\<close> be the smaller of \<open>n\<close>
  and the number of bytes in the pipe, and \<open>l\<close> the number of addresses from \<open>addr\<close> on that are mapped before the first of \<open>k\<close> that is not. The
  call returns \<open>l\<close>; user memory at \<open>addr\<close> has the first \<open>l\<close> bytes of the pipe in order, and no other byte of memory changes; these bytes
  are gone from the pipe, and one more when \<open>l < k\<close>, since the code takes a byte before it finds that it cannot be stored; the
  sleeping writers are woken. The buffer must not overlap itself or the page table.
\<close>

theorem piperead_takes_prefix:
  fixes addr pi :: u64 and s :: "'z kpipe_scheme"
  assumes "curproc s = Some pr" and "held s = {}" and pt: "p_pagetable (procs s pr) = pt" and buf: "user_buffer (mem s) pt addr n"
  defines "items \<equiv> pipe_items (pipes s pi)" and "A \<equiv> \<lambda>j. user_addr (mem s) pt (addr + of_nat j)"
  defines "k \<equiv> min n (length items)"
  defines "l \<equiv> stored A 0 k"
  shows "if items = [] \<and> pi_writeopen (pipes s pi) then
      if p_killed (procs s pr) then piperead pi addr (int n) s = Inr (-1, s)
      else piperead pi addr (int n) s = Inl (Sleeping (PipeReadChan pi)
        (s\<lparr>procs := (procs s)(pr := (procs s pr)\<lparr>p_chan := Some (PipeReadChan pi), p_state := SLEEPING\<rparr>), held := {ProcLock pr}\<rparr>))
    else \<exists>t. piperead pi addr (int n) s = Inr (int l, t) \<and>
      pipe_items (pipes t pi) = drop (if l < k then Suc l else l) items \<and>
      (\<forall>j < l. user_byte (mem t) pt (addr + of_nat j) = Some (items ! j)) \<and>
      (\<forall>x. (\<forall>j < l. A j \<noteq> Some x) \<longrightarrow> mem t x = mem s x) \<and>
      procs t = awake_in (PipeWriteChan pi) (Some pr) {0..<NPROC} (procs s) \<and> held t = {}"
proof -
  let ?s = "s\<lparr>held := {PipeLock pi}\<rparr>"
  have start: "piperead pi addr (int n) s = piperead_wait pi pr addr (int n) ?s" using assms(1,2) by (simp add: piperead_def acquire_lk_free)
  have e: "pipe_empty (pipes s pi) \<longleftrightarrow> items = []" by (simp add: items_def pipe_empty_iff)
  show ?thesis
  proof (cases "items = [] \<and> pi_writeopen (pipes s pi)")
    case True
    have "(sleep (PipeReadChan pi) (PipeLock pi) ?s :: ('z kpipe_scheme, int \<times> 'z kpipe_scheme) res) = Inl (Sleeping (PipeReadChan pi)
        ((upd_proc pr (\<lambda>q. q\<lparr>p_chan := Some (PipeReadChan pi), p_state := SLEEPING\<rparr>) ?s)\<lparr>held := {ProcLock pr}\<rparr>))"
      by (rule sleep_eq) (use assms(1) in simp_all)
    then show ?thesis using True e assms(2) by (simp add: start piperead_wait_def release_lk_held upd_proc_def)
  next
    case False
    define M where "M = store_seq A 0 (take l items) (mem s)"
    obtain q where q: "piperead_copy pi pr addr (int n) 0 ?s = piperead_done pi (int l) (set_mem M (upd_pipe pi (\<lambda>_. q) ?s))"
      "pipe_items q = drop (if l < k then Suc l else l) items"
      using piperead_copy_eq [of "mem s" pt addr n ?s pr 0 pi] buf pt by (auto simp: l_def k_def A_def items_def M_def)
    let ?u = "set_mem M (upd_pipe pi (\<lambda>_. q) ?s)"
    have "no_proc_lock ?u" "PipeLock pi \<in> held ?u" by (simp_all add: no_proc_lock_def set_mem_def)
    note run = piperead_done_eq [OF this, of "int l"]
    have ll: "length (take l items) = l" "l \<le> n" "l \<le> length items" using stored_le [of A 0 k] by (simp_all add: l_def k_def)
    have mapped: "A j = Some (the (A j))" if "j < l" for j using stored_mapped [of j A 0 k] that by (auto simp: l_def)
    have inj: "inj_on (\<lambda>j. the (A j)) {0..<0 + length (take l items)}"
    proof (rule inj_onI)
      fix i j assume ij: "i \<in> {0..<0 + length (take l items)}" "j \<in> {0..<0 + length (take l items)}" and "the (A i) = the (A j)"
      then have "A i = Some (the (A i))" "A j = Some (the (A i))" "i < n" "j < n" using mapped [of i] mapped [of j] ll by auto
      then show "i = j" using buf unfolding user_buffer_def A_def by blast
    qed
    have out: "M x = mem s x" if "\<forall>j < l. A j \<noteq> Some x" for x
      unfolding M_def by (rule store_seq_outside) (use that mapped ll(1) in fastforce)
    have "M x = mem s x" if "x \<notin> buffer_bytes (mem s) pt addr n" for x
      using that ll(2) by (intro out) (auto simp: buffer_bytes_def A_def)
    then have "user_addr M pt (addr + of_nat j) = A j" if "j < l" for j
      unfolding A_def using that ll(2) by (intro user_buffer_stable [OF buf]) simp_all
    moreover have "A j = Some (the (A j)) \<and> M (the (A j)) = items ! j" if "j < l" for j
      using store_seq_inside [OF inj, of j "mem s"] that mapped [OF that] ll by (simp add: M_def)
    ultimately have "user_byte M pt (addr + of_nat j) = Some (items ! j)" if "j < l" for j
      using that by (metis option.simps(9) user_byte_def)
    then show ?thesis
      using False e run q out assms(1) by (auto simp: start piperead_wait_def set_mem_def)
  qed
qed

text \<open>A read of three bytes from a pipe that holds two stores them at the user's address 0.\<close>

definition kpipe_ex2 :: kpipe where
  "kpipe_ex2 = kpipe_ex\<lparr>pipes := \<lambda>_. \<lparr>pi_data = of_nat, pi_nread = 0xFFFFFFFF, pi_nwrite = 1,
     pi_readopen = True, pi_writeopen = True\<rparr>\<rparr>"

lemma user_mem_ex_buffer: "user_buffer user_mem_ex 0x80010000 0 3"
proof -
  have j3: "j \<in> {0, 1, 2}" if "j < 3" for j :: nat using that by auto
  have a: "user_addr user_mem_ex 0x80010000 (of_nat j) = Some (0x80013000 + of_nat j)" if "j < 3" for j
    using j3 [OF that] by (intro user_mem_ex_addr) (auto simp: PGSIZE_def)
  have p: "PGROUNDDOWN (of_nat j) = 0" if "j < 3" for j :: nat
    using j3 [OF that] by (intro PGROUNDDOWN_first) (auto simp: PGSIZE_def)
  have apart: "a + of_nat k \<noteq> (0x80013000 + of_nat j :: u64)" if "a \<in> {0x80010000, 0x80011000, 0x80012000}" "k < 8" "j < 3" for a :: u64 and j k
  proof -
    have "k \<in> {0, 1, 2, 3, 4, 5, 6, 7}" using that(2) by auto
    then show ?thesis using that(1) j3 [OF that(3)] by auto
  qed
  have "i = j" if "i < 3" "j < 3" "(of_nat i :: u64) = of_nat j" for i j :: nat using j3 [OF that(1)] j3 [OF that(2)] that(3) by auto
  moreover have "a + of_nat k \<notin> buffer_bytes user_mem_ex 0x80010000 0 3" if "a \<in> {0x80010000, 0x80011000, 0x80012000}" "k < 8" for a k
    using apart [OF that] a unfolding buffer_bytes_def by fastforce
  ultimately show ?thesis
    unfolding user_buffer_def using a p user_mem_ex_walk(2) by auto
qed

theorem piperead_takes_prefix_witness:
  "\<exists>t. piperead 0x80022000 0 3 kpipe_ex2 = Inr (2, t) \<and> pipe_items (pipes t 0x80022000) = [] \<and>
    user_byte (mem t) 0x80010000 0 = Some 255 \<and> user_byte (mem t) 0x80010000 1 = Some 0"
proof -
  have e: "curproc kpipe_ex2 = Some 0" "held kpipe_ex2 = {}" "p_pagetable (procs kpipe_ex2 0) = 0x80010000" "mem kpipe_ex2 = user_mem_ex"
    by (simp_all add: kpipe_ex2_def kpipe_ex_def)
  have i: "pipe_items (pipes kpipe_ex2 0x80022000) = [255, 0]"
    by (simp add: kpipe_ex2_def pipe_items_def ring_items_def PIPESIZE_def upt_conv_Cons)
  have two: "[0..<2] = [0, 1::nat]" by (simp add: numeral_2_eq_2)
  have l: "stored (\<lambda>j. user_addr user_mem_ex 0x80010000 (0 + of_nat j)) 0 (min 3 (length [255, 0 :: u8])) = 2"
    by (simp add: stored_def two user_mem_ex_addr PGSIZE_def flip: numeral_2_eq_2)
  have all: "(\<forall>j < (2::nat). Q j) \<longleftrightarrow> Q 0 \<and> Q 1" for Q by (auto simp: numeral_2_eq_2 less_Suc_eq)
  show ?thesis
    using piperead_takes_prefix [OF e(1-3), of 0 3 "0x80022000", unfolded e(4) i l all] user_mem_ex_buffer by auto
qed

end
