(* ===== verification/Uart.thy ===== *)
theory Uart
  imports Pipe
begin

section \<open>The UART driver\<close>

text \<open>
  \<^verbatim>\<open>kernel/uart.c\<close>, except \<^verbatim>\<open>uartintr\<close>, which is in theory \<open>Console\<close>. The device is not part of the
  program: \<open>uart_in\<close> is the list of the bytes that the next reads of its registers will return,
  whatever they are, and \<open>uart_out\<close> the list of the writes made to its registers so far. When
  \<open>uart_in\<close> is used up, reads return 0: no input, and not ready for output.
\<close>

definition UART_TX_BUF_SIZE :: nat where "UART_TX_BUF_SIZE = 32"
definition RHR :: nat where "RHR = 0"
definition THR :: nat where "THR = 0"
definition IER :: nat where "IER = 1"
definition FCR :: nat where "FCR = 2"
definition LCR :: nat where "LCR = 3"
definition LSR :: nat where "LSR = 5"
definition LSR_RX_READY :: u8 where "LSR_RX_READY = 1"
definition LSR_TX_IDLE :: u8 where "LSR_TX_IDLE = 0x20"

record kuart = kpipe +
  uart_tx_buf :: "nat \<Rightarrow> u8"
  uart_tx_w :: u64
  uart_tx_r :: u64
  uart_in :: "u8 list"
  uart_out :: "(nat \<times> u8) list"
  panicked :: bool

definition ReadReg :: "nat \<Rightarrow> 'z kuart_scheme \<Rightarrow> u8 \<times> 'z kuart_scheme" where
  "ReadReg reg s = (case uart_in s of [] \<Rightarrow> (0, s) | b # bs \<Rightarrow> (b, s\<lparr>uart_in := bs\<rparr>))"

definition WriteReg :: "nat \<Rightarrow> u8 \<Rightarrow> 'z kuart_scheme \<Rightarrow> 'z kuart_scheme" where
  "WriteReg reg v s = s\<lparr>uart_out := uart_out s @ [(reg, v)]\<rparr>"

definition uartinit :: "'z kuart_scheme \<Rightarrow> 'z kuart_scheme" where
  "uartinit s =
     (let s = WriteReg IER 0 s;
          s = WriteReg LCR 0x80 s;
          s = WriteReg 0 3 s;
          s = WriteReg 1 0 s;
          s = WriteReg LCR 3 s;
          s = WriteReg FCR (1 OR 6) s
      in WriteReg IER (2 OR 1) s)"

subsection \<open>The transmit buffer\<close>

definition tx_put :: "u8 \<Rightarrow> 'z kuart_scheme \<Rightarrow> 'z kuart_scheme" where
  "tx_put c s = s\<lparr>uart_tx_buf := (uart_tx_buf s)(unat (uart_tx_w s) mod UART_TX_BUF_SIZE := c),
     uart_tx_w := uart_tx_w s + 1\<rparr>"

definition tx_get :: "'z kuart_scheme \<Rightarrow> u8 \<times> 'z kuart_scheme" where
  "tx_get s = (uart_tx_buf s (unat (uart_tx_r s) mod UART_TX_BUF_SIZE), s\<lparr>uart_tx_r := uart_tx_r s + 1\<rparr>)"

definition tx_items :: "'z kuart_scheme \<Rightarrow> u8 list" where
  "tx_items s = ring_items UART_TX_BUF_SIZE (uart_tx_buf s) (uart_tx_r s) (uart_tx_w s)"

interpretation tx_queue: fifo tx_put tx_get tx_items UART_TX_BUF_SIZE
proof (unfold_locales, goal_cases)
  case (1 s b)
  then show ?case
    by (simp add: tx_items_def tx_put_def UART_TX_BUF_SIZE_def ring_put)
next
  case (2 s b bs s')
  then have "uart_tx_r s \<noteq> uart_tx_w s" by (auto simp: tx_items_def ring_items_def)
  from ring_get [OF this, of UART_TX_BUF_SIZE "uart_tx_buf s"] 2 show ?case
    by (auto simp: tx_items_def tx_get_def)
next
  case (3 s b bs)
  then have "uart_tx_r s \<noteq> uart_tx_w s" by (auto simp: tx_items_def ring_items_def)
  from ring_get [OF this, of UART_TX_BUF_SIZE "uart_tx_buf s"] 3 show ?case
    by (auto simp: tx_items_def tx_get_def)
qed

lemma ReadReg_tx [simp]:
  "uart_tx_w (snd (ReadReg r s)) = uart_tx_w s" "uart_tx_r (snd (ReadReg r s)) = uart_tx_r s"
  "uart_tx_buf (snd (ReadReg r s)) = uart_tx_buf s" "uart_out (snd (ReadReg r s)) = uart_out s"
  "held (snd (ReadReg r s)) = held s"
  by (simp_all add: ReadReg_def split: list.splits)

lemma ring_shrinks: "r \<noteq> w \<Longrightarrow> unat (w - (r + 1)) < unat (w - r)"
  for r w :: "'a::len word"
proof -
  assume "r \<noteq> w"
  then have ne: "w - r \<noteq> 0" by simp
  have eq: "w - (r + 1) = (w - r) - 1" by simp
  show ?thesis unfolding eq unat_minus_one [OF ne] using ne by (simp add: unat_gt_0)
qed

text \<open>\<^verbatim>\<open>uartstart\<close>: sends while the buffer has characters and the device is ready.\<close>

function uartstart :: "'z kuart_scheme \<Rightarrow> ('z kuart_scheme, 'z kuart_scheme) res" where
  "uartstart s =
     (if uart_tx_w s = uart_tx_r s then Inr s
      else
        (let (lsr, s) = ReadReg LSR s in
         if lsr AND LSR_TX_IDLE = 0 then Inr s
         else
           (let (c, s) = tx_get s in
            andthen (wakeup UartTxChan s) (\<lambda>s.
            uartstart (WriteReg THR c s)))))"
  by pat_completeness auto
termination
proof (relation "measure (\<lambda>s. unat (uart_tx_w s - uart_tx_r s))", simp, goal_cases)
  case (1 s x lsr t y c u v)
  then obtain ps where "v = u\<lparr>procs := ps\<rparr>" using wakeup_frame by blast
  moreover have "uart_tx_w t = uart_tx_w s" "uart_tx_r t = uart_tx_r s"
    using 1(2,3) ReadReg_tx(1,2) [of LSR s] by (metis snd_conv)+
  ultimately show ?case
    using 1 ring_shrinks [of "uart_tx_r s" "uart_tx_w s"] by (auto simp: tx_get_def WriteReg_def)
qed

declare uartstart.simps [simp del]

text \<open>The loop of \<^verbatim>\<open>uartputc\<close>, its first call and its continuation after a sleep.\<close>

definition uartputc_loop :: "u8 \<Rightarrow> 'z kuart_scheme \<Rightarrow> ('z kuart_scheme, 'z kuart_scheme) res" where
  "uartputc_loop c s =
     (if uart_tx_w s = uart_tx_r s + of_nat UART_TX_BUF_SIZE then sleep UartTxChan UartTxLock s
      else andthen (uartstart (tx_put c s)) (release_lk UartTxLock))"

definition uartputc :: "u8 \<Rightarrow> 'z kuart_scheme \<Rightarrow> ('z kuart_scheme, 'z kuart_scheme) res" where
  "uartputc c s =
     andthen (acquire_lk UartTxLock s) (\<lambda>s.
     if panicked s then Inl Hang else uartputc_loop c s)"

definition uartputc_resume :: "u8 \<Rightarrow> 'z kuart_scheme \<Rightarrow> ('z kuart_scheme, 'z kuart_scheme) res" where
  "uartputc_resume c s = andthen (sleep_resume UartTxLock s) (uartputc_loop c)"

text \<open>
  \<^verbatim>\<open>uartputc_sync\<close> spins until the device is ready; \<open>tx_idle\<close> is what is left of the device's answers
  then, if that ever happens. Interrupts are off meanwhile, which the model does not show.
\<close>

fun tx_idle :: "u8 list \<Rightarrow> u8 list option" where
  "tx_idle [] = None"
| "tx_idle (b # bs) = (if b AND LSR_TX_IDLE = 0 then tx_idle bs else Some bs)"

definition uartputc_sync :: "u8 \<Rightarrow> 'z kuart_scheme \<Rightarrow> ('z kuart_scheme, 'z kuart_scheme) res" where
  "uartputc_sync c s =
     (if panicked s then Inl Hang
      else
        (case tx_idle (uart_in s) of
           None \<Rightarrow> Inl Hang
         | Some bs \<Rightarrow> Inr (WriteReg THR c (s\<lparr>uart_in := bs\<rparr>))))"

definition uartgetc :: "'z kuart_scheme \<Rightarrow> u8 option \<times> 'z kuart_scheme" where
  "uartgetc s =
     (let (lsr, s) = ReadReg LSR s in
      if lsr AND 1 \<noteq> 0 then (let (c, s) = ReadReg RHR s in (Some c, s)) else (None, s))"

subsection \<open>Properties\<close>

text \<open>The bytes sent to the device so far.\<close>

definition sent :: "'z kuart_scheme \<Rightarrow> u8 list" where
  "sent s = map snd (filter (\<lambda>(r, v). r = THR) (uart_out s))"

lemma ring_get_tx:
  "uart_tx_w s \<noteq> uart_tx_r s \<Longrightarrow> tx_get s = (c, t) \<Longrightarrow> tx_items s = c # tx_items t"
  using ring_get [of "uart_tx_r s" "uart_tx_w s" UART_TX_BUF_SIZE "uart_tx_buf s"]
  by (auto simp: tx_get_def tx_items_def)

lemma uartstart_sends:
  "uartstart s = Inr t \<Longrightarrow> sent t @ tx_items t = sent s @ tx_items s \<and> held t = held s"
proof (induction s arbitrary: t rule: uartstart.induct)
  case (1 s)
  obtain lsr u where rd: "ReadReg LSR s = (lsr, u)" by (cases "ReadReg LSR s")
  have u: "uart_tx_w u = uart_tx_w s" "uart_tx_r u = uart_tx_r s" "tx_items u = tx_items s"
    "sent u = sent s" "held u = held s"
    using ReadReg_tx [of LSR s] rd by (auto simp: tx_items_def sent_def)
  show ?case
  proof (cases "uart_tx_w s = uart_tx_r s \<or> lsr AND LSR_TX_IDLE = 0")
    case True
    then have "t = s \<or> t = u" using 1(2) rd by (auto simp: uartstart.simps [of s] split: if_splits)
    then show ?thesis using u by auto
  next
    case False
    obtain c v where g: "tx_get u = (c, v)" by (cases "tx_get u")
    have v: "held v = held u" "uart_out v = uart_out u" using g by (auto simp: tx_get_def)
    from 1(2) False rd g obtain w where w: "wakeup UartTxChan v = Inr w"
      and rest: "uartstart (WriteReg THR c w) = Inr t"
      by (auto simp: uartstart.simps [of s] andthen_eq_Inr_iff)
    obtain ps where "w = v\<lparr>procs := ps\<rparr>" using wakeup_frame [OF w] by blast
    then have ww: "sent (WriteReg THR c w) = sent s @ [c]" "tx_items (WriteReg THR c w) = tx_items v"
      "held (WriteReg THR c w) = held s"
      using v u by (auto simp: sent_def WriteReg_def tx_items_def THR_def)
    have "tx_items s = c # tx_items v" using ring_get_tx [OF _ g] False u by simp
    moreover have "sent t @ tx_items t = sent (WriteReg THR c w) @ tx_items (WriteReg THR c w) \<and>
      held t = held (WriteReg THR c w)"
      by (rule 1(1) [OF _ rd [symmetric] refl _ g [symmetric] refl w rest]) (use False in auto)
    ultimately show ?thesis using ww by simp
  qed
qed

text \<open>
  C34. The transmit buffer neither loses, duplicates nor reorders characters: when \<^verbatim>\<open>uartputc\<close> returns,
  what has been sent to the device followed by what is still buffered is what it was before,
  followed by the new character, whatever the device answered; and the lock is released.
\<close>

theorem uartputc_in_order:
  assumes "uartputc c s = Inr t" and "length (tx_items s) \<le> UART_TX_BUF_SIZE"
  shows "sent t @ tx_items t = sent s @ tx_items s @ [c] \<and> held t = held s"
proof -
  let ?s = "s\<lparr>held := insert UartTxLock (held s)\<rparr>"
  have nh: "UartTxLock \<notin> held s" and run: "uartputc_loop c ?s = Inr t"
    using assms(1) by (auto simp: uartputc_def acquire_lk_def split: if_splits)
  then have nf: "uart_tx_w s \<noteq> uart_tx_r s + of_nat UART_TX_BUF_SIZE"
    by (auto simp: uartputc_loop_def sleep_never_returns)
  with run obtain u where u: "uartstart (tx_put c ?s) = Inr u" "release_lk UartTxLock u = Inr t"
    by (auto simp: uartputc_loop_def andthen_eq_Inr_iff)
  have "uart_tx_w s - uart_tx_r s \<noteq> of_nat UART_TX_BUF_SIZE" using nf by (auto simp: algebra_simps)
  then have "unat (uart_tx_w s - uart_tx_r s) \<noteq> UART_TX_BUF_SIZE"
    using unat_eqI [of "uart_tx_w s - uart_tx_r s" 32] by (auto simp: UART_TX_BUF_SIZE_def)
  then have "length (tx_items s) < UART_TX_BUF_SIZE" using assms(2) by (simp add: tx_items_def)
  then have "tx_items (tx_put c ?s) = tx_items s @ [c]"
    using tx_queue.items_enq [of ?s c] by (simp add: tx_items_def)
  with uartstart_sends [OF u(1)] u(2) nh show ?thesis
    by (auto simp: release_lk_def sent_def tx_put_def tx_items_def split: if_splits)
qed

definition kuart_ex :: kuart where
  "kuart_ex = \<lparr>held = {}, curproc = Some 0, procs = procs (ksync_ex RUNNING), nextpid = 1,
     initproc = None, ticks = 0, mem = (\<lambda>_. 0), kend = 0x80021000, freelist = 0,
     khart = undefined, kernel_pagetable = 0, ketext = 0, ktrampoline = 0,
     pipes = (\<lambda>_. pipes kpipe_ex 0), uart_tx_buf = (\<lambda>_. 0), uart_tx_w = 0, uart_tx_r = 0,
     uart_in = [], uart_out = [], panicked = False\<rparr>"

theorem uartputc_in_order_witness:
  "\<exists>t. uartputc 65 kuart_ex = Inr t \<and> sent t @ tx_items t = [65]"
proof -
  have "\<exists>t. uartputc 65 kuart_ex = Inr t"
    by (simp add: uartputc_def uartputc_loop_def kuart_ex_def acquire_lk_free tx_put_def
        uartstart.simps ReadReg_def release_lk_held UART_TX_BUF_SIZE_def)
  then obtain t where t: "uartputc 65 kuart_ex = Inr t" by blast
  have "tx_items kuart_ex = []" "sent kuart_ex = []"
    by (simp_all add: kuart_ex_def tx_items_def ring_items_def sent_def)
  with uartputc_in_order [OF t] t show ?thesis by simp
qed

end
