(* ===== verification/Format.thy ===== *)
theory Format
  imports Xv6_Base "HOL-Library.Char_ord"
begin

section \<open>Formatted output\<close>

text \<open>
  The formatting of \<^verbatim>\<open>kernel/printf.c\<close> and \<^verbatim>\<open>user/printf.c\<close>, as functions from a format string and
  the variable arguments to the characters printed. A missing argument or one of the wrong kind,
  which C leaves undefined, is \<open>None\<close>. Integers have 32 bits, pointers 64.
\<close>

datatype varg = IntArg u32 | LongArg u64 | StrArg "string option"

subsection \<open>Integers\<close>

text \<open>The \<^verbatim>\<open>do ... while\<close> loop that fills \<^verbatim>\<open>buf\<close> from the last digit up.\<close>

function digits_buf :: "string \<Rightarrow> nat \<Rightarrow> nat \<Rightarrow> string" where
  "digits_buf digits base x =
     digits ! (x mod base) # (if base < 2 \<or> x div base = 0 then [] else digits_buf digits base (x div base))"
  by pat_completeness auto
termination
  by (relation "measure (\<lambda>(_, _, x). x)")
    (auto intro!: div_less_dividend simp: not_less div_greater_zero_iff)

declare digits_buf.simps [simp del]

text \<open>\<^verbatim>\<open>printint\<close>: the buffer with its sign, and the output, which is the buffer backwards.\<close>

definition printint_buf :: "string \<Rightarrow> u32 \<Rightarrow> nat \<Rightarrow> bool \<Rightarrow> string" where
  "printint_buf digits xx base sign =
     (let neg = (sign \<and> xx <s 0);
          x = (if neg then - xx else xx)
      in digits_buf digits base (unat x) @ (if neg then ''-'' else []))"

definition printint :: "string \<Rightarrow> u32 \<Rightarrow> nat \<Rightarrow> bool \<Rightarrow> string" where
  "printint digits xx base sign = rev (printint_buf digits xx base sign)"

text \<open>\<^verbatim>\<open>printptr\<close>: sixteen hexadecimal digits, from the top nibble down.\<close>

fun printptr_loop :: "string \<Rightarrow> nat \<Rightarrow> u64 \<Rightarrow> string" where
  "printptr_loop digits 0 x = []"
| "printptr_loop digits (Suc n) x =
     digits ! unat (drop_bit 60 x) # printptr_loop digits n (push_bit 4 x)"

definition printptr :: "string \<Rightarrow> u64 \<Rightarrow> string" where
  "printptr digits x = ''0x'' @ printptr_loop digits 16 x"

definition or_null :: "string option \<Rightarrow> string" where
  "or_null s = (case s of None \<Rightarrow> ''(null)'' | Some t \<Rightarrow> t)"

subsection \<open>The kernel's \<^verbatim>\<open>printf\<close>\<close>

definition kdigits :: string where "kdigits = ''0123456789abcdef''"

fun printf_chars :: "string \<Rightarrow> varg list \<Rightarrow> string option" where
  "printf_chars [] args = Some []"
| "printf_chars (c # fmt) args =
     (if c \<noteq> CHR ''%'' then map_option (\<lambda>out. c # out) (printf_chars fmt args)
      else
        (case fmt of
           [] \<Rightarrow> Some []
         | d # fmt' \<Rightarrow>
             if d = CHR ''d'' then
               (case args of IntArg x # args' \<Rightarrow>
                  map_option (\<lambda>out. printint kdigits x 10 True @ out) (printf_chars fmt' args') | _ \<Rightarrow> None)
             else if d = CHR ''x'' then
               (case args of IntArg x # args' \<Rightarrow>
                  map_option (\<lambda>out. printint kdigits x 16 True @ out) (printf_chars fmt' args') | _ \<Rightarrow> None)
             else if d = CHR ''p'' then
               (case args of LongArg x # args' \<Rightarrow>
                  map_option (\<lambda>out. printptr kdigits x @ out) (printf_chars fmt' args') | _ \<Rightarrow> None)
             else if d = CHR ''s'' then
               (case args of StrArg s # args' \<Rightarrow>
                  map_option (\<lambda>out. or_null s @ out) (printf_chars fmt' args') | _ \<Rightarrow> None)
             else if d = CHR ''%'' then map_option (\<lambda>out. CHR ''%'' # out) (printf_chars fmt' args)
             else map_option (\<lambda>out. CHR ''%'' # d # out) (printf_chars fmt' args)))"

subsection \<open>The user library's \<^verbatim>\<open>vprintf\<close>\<close>

definition udigits :: string where "udigits = ''0123456789ABCDEF''"

text \<open>The loop of \<^verbatim>\<open>vprintf\<close>; the first argument is its variable \<^verbatim>\<open>state\<close>: has a percent sign been read.\<close>

fun vprintf_chars :: "bool \<Rightarrow> string \<Rightarrow> varg list \<Rightarrow> string option" where
  "vprintf_chars state [] args = Some []"
| "vprintf_chars state (c # fmt) args =
     (if \<not> state then
        if c = CHR ''%'' then vprintf_chars True fmt args
        else map_option (\<lambda>out. c # out) (vprintf_chars False fmt args)
      else if c = CHR ''d'' then
        (case args of IntArg x # args' \<Rightarrow>
           map_option (\<lambda>out. printint udigits x 10 True @ out) (vprintf_chars False fmt args') | _ \<Rightarrow> None)
      else if c = CHR ''l'' then
        (case args of LongArg x # args' \<Rightarrow>
           map_option (\<lambda>out. printint udigits (ucast x) 10 False @ out) (vprintf_chars False fmt args')
         | _ \<Rightarrow> None)
      else if c = CHR ''x'' then
        (case args of IntArg x # args' \<Rightarrow>
           map_option (\<lambda>out. printint udigits x 16 False @ out) (vprintf_chars False fmt args') | _ \<Rightarrow> None)
      else if c = CHR ''p'' then
        (case args of LongArg x # args' \<Rightarrow>
           map_option (\<lambda>out. printptr udigits x @ out) (vprintf_chars False fmt args') | _ \<Rightarrow> None)
      else if c = CHR ''s'' then
        (case args of StrArg s # args' \<Rightarrow>
           map_option (\<lambda>out. or_null s @ out) (vprintf_chars False fmt args') | _ \<Rightarrow> None)
      else if c = CHR ''c'' then
        (case args of IntArg x # args' \<Rightarrow>
           map_option (\<lambda>out. char_of (unat x mod 256) # out) (vprintf_chars False fmt args') | _ \<Rightarrow> None)
      else if c = CHR ''%'' then map_option (\<lambda>out. c # out) (vprintf_chars False fmt args)
      else map_option (\<lambda>out. CHR ''%'' # c # out) (vprintf_chars False fmt args))"

definition vprintf :: "string \<Rightarrow> varg list \<Rightarrow> string option" where
  "vprintf fmt args = vprintf_chars False fmt args"

subsection \<open>\<^verbatim>\<open>atoi\<close>\<close>

text \<open>\<^verbatim>\<open>atoi\<close> of \<^verbatim>\<open>user/ulib.c\<close>: \<open>n\<close> is an \<^verbatim>\<open>int\<close>, so it wraps at 32 bits.\<close>

fun atoi_loop :: "u32 \<Rightarrow> string \<Rightarrow> u32" where
  "atoi_loop n [] = n"
| "atoi_loop n (c # s) =
     (if CHR ''0'' \<le> c \<and> c \<le> CHR ''9''
      then atoi_loop (n * 10 + of_nat (of_char c) - of_nat (of_char CHR ''0'')) s else n)"

definition atoi :: "string \<Rightarrow> u32" where
  "atoi s = atoi_loop 0 s"

subsection \<open>Lemmas\<close>

lemma length_digits_buf:
  "2 \<le> base \<Longrightarrow> x < base ^ Suc k \<Longrightarrow> length (digits_buf d base x) \<le> Suc k"
proof (induction d base x arbitrary: k rule: digits_buf.induct)
  case (1 d base x)
  show ?case
  proof (cases "x div base = 0")
    case True
    then show ?thesis by (simp add: digits_buf.simps [of d base x])
  next
    case False
    then obtain j where k: "k = Suc j" using 1(2,3) by (cases k) auto
    have "x div base < base ^ Suc j" using 1(2,3) k by (simp add: div_less_iff_less_mult ac_simps)
    then show ?thesis using 1 False k by (simp add: digits_buf.simps [of d base x])
  qed
qed

lemma digits_buf_table: "0 < base \<Longrightarrow> base \<le> length d \<Longrightarrow> set (digits_buf d base x) \<subseteq> set d"
proof (induction d base x rule: digits_buf.induct)
  case (1 d base x)
  have "d ! (x mod base) \<in> set d" using 1(2,3) by (intro nth_mem) (meson less_le_trans mod_less_divisor)
  then show ?case using 1 by (subst digits_buf.simps) simp
qed

lemma udigits_nth:
  "i < 10 \<Longrightarrow> CHR ''0'' \<le> udigits ! i \<and> udigits ! i \<le> CHR ''9'' \<and> of_char (udigits ! i) = 48 + i"
proof -
  assume "i < 10"
  then have "i \<in> {0, 1, 2, 3, 4, 5, 6, 7, 8, 9}" by auto
  then show ?thesis by (auto simp: udigits_def less_eq_char_def)
qed

definition decimal :: "string \<Rightarrow> bool" where
  "decimal s \<longleftrightarrow> (\<forall>c \<in> set s. CHR ''0'' \<le> c \<and> c \<le> CHR ''9'')"

lemma atoi_loop_append: "decimal s \<Longrightarrow> atoi_loop n (s @ t) = atoi_loop (atoi_loop n s) t"
  by (induction n s rule: atoi_loop.induct) (auto simp: decimal_def)

lemma digits_buf_decimal: "decimal (digits_buf udigits 10 x)"
proof (induction x rule: less_induct)
  case (less x)
  have "udigits ! (x mod 10) \<ge> CHR ''0'' \<and> udigits ! (x mod 10) \<le> CHR ''9''"
    using udigits_nth [of "x mod 10"] by simp
  with less [of "x div 10"] show ?case
    by (auto simp: digits_buf.simps [of _ _ x] decimal_def)
qed

lemma atoi_digits_buf: "atoi_loop 0 (rev (digits_buf udigits 10 x)) = of_nat x"
proof (induction x rule: less_induct)
  case (less x)
  note d = udigits_nth [of "x mod 10", simplified]
  show ?case
  proof (cases "x div 10 = 0")
    case True
    then have "x mod 10 = x" by simp
    with True d show ?thesis by (simp add: digits_buf.simps [of _ _ x])
  next
    case False
    then have IH: "atoi_loop 0 (rev (digits_buf udigits 10 (x div 10))) = of_nat (x div 10)"
      using less [of "x div 10"] by simp
    have dec: "decimal (rev (digits_buf udigits 10 (x div 10)))"
      using digits_buf_decimal [of "x div 10"] by (simp add: decimal_def)
    have "of_nat (x div 10) * 10 + (of_nat (x mod 10) :: u32) = of_nat (x div 10 * 10 + x mod 10)"
      by (simp only: of_nat_add of_nat_mult of_nat_numeral)
    also have "\<dots> = of_nat x" by simp
    finally show ?thesis
      using False d IH by (simp add: digits_buf.simps [of _ _ x] atoi_loop_append [OF dec])
  qed
qed

subsection \<open>Properties\<close>

text \<open>
  C32. Printing an unsigned or non-negative integer in decimal and reading it back with \<^verbatim>\<open>atoi\<close>
  gives the same integer, for every 32-bit value.
\<close>

theorem printint_atoi_roundtrip:
  "atoi (printint udigits x 10 False) = x \<and>
   (\<not> x <s 0 \<longrightarrow> atoi (printint udigits x 10 True) = x)"
  by (simp add: atoi_def printint_def printint_buf_def atoi_digits_buf)

theorem printint_atoi_roundtrip_witness: "atoi (printint udigits 4096 10 True) = 4096"
  using printint_atoi_roundtrip [of 4096] by (simp add: word_sless_alt)

text \<open>
  C33. The sixteen-byte buffer of \<^verbatim>\<open>printint\<close> never overflows: with any base from 10 on it holds at most ten digits and a sign, for
  every argument. When the base is no greater than the length of the table of digits (16 in the kernel and in the user library), every
  character is from the table or the sign: the table is never read past its end.
\<close>

theorem printint_buf_bounded:
  assumes "10 \<le> base"
  shows "length (printint_buf d xx base sign) \<le> 11 \<and>
    (base \<le> length d \<longrightarrow> set (printint_buf d xx base sign) \<subseteq> set d \<union> {CHR ''-''})"
proof -
  have ten: "length (digits_buf d base (unat x)) \<le> 10" for x :: u32
  proof -
    have "unat x < 2 ^ 32" using unat_less_exp [of x] by simp
    also have "(2::nat) ^ 32 < 10 ^ Suc 9" by simp
    also have "\<dots> \<le> base ^ Suc 9" by (rule power_mono) (use assms in simp_all)
    finally have "unat x < base ^ Suc 9" .
    with assms show ?thesis using length_digits_buf [of base "unat x" 9 d] by auto
  qed
  have "length (printint_buf d xx base sign) \<le> 11" using ten [of xx] ten [of "- xx"] by (simp add: printint_buf_def Let_def)
  moreover have "set (printint_buf d xx base sign) \<subseteq> set d \<union> {CHR ''-''}" if "base \<le> length d"
    using digits_buf_table [of base d] assms that by (auto simp: printint_buf_def Let_def subset_iff split: if_splits)
  ultimately show ?thesis by blast
qed

theorem printint_buf_bounded_witness:
  "length (printint_buf udigits 0x80000000 16 True) \<le> 11 \<and> set (printint_buf udigits 0x80000000 16 True) \<subseteq> set udigits \<union> {CHR ''-''}"
  using printint_buf_bounded [of 16 udigits "0x80000000" True] by (simp add: udigits_def)

text \<open>
  \<^verbatim>\<open>%l\<close> of the user \<^verbatim>\<open>printf\<close> prints only the low 32 bits of its 64-bit argument, because
  \<^verbatim>\<open>printint\<close> takes an \<^verbatim>\<open>int\<close>: two arguments that agree there are printed alike.
\<close>

theorem percent_l_truncates:
  "vprintf ''%l'' [LongArg x] = Some (printint udigits (ucast x) 10 False) \<and>
   vprintf ''%l'' [LongArg 0x100000005] = vprintf ''%l'' [LongArg 5]"
proof -
  have "(4294967301 :: u32) = 5" by (rule unat_eqI) simp
  then have "printint udigits 4294967301 10 False = printint udigits 5 10 False"
    by (simp only:)
  then show ?thesis by (simp add: vprintf_def)
qed

end
