(* ===== verification/Console.thy ===== *)
theory Console
  imports Uart Format
begin

section \<open>Console and kernel output\<close>

text \<open>
  \<^verbatim>\<open>kernel/console.c\<close>, the output side of \<^verbatim>\<open>kernel/printf.c\<close>, \<^verbatim>\<open>procdump\<close> of \<^verbatim>\<open>kernel/proc.c\<close> and
  \<^verbatim>\<open>uartintr\<close>. The console's input buffer is a ring with three counters: \<^verbatim>\<open>r\<close> (read), \<^verbatim>\<open>w\<close> (end of
  the finished lines) and \<^verbatim>\<open>e\<close> (end of the line being edited).

  The table \<^verbatim>\<open>devsw\<close> says which device numbers have a driver; the console is the only one.
\<close>

definition BACKSPACE :: u32 where "BACKSPACE = 0x100"
definition INPUT_BUF :: nat where "INPUT_BUF = 128"
definition CONSOLE :: nat where "CONSOLE = 1"

text \<open>The macro \<^verbatim>\<open>C(x)\<close>: a control character.\<close>

definition ctrl :: "char \<Rightarrow> u8" where
  "ctrl c = of_nat (of_char c) - of_nat (of_char CHR ''@'')"

datatype driver = ConsoleDriver

record kcons = kuart +
  pr_locking :: bool
  cons_buf :: "nat \<Rightarrow> u8"
  cons_r :: u32
  cons_w :: u32
  cons_e :: u32
  devsw :: "nat \<Rightarrow> driver option"

subsection \<open>Output\<close>

definition consputc :: "u32 \<Rightarrow> 'z kcons_scheme \<Rightarrow> ('z kcons_scheme, 'z kcons_scheme) res" where
  "consputc c s =
     (if c = BACKSPACE then
        andthen (uartputc_sync 8 s) (\<lambda>s.
        andthen (uartputc_sync 32 s) (\<lambda>s.
        uartputc_sync 8 s))
      else uartputc_sync (ucast c) s)"

definition putchars :: "string \<Rightarrow> 'z kcons_scheme \<Rightarrow> ('z kcons_scheme, 'z kcons_scheme) res" where
  "putchars cs s = for_each (\<lambda>c. consputc (of_nat (of_char c))) cs s"

definition printf ::
    "string \<Rightarrow> varg list \<Rightarrow> 'z kcons_scheme \<Rightarrow> ('z kcons_scheme, 'z kcons_scheme) res" where
  "printf fmt args s =
     (let locking = pr_locking s in
      andthen (if locking then acquire_lk PrLock s else Inr s) (\<lambda>s.
      case printf_chars fmt args of
        None \<Rightarrow> Inl Fault
      | Some cs \<Rightarrow>
          andthen (putchars cs s) (\<lambda>s.
          if locking then release_lk PrLock s else Inr s)))"

text \<open>The state in which \<^verbatim>\<open>panic(s)\<close> enters its endless loop.\<close>

definition panic_state :: "string \<Rightarrow> 'z kcons_scheme \<Rightarrow> ('z kcons_scheme, 'z kcons_scheme) res" where
  "panic_state msg s =
     andthen (printf ''panic: '' [] (s\<lparr>pr_locking := False\<rparr>)) (\<lambda>s.
     andthen (printf msg [] s) (\<lambda>s.
     andthen (printf [CHR 0x0A] [] s) (\<lambda>s.
     Inr (s\<lparr>panicked := True\<rparr>))))"

definition printfinit :: "'z kcons_scheme \<Rightarrow> 'z kcons_scheme" where
  "printfinit s = s\<lparr>pr_locking := True\<rparr>"

subsection \<open>Listing the processes\<close>

definition state_name :: "procstate \<Rightarrow> string" where
  "state_name st = (case st of
     UNUSED \<Rightarrow> ''unused'' | SLEEPING \<Rightarrow> ''sleep '' | RUNNABLE \<Rightarrow> ''runble''
   | RUNNING \<Rightarrow> ''run   '' | ZOMBIE \<Rightarrow> ''zombie'' | USED \<Rightarrow> ''???'')"

definition name_string :: "u8 list \<Rightarrow> string" where
  "name_string bs = map (\<lambda>b. char_of (unat b)) (takeWhile (\<lambda>b. b \<noteq> 0) bs)"

definition procdump :: "'z kcons_scheme \<Rightarrow> ('z kcons_scheme, 'z kcons_scheme) res" where
  "procdump s =
     andthen (printf [CHR 0x0A] [] s) (for_each (\<lambda>p s.
       let q = procs s p in
       if p_state q = UNUSED then Inr s
       else
         andthen (printf ''%d %s %s'' [IntArg (of_int (p_pid q)), StrArg (Some (state_name (p_state q))),
           StrArg (Some (name_string (p_name q)))] s) (\<lambda>s.
         printf [CHR 0x0A] [] s)) [0..<NPROC])"

subsection \<open>Input\<close>

text \<open>\<^verbatim>\<open>cons.buf[cons.e++ % INPUT_BUF] = c\<close> and \<^verbatim>\<open>cons.buf[cons.r++ % INPUT_BUF]\<close>.\<close>

definition cons_put :: "u8 \<Rightarrow> 'z kcons_scheme \<Rightarrow> 'z kcons_scheme" where
  "cons_put c s = s\<lparr>cons_buf := (cons_buf s)(unat (cons_e s) mod INPUT_BUF := c),
     cons_e := cons_e s + 1\<rparr>"

definition cons_get :: "'z kcons_scheme \<Rightarrow> u8 \<times> 'z kcons_scheme" where
  "cons_get s = (cons_buf s (unat (cons_r s) mod INPUT_BUF), s\<lparr>cons_r := cons_r s + 1\<rparr>)"

lemma back_measure: "e \<noteq> w \<Longrightarrow> unat (e - 1 - w) < unat (e - w)"
  for e w :: "'a::len word"
proof -
  assume "e \<noteq> w"
  then have ne: "e - w \<noteq> 0" by simp
  have eq: "e - 1 - w = (e - w) - 1" by simp
  show ?thesis unfolding eq unat_minus_one [OF ne] using ne by (simp add: unat_gt_0)
qed

lemma uartputc_sync_frame:
  "uartputc_sync c s = Inr t \<Longrightarrow> \<exists>i p. t = s\<lparr>uart_in := i, uart_out := uart_out s @ [p]\<rparr>"
  by (auto simp: uartputc_sync_def WriteReg_def split: if_splits option.splits)

lemma consputc_frame:
  "consputc c s = Inr t \<Longrightarrow> \<exists>i ps. t = s\<lparr>uart_in := i, uart_out := ps\<rparr>"
  by (fastforce simp: consputc_def andthen_eq_Inr_iff dest!: uartputc_sync_frame split: if_splits)

function kill_line :: "'z kcons_scheme \<Rightarrow> ('z kcons_scheme, 'z kcons_scheme) res" where
  "kill_line s =
     (if cons_e s \<noteq> cons_w s \<and> cons_buf s (unat (cons_e s - 1) mod INPUT_BUF) \<noteq> 10
      then andthen (consputc BACKSPACE (s\<lparr>cons_e := cons_e s - 1\<rparr>)) kill_line
      else Inr s)"
  by pat_completeness auto
termination
  by (relation "measure (\<lambda>s. unat (cons_e s - cons_w s))")
    (auto dest!: consputc_frame simp: back_measure)

declare kill_line.simps [simp del]

definition consoleintr :: "u8 \<Rightarrow> 'z kcons_scheme \<Rightarrow> ('z kcons_scheme, 'z kcons_scheme) res" where
  "consoleintr c s =
     andthen (acquire_lk ConsLock s) (\<lambda>s.
     andthen
       (if c = ctrl CHR ''P'' then procdump s
        else if c = ctrl CHR ''U'' then kill_line s
        else if c = ctrl CHR ''H'' \<or> c = 0x7f then
          if cons_e s \<noteq> cons_w s then consputc BACKSPACE (s\<lparr>cons_e := cons_e s - 1\<rparr>) else Inr s
        else if c \<noteq> 0 \<and> cons_e s - cons_r s < of_nat INPUT_BUF then
          (let c = (if c = 13 then 10 else c) in
           andthen (consputc (ucast c) s) (\<lambda>s.
           let s = cons_put c s in
           if c = 10 \<or> c = ctrl CHR ''D'' \<or> cons_e s = cons_r s + of_nat INPUT_BUF
           then wakeup ConsChan (s\<lparr>cons_w := cons_e s\<rparr>)
           else Inr s))
        else Inr s) (\<lambda>s.
     release_lk ConsLock s))"

text \<open>
  \<^verbatim>\<open>consoleread\<close>: the loop with what is left to read \<open>n\<close>, and its continuation after a sleep.
\<close>

function consoleread_loop ::
    "addr \<Rightarrow> int \<Rightarrow> int \<Rightarrow> 'z kcons_scheme \<Rightarrow> ('z kcons_scheme, int \<times> 'z kcons_scheme) res" where
  "consoleread_loop dst n target s =
     (let done = (\<lambda>n s. andthen (release_lk ConsLock s) (\<lambda>s. Inr (target - n, s))) in
      if n > 0 then
        if cons_r s = cons_w s then
          with_proc s (\<lambda>p.
            if p_killed (procs s p) then andthen (release_lk ConsLock s) (\<lambda>s. Inr (-1, s))
            else sleep ConsChan ConsLock s)
        else
          (let (c, s) = cons_get s in
           if c = ctrl CHR ''D'' then
             done n (if n < target then s\<lparr>cons_r := cons_r s - 1\<rparr> else s)
           else
             andthen (either_copyout dst [c] s) (\<lambda>(r, s).
             if r = -1 then done n s
             else if c = 10 then done (n - 1) s
             else consoleread_loop (addr_plus dst 1) (n - 1) target s))
      else done n s)"
  by pat_completeness auto
termination
  by (relation "measure (\<lambda>(_, n, _, _). nat n)") auto

definition consoleread ::
    "addr \<Rightarrow> int \<Rightarrow> 'z kcons_scheme \<Rightarrow> ('z kcons_scheme, int \<times> 'z kcons_scheme) res" where
  "consoleread dst n s = andthen (acquire_lk ConsLock s) (consoleread_loop dst n n)"

definition consoleread_resume ::
    "addr \<Rightarrow> int \<Rightarrow> int \<Rightarrow> 'z kcons_scheme \<Rightarrow> ('z kcons_scheme, int \<times> 'z kcons_scheme) res" where
  "consoleread_resume dst n target s = andthen (sleep_resume ConsLock s) (consoleread_loop dst n target)"

function consolewrite_loop ::
    "addr \<Rightarrow> int \<Rightarrow> int \<Rightarrow> 'z kcons_scheme \<Rightarrow> ('z kcons_scheme, int \<times> 'z kcons_scheme) res" where
  "consolewrite_loop src n i s =
     (if i < n then
        andthen (either_copyin (addr_plus src (of_int i)) [] 1 s) (\<lambda>(r, cs).
        if r = -1 then Inr (i, s)
        else andthen (uartputc (hd cs) s) (consolewrite_loop src n (i + 1)))
      else Inr (i, s))"
  by pat_completeness auto
termination
  by (relation "measure (\<lambda>(_, n, i, _). nat (n - i))") auto

definition consolewrite ::
    "addr \<Rightarrow> int \<Rightarrow> 'z kcons_scheme \<Rightarrow> ('z kcons_scheme, int \<times> 'z kcons_scheme) res" where
  "consolewrite src n s = consolewrite_loop src n 0 s"

text \<open>After a sleep in \<^verbatim>\<open>uartputc\<close> for character number \<open>i\<close>, already copied in.\<close>

definition consolewrite_resume ::
    "addr \<Rightarrow> int \<Rightarrow> int \<Rightarrow> u8 \<Rightarrow> 'z kcons_scheme \<Rightarrow> ('z kcons_scheme, int \<times> 'z kcons_scheme) res" where
  "consolewrite_resume src n i c s =
     andthen (uartputc_resume c s) (consolewrite_loop src n (i + 1))"

definition consoleinit :: "'z kcons_scheme \<Rightarrow> 'z kcons_scheme" where
  "consoleinit s = (uartinit s)\<lparr>devsw := (devsw s)(CONSOLE := Some ConsoleDriver)\<rparr>"

declare consoleread_loop.simps [simp del] consolewrite_loop.simps [simp del]

subsection \<open>The interrupt handler\<close>

lemma tx_idle_shorter: "tx_idle bs = Some cs \<Longrightarrow> length cs < length bs"
  by (induction bs) (fastforce split: if_splits)+

text \<open>Output uses up answers of the device and appends register writes; nothing else changes.\<close>

definition output_only :: "'z kcons_scheme \<Rightarrow> 'z kcons_scheme \<Rightarrow> bool" where
  "output_only s t \<longleftrightarrow>
     (\<exists>i ps. t = s\<lparr>uart_in := i, uart_out := ps\<rparr> \<and> length i \<le> length (uart_in s))"

lemma output_onlyI:
  "length i \<le> length (uart_in s) \<Longrightarrow> output_only s (s\<lparr>uart_in := i, uart_out := ps\<rparr>)"
  by (auto simp: output_only_def)

lemma output_onlyE:
  assumes "output_only s t"
  obtains i ps where "t = s\<lparr>uart_in := i, uart_out := ps\<rparr>" and "length i \<le> length (uart_in s)"
  using assms by (auto simp: output_only_def)

lemma output_only_refl [intro]: "output_only s s"
  using output_onlyI [of "uart_in s" s "uart_out s"] by simp

lemma output_only_trans: "output_only s t \<Longrightarrow> output_only t u \<Longrightarrow> output_only s u"
  by (erule output_onlyE, erule output_onlyE) (simp add: output_onlyI)

lemma uartputc_sync_output: "uartputc_sync c s = Inr t \<Longrightarrow> output_only s t"
  using tx_idle_shorter [of "uart_in s"]
  by (auto simp: uartputc_sync_def WriteReg_def less_imp_le intro!: output_onlyI
      split: if_splits option.splits)

lemma consputc_output: "consputc c s = Inr t \<Longrightarrow> output_only s t"
  by (auto simp: consputc_def andthen_eq_Inr_iff split: if_splits
      dest!: uartputc_sync_output intro: output_only_trans)

lemma for_each_output:
  assumes "for_each f xs s = Inr t" and "\<And>x u v. f x u = Inr v \<Longrightarrow> output_only u v"
  shows "output_only s t"
  by (rule for_each_inv [OF assms(1)]) (auto dest: assms(2) intro: output_only_trans)

lemma putchars_output: "putchars cs s = Inr t \<Longrightarrow> output_only s t"
  unfolding putchars_def by (erule for_each_output) (rule consputc_output)

lemma printf_output:
  assumes "printf fmt args s = Inr t"
  shows "output_only s t"
proof (cases "pr_locking s")
  case True
  let ?s = "s\<lparr>held := insert PrLock (held s)\<rparr>"
  from assms True obtain cs u where nh: "PrLock \<notin> held s" and "putchars cs ?s = Inr u"
    and t: "t = u\<lparr>held := held u - {PrLock}\<rparr>"
    by (auto simp: printf_def Let_def andthen_eq_Inr_iff acquire_lk_def release_lk_def
        split: option.splits if_splits)
  from putchars_output [OF this(2)] nh show ?thesis
    unfolding t by (auto elim!: output_onlyE intro: output_onlyI)
next
  case False
  with assms show ?thesis
    by (auto simp: printf_def Let_def andthen_eq_Inr_iff dest: putchars_output split: option.splits)
qed

lemma procdump_output: "procdump s = Inr t \<Longrightarrow> output_only s t"
  unfolding procdump_def
  by (auto simp: andthen_eq_Inr_iff Let_def dest!: printf_output for_each_output
      split: if_splits intro: output_only_trans)

lemma kill_line_input: "kill_line s = Inr t \<Longrightarrow> length (uart_in t) \<le> length (uart_in s)"
proof (induction s arbitrary: t rule: kill_line.induct)
  case (1 s)
  show ?case
  proof (cases "cons_e s \<noteq> cons_w s \<and> cons_buf s (unat (cons_e s - 1) mod INPUT_BUF) \<noteq> 10")
    case True
    then obtain u where u: "consputc BACKSPACE (s\<lparr>cons_e := cons_e s - 1\<rparr>) = Inr u" "kill_line u = Inr t"
      using 1(2) by (auto simp: kill_line.simps [of s] andthen_eq_Inr_iff)
    from 1(1) [OF True u] consputc_output [OF u(1)] show ?thesis by (auto simp: output_only_def)
  qed (use 1(2) in \<open>auto simp: kill_line.simps [of s]\<close>)
qed

lemma output_onlyD: "output_only s t \<Longrightarrow> length (uart_in t) \<le> length (uart_in s)"
  by (auto simp: output_only_def)

lemma consoleintr_input: "consoleintr c s = Inr t \<Longrightarrow> length (uart_in t) \<le> length (uart_in s)"
  by (auto simp: consoleintr_def andthen_eq_Inr_iff acquire_lk_def release_lk_def Let_def cons_put_def
      split: if_splits
      dest!: wakeup_frame kill_line_input procdump_output [THEN output_onlyD]
        consputc_output [THEN output_onlyD])

lemma uartgetc_input: "uartgetc s = (Some c, t) \<Longrightarrow> length (uart_in t) < length (uart_in s)"
  by (auto simp: uartgetc_def ReadReg_def split: list.splits if_splits)

text \<open>\<^verbatim>\<open>uartintr\<close>: first all waiting input, then buffered output.\<close>

function uartintr_input :: "'z kcons_scheme \<Rightarrow> ('z kcons_scheme, 'z kcons_scheme) res" where
  "uartintr_input s =
     (case uartgetc s of
        (None, s') \<Rightarrow> Inr s'
      | (Some c, s') \<Rightarrow> andthen (consoleintr c s') uartintr_input)"
  by pat_completeness auto
termination
  by (relation "measure (\<lambda>s. length (uart_in s))")
    (auto dest!: uartgetc_input [OF sym] consoleintr_input)

definition uartintr :: "'z kcons_scheme \<Rightarrow> ('z kcons_scheme, 'z kcons_scheme) res" where
  "uartintr s =
     andthen (uartintr_input s) (\<lambda>s.
     andthen (acquire_lk UartTxLock s) (\<lambda>s.
     andthen (uartstart s) (\<lambda>s.
     release_lk UartTxLock s)))"

declare uartintr_input.simps [simp del]

subsection \<open>The line discipline\<close>

text \<open>The abstract console: the characters of finished lines, and of the line being edited.\<close>

definition cons_lines :: "'z kcons_scheme \<Rightarrow> u8 list" where
  "cons_lines s = ring_items INPUT_BUF (cons_buf s) (cons_r s) (cons_w s)"

definition cons_edit :: "'z kcons_scheme \<Rightarrow> u8 list" where
  "cons_edit s = ring_items INPUT_BUF (cons_buf s) (cons_w s) (cons_e s)"

definition cons_ok :: "'z kcons_scheme \<Rightarrow> bool" where
  "cons_ok s \<longleftrightarrow> length (cons_lines s) + length (cons_edit s) \<le> INPUT_BUF"

definition type_char :: "u8 \<Rightarrow> u8 list \<times> u8 list \<Rightarrow> u8 list \<times> u8 list" where
  "type_char c = (\<lambda>(ls, ed).
     if c = ctrl CHR ''P'' then (ls, ed)
     else if c = ctrl CHR ''U'' then (ls, rev (dropWhile (\<lambda>b. b \<noteq> 10) (rev ed)))
     else if c = ctrl CHR ''H'' \<or> c = 0x7f then (ls, butlast ed)
     else if c \<noteq> 0 \<and> length ls + length ed < INPUT_BUF then
       (let c = (if c = 13 then 10 else c) in
        if c = 10 \<or> c = ctrl CHR ''D'' \<or> length ls + length ed + 1 = INPUT_BUF
        then (ls @ ed @ [c], []) else (ls, ed @ [c]))
     else (ls, ed))"

text \<open>The lists depend on the buffer and the counters only.\<close>

definition same_cons :: "'z kcons_scheme \<Rightarrow> 'z kcons_scheme \<Rightarrow> bool" where
  "same_cons s t \<longleftrightarrow> cons_buf s = cons_buf t \<and> cons_r s = cons_r t \<and> cons_w s = cons_w t \<and>
     cons_e s = cons_e t"

lemma same_cons_lists:
  "same_cons s t \<Longrightarrow> cons_lines s = cons_lines t \<and> cons_edit s = cons_edit t"
  by (simp add: same_cons_def cons_lines_def cons_edit_def)

lemma output_only_fields:
  assumes "output_only s t"
  shows "cons_buf t = cons_buf s" "cons_r t = cons_r s" "cons_w t = cons_w s" "cons_e t = cons_e s"
    "held t = held s"
  using assms by (auto elim!: output_onlyE)

lemma cons_room:
  assumes "cons_ok s"
  shows "unat (cons_e s - cons_r s) = length (cons_lines s) + length (cons_edit s)"
    and "cons_e s - cons_r s < of_nat INPUT_BUF \<longleftrightarrow>
      length (cons_lines s) + length (cons_edit s) < INPUT_BUF"
    and "cons_e s + 1 = cons_r s + of_nat INPUT_BUF \<longleftrightarrow>
      length (cons_lines s) + length (cons_edit s) + 1 = INPUT_BUF"
proof -
  have lt: "unat (cons_w s - cons_r s) + unat (cons_e s - cons_w s) < 2 ^ 32"
    using assms by (simp add: cons_ok_def cons_lines_def cons_edit_def INPUT_BUF_def)
  show d: "unat (cons_e s - cons_r s) = length (cons_lines s) + length (cons_edit s)"
    using ring_split(1) [of "cons_w s" "cons_r s" "cons_e s"] lt
    by (simp add: cons_lines_def cons_edit_def)
  show "cons_e s - cons_r s < of_nat INPUT_BUF \<longleftrightarrow>
      length (cons_lines s) + length (cons_edit s) < INPUT_BUF"
    unfolding word_less_nat_alt d by (simp add: INPUT_BUF_def)
  have "cons_e s + 1 = cons_r s + of_nat INPUT_BUF \<longleftrightarrow>
    cons_e s - cons_r s = of_nat INPUT_BUF - 1" by (auto simp: algebra_simps)
  also have "\<dots> \<longleftrightarrow> unat (cons_e s - cons_r s) = 127"
    using unat_eqI [of "cons_e s - cons_r s" 127] by (auto simp: INPUT_BUF_def)
  finally show "cons_e s + 1 = cons_r s + of_nat INPUT_BUF \<longleftrightarrow>
      length (cons_lines s) + length (cons_edit s) + 1 = INPUT_BUF"
    unfolding d by (simp add: INPUT_BUF_def)
qed

lemma cons_put_lists:
  assumes "cons_ok s" and "length (cons_lines s) + length (cons_edit s) < INPUT_BUF"
  shows "cons_lines (cons_put c s) = cons_lines s" and "cons_edit (cons_put c s) = cons_edit s @ [c]"
proof -
  let ?t = "cons_put c s"
  have lt: "unat (cons_w s - cons_r s) + unat (cons_e s - cons_w s) < 2 ^ 32"
    using assms by (simp add: cons_ok_def cons_lines_def cons_edit_def INPUT_BUF_def)
  have room: "unat (cons_e s - cons_r s) < INPUT_BUF" using cons_room(1) [OF assms(1)] assms(2) by simp
  have all: "ring_items INPUT_BUF (cons_buf ?t) (cons_r s) (cons_e s + 1) =
    cons_lines s @ cons_edit s @ [c]"
    using ring_put [of INPUT_BUF "cons_e s" "cons_r s" "cons_buf s" c] room
      ring_split(2) [of "cons_w s" "cons_r s" "cons_e s" INPUT_BUF "cons_buf s"] lt
    by (simp add: cons_put_def cons_lines_def cons_edit_def INPUT_BUF_def)
  have room': "unat (cons_e s - cons_w s) < INPUT_BUF"
    using assms(2) by (simp add: cons_lines_def cons_edit_def)
  have d: "unat (cons_e s + 1 - cons_w s) = Suc (unat (cons_e s - cons_w s))"
    by (rule unat_succ_diff [OF room']) (simp add: INPUT_BUF_def)
  have lt': "unat (cons_w s - cons_r s) + unat (cons_e s + 1 - cons_w s) < 2 ^ 32"
    unfolding d using assms(2) by (simp add: cons_lines_def cons_edit_def INPUT_BUF_def)
  have "cons_lines ?t @ cons_edit ?t = cons_lines s @ cons_edit s @ [c]"
    using ring_split(2) [of "cons_w s" "cons_r s" "cons_e s + 1" INPUT_BUF "cons_buf ?t"] lt' all
    by (simp add: cons_lines_def cons_edit_def cons_put_def)
  moreover have "length (cons_lines ?t) = length (cons_lines s)"
    by (simp add: cons_lines_def cons_put_def)
  ultimately show "cons_lines ?t = cons_lines s" and "cons_edit ?t = cons_edit s @ [c]"
    by (simp_all add: append_eq_append_conv)
qed

lemma cons_back:
  assumes "cons_e s \<noteq> cons_w s"
  shows "cons_edit s = cons_edit (s\<lparr>cons_e := cons_e s - 1\<rparr>) @ [cons_buf s (unat (cons_e s - 1) mod INPUT_BUF)]"
  using ring_unput [of "cons_w s" "cons_e s" INPUT_BUF "cons_buf s"] assms
  by (simp add: cons_edit_def)

lemma cons_edit_empty: "cons_edit s = [] \<longleftrightarrow> cons_e s = cons_w s"
proof -
  have "cons_edit s = [] \<longleftrightarrow> unat (cons_e s - cons_w s) = 0"
    by (simp flip: length_0_conv add: cons_edit_def)
  then show ?thesis by (simp add: unat_eq_0)
qed

lemma kill_line_edit:
  assumes "kill_line s = Inr t"
  shows "cons_buf t = cons_buf s \<and> cons_r t = cons_r s \<and> cons_w t = cons_w s \<and> held t = held s \<and>
    cons_edit t = rev (dropWhile (\<lambda>b. b \<noteq> 10) (rev (cons_edit s)))"
  using assms
proof (induction s arbitrary: t rule: kill_line.induct)
  case (1 s)
  let ?b = "cons_buf s (unat (cons_e s - 1) mod INPUT_BUF)"
  show ?case
  proof (cases "cons_e s \<noteq> cons_w s \<and> ?b \<noteq> 10")
    case True
    let ?s = "s\<lparr>cons_e := cons_e s - 1\<rparr>"
    obtain u where u: "consputc BACKSPACE ?s = Inr u" "kill_line u = Inr t"
      using 1(2) True by (auto simp: kill_line.simps [of s] andthen_eq_Inr_iff)
    note f = output_only_fields [OF consputc_output [OF u(1)]]
    have "cons_edit u = cons_edit ?s" using f by (simp add: cons_edit_def)
    moreover have "cons_edit s = cons_edit ?s @ [?b]" by (rule cons_back) (use True in simp)
    ultimately show ?thesis using 1(1) [OF True u] f True by simp
  next
    case False
    then have t: "t = s" using 1(2) by (auto simp: kill_line.simps [of s])
    show ?thesis
    proof (cases "cons_e s = cons_w s")
      case True
      then have "cons_edit s = []" by (simp add: cons_edit_empty)
      then show ?thesis using t by simp
    next
      case ne: False
      then have "cons_edit s = cons_edit (s\<lparr>cons_e := cons_e s - 1\<rparr>) @ [10]"
        using cons_back [OF ne] False by simp
      then show ?thesis using t by simp
    qed
  qed
qed

text \<open>The branches of the handler, between taking and releasing the lock.\<close>

lemma consoleintr_char:
  assumes "cons_ok s" and "length (cons_lines s) + length (cons_edit s) < INPUT_BUF"
    and "andthen (consputc k s) (\<lambda>s. let s = cons_put c s in
      if c = 10 \<or> c = ctrl CHR ''D'' \<or> cons_e s = cons_r s + of_nat INPUT_BUF
      then wakeup ConsChan (s\<lparr>cons_w := cons_e s\<rparr>) else Inr s) = Inr t"
  shows "held t = held s \<and> (cons_lines t, cons_edit t) =
    (if c = 10 \<or> c = ctrl CHR ''D'' \<or> length (cons_lines s) + length (cons_edit s) + 1 = INPUT_BUF
     then (cons_lines s @ cons_edit s @ [c], []) else (cons_lines s, cons_edit s @ [c]))"
proof -
  obtain u where u: "consputc k s = Inr u" using assms(3) by (auto simp: andthen_eq_Inr_iff)
  note f = output_only_fields [OF consputc_output [OF u]]
  have su: "cons_lines u = cons_lines s" "cons_edit u = cons_edit s"
    using f by (simp_all add: cons_lines_def cons_edit_def)
  have ok: "cons_ok u" and room: "length (cons_lines u) + length (cons_edit u) < INPUT_BUF"
    using assms(1,2) su by (simp_all add: cons_ok_def)
  let ?v = "cons_put c u"
  note put = cons_put_lists [OF ok room, of c]
  have full: "cons_e ?v = cons_r ?v + of_nat INPUT_BUF \<longleftrightarrow>
    length (cons_lines s) + length (cons_edit s) + 1 = INPUT_BUF"
    using cons_room(3) [OF ok] su by (simp add: cons_put_def)
  show ?thesis
  proof (cases "c = 10 \<or> c = ctrl CHR ''D'' \<or> cons_e ?v = cons_r ?v + of_nat INPUT_BUF")
    case True
    then have "wakeup ConsChan (?v\<lparr>cons_w := cons_e ?v\<rparr>) = Inr t" using assms(3) u by (simp add: Let_def)
    then obtain ps where t: "t = ?v\<lparr>cons_w := cons_e ?v, procs := ps\<rparr>"
      using wakeup_frame by fastforce
    have "unat (cons_w ?v - cons_r ?v) = length (cons_lines ?v)"
      and "unat (cons_e ?v - cons_w ?v) = length (cons_edit ?v)"
      by (simp_all add: cons_lines_def cons_edit_def)
    then have "unat (cons_w ?v - cons_r ?v) + unat (cons_e ?v - cons_w ?v) < 2 ^ LENGTH(32)"
      using put room by (simp add: INPUT_BUF_def)
    note sp = ring_split(2) [OF this, of INPUT_BUF "cons_buf ?v"]
    have l: "cons_lines t = ring_items INPUT_BUF (cons_buf ?v) (cons_r ?v) (cons_e ?v)"
      unfolding t by (simp add: cons_lines_def)
    have "cons_lines t = cons_lines ?v @ cons_edit ?v"
      unfolding l sp by (simp add: cons_lines_def cons_edit_def)
    moreover have "cons_edit t = []" unfolding t by (simp add: cons_edit_empty)
    moreover have "held t = held s" unfolding t using f by (simp add: cons_put_def)
    moreover have "c = 10 \<or> c = ctrl CHR ''D'' \<or>
      length (cons_lines s) + length (cons_edit s) + 1 = INPUT_BUF" using True full by blast
    ultimately show ?thesis using put su by simp
  next
    case False
    then have "t = ?v" using assms(3) u by (auto simp: Let_def)
    then show ?thesis using put su False full f by (auto simp: cons_put_def)
  qed
qed

definition consoleintr_body :: "u8 \<Rightarrow> 'z kcons_scheme \<Rightarrow> ('z kcons_scheme, 'z kcons_scheme) res" where
  "consoleintr_body c s =
     (if c = ctrl CHR ''P'' then procdump s
      else if c = ctrl CHR ''U'' then kill_line s
      else if c = ctrl CHR ''H'' \<or> c = 0x7f then
        if cons_e s \<noteq> cons_w s then consputc BACKSPACE (s\<lparr>cons_e := cons_e s - 1\<rparr>) else Inr s
      else if c \<noteq> 0 \<and> cons_e s - cons_r s < of_nat INPUT_BUF then
        (let c = (if c = 13 then 10 else c) in
         andthen (consputc (ucast c) s) (\<lambda>s.
         let s = cons_put c s in
         if c = 10 \<or> c = ctrl CHR ''D'' \<or> cons_e s = cons_r s + of_nat INPUT_BUF
         then wakeup ConsChan (s\<lparr>cons_w := cons_e s\<rparr>)
         else Inr s))
      else Inr s)"

lemma consoleintr_split:
  "consoleintr c s =
    andthen (acquire_lk ConsLock s) (\<lambda>s. andthen (consoleintr_body c s) (release_lk ConsLock))"
  by (simp add: consoleintr_def consoleintr_body_def)

lemma type_char_bounded:
  "length ls + length ed \<le> INPUT_BUF \<Longrightarrow> type_char c (ls, ed) = (ls', ed') \<Longrightarrow>
   length ls' + length ed' \<le> INPUT_BUF"
  using length_dropWhile_le [of "\<lambda>b. b \<noteq> 10" "rev ed"]
  by (auto simp: type_char_def Let_def split: if_splits)

lemma consoleintr_body_refines:
  assumes "consoleintr_body c s = Inr t" and "cons_ok s"
  shows "(cons_lines t, cons_edit t) = type_char c (cons_lines s, cons_edit s) \<and> held t = held s"
proof -
  consider (dump) "c = ctrl CHR ''P''"
    | (kill) "c \<noteq> ctrl CHR ''P''" "c = ctrl CHR ''U''"
    | (erase) "c \<noteq> ctrl CHR ''P''" "c \<noteq> ctrl CHR ''U''" "c = ctrl CHR ''H'' \<or> c = 0x7f"
    | (char) "c \<noteq> ctrl CHR ''P''" "c \<noteq> ctrl CHR ''U''" "\<not> (c = ctrl CHR ''H'' \<or> c = 0x7f)"
    by blast
  then show ?thesis
  proof cases
    case dump
    then have "output_only s t" using assms(1) procdump_output by (auto simp: consoleintr_body_def)
    from output_only_fields [OF this] dump show ?thesis
      by (simp add: type_char_def cons_lines_def cons_edit_def)
  next
    case kill
    then have "kill_line s = Inr t" using assms(1) by (auto simp: consoleintr_body_def)
    from kill_line_edit [OF this] kill show ?thesis by (simp add: type_char_def cons_lines_def)
  next
    case erase
    show ?thesis
    proof (cases "cons_e s = cons_w s")
      case True
      then have "t = s" "cons_edit s = []" using assms(1) erase by (auto simp: consoleintr_body_def cons_edit_empty)
      then show ?thesis using erase by (simp add: type_char_def)
    next
      case False
      then have "consputc BACKSPACE (s\<lparr>cons_e := cons_e s - 1\<rparr>) = Inr t"
        using assms(1) erase by (auto simp: consoleintr_body_def)
      note f = output_only_fields [OF consputc_output [OF this]]
      from cons_back [OF False] have "butlast (cons_edit s) = cons_edit (s\<lparr>cons_e := cons_e s - 1\<rparr>)"
        by simp
      then show ?thesis using f erase by (simp add: type_char_def cons_lines_def cons_edit_def)
    qed
  next
    case char
    show ?thesis
    proof (cases "c \<noteq> 0 \<and> cons_e s - cons_r s < of_nat INPUT_BUF")
      case True
      then have room: "length (cons_lines s) + length (cons_edit s) < INPUT_BUF"
        using cons_room(2) [OF assms(2)] by blast
      from consoleintr_char [OF assms(2) room, of "ucast (if c = 13 then 10 else c)" "if c = 13 then 10 else c" t]
      show ?thesis using assms(1) char True room
        by (simp add: consoleintr_body_def type_char_def Let_def cong: if_cong)
    next
      case False
      then have "t = s" using assms(1) char by (auto simp: consoleintr_body_def)
      moreover have "\<not> (c \<noteq> 0 \<and> length (cons_lines s) + length (cons_edit s) < INPUT_BUF)"
        using False cons_room(2) [OF assms(2)] by blast
      ultimately show ?thesis using char by (auto simp: type_char_def)
    qed
  qed
qed

subsection \<open>Properties\<close>

text \<open>
  C35. The console's line discipline. The interrupt handler implements an abstract editor on two
  lists, the finished characters and the line being edited: a character is appended to the line,
  backspace removes the last, control-U the line, and a newline, control-D or a full buffer
  finishes it. The handler keeps the buffer's bound and gives its lock erase.
\<close>

theorem consoleintr_refines:
  assumes "consoleintr c s = Inr t" and "cons_ok s"
  shows "(cons_lines t, cons_edit t) = type_char c (cons_lines s, cons_edit s) \<and> cons_ok t \<and>
    held t = held s"
proof -
  let ?s = "s\<lparr>held := insert ConsLock (held s)\<rparr>"
  from assms(1) obtain u where nh: "ConsLock \<notin> held s" and u: "consoleintr_body c ?s = Inr u"
    and t: "t = u\<lparr>held := held u - {ConsLock}\<rparr>"
    by (auto simp: consoleintr_split andthen_eq_Inr_iff acquire_lk_def release_lk_def split: if_splits)
  have eq: "cons_lines ?s = cons_lines s" "cons_edit ?s = cons_edit s" "cons_lines t = cons_lines u"
    "cons_edit t = cons_edit u" by (simp_all add: t cons_lines_def cons_edit_def)
  have "cons_ok ?s" using assms(2) eq by (simp add: cons_ok_def)
  from consoleintr_body_refines [OF u this] nh
  have r: "(cons_lines t, cons_edit t) = type_char c (cons_lines s, cons_edit s)"
    and h: "held t = held s"
    unfolding eq by (auto simp: t)
  moreover have "cons_ok t"
    using type_char_bounded [OF _ r [symmetric]] assms(2) by (simp add: cons_ok_def)
  ultimately show ?thesis by blast
qed

definition kcons_ex :: kcons where
  "kcons_ex = \<lparr>held = {}, curproc = Some 0, procs = procs (ksync_ex RUNNING), nextpid = 1,
     initproc = None, ticks = 0, mem = (\<lambda>_. 0), kend = 0x80021000, freelist = 0,
     khart = undefined, kernel_pagetable = 0, ketext = 0, ktrampoline = 0,
     pipes = (\<lambda>_. pipes kpipe_ex 0), uart_tx_buf = (\<lambda>_. 0), uart_tx_w = 0, uart_tx_r = 0,
     uart_in = [0x20, 0x20, 0x20], uart_out = [], panicked = False, pr_locking = True,
     cons_buf = (\<lambda>_. 0), cons_r = 0xFFFFFFFF, cons_w = 0xFFFFFFFF, cons_e = 0xFFFFFFFF,
     devsw = (\<lambda>_. None)\<rparr>"

theorem consoleintr_refines_witness:
  "\<exists>t. consoleintr 97 kcons_ex = Inr t \<and> cons_edit t = [97]"
proof -
  have ok: "cons_ok kcons_ex" and e: "cons_lines kcons_ex = []" "cons_edit kcons_ex = []"
    by (simp_all add: cons_ok_def cons_lines_def cons_edit_def kcons_ex_def ring_items_def)
  have "\<exists>t. consoleintr 97 kcons_ex = Inr t"
    by (simp add: consoleintr_def kcons_ex_def acquire_lk_free ctrl_def INPUT_BUF_def consputc_def
        BACKSPACE_def uartputc_sync_def LSR_TX_IDLE_def WriteReg_def cons_put_def release_lk_held Let_def)
  then obtain t where t: "consoleintr 97 kcons_ex = Inr t" by blast
  from consoleintr_refines [OF t ok] t show ?thesis
    by (auto simp: e type_char_def ctrl_def INPUT_BUF_def)
qed

end
