(* ===== verification/Sleeplock.thy ===== *)
theory Sleeplock
  imports Console
begin

section \<open>Sleep locks\<close>

text \<open>
  \<^verbatim>\<open>kernel/sleeplock.c\<close>. A sleep lock is a flag and the pid of its holder, protected by an inner spin
  lock. \<^verbatim>\<open>acquiresleep\<close> on a lock that is taken ends in \<open>Sleeping\<close>; \<open>acquiresleep_resume\<close> is the rest of
  its loop.
\<close>

record sleeplock =
  slk_locked :: bool
  slk_pid :: int

record ksleep = kcons +
  sleeplocks :: "sleeplockid \<Rightarrow> sleeplock"

definition initsleeplock :: "sleeplockid \<Rightarrow> 'z ksleep_scheme \<Rightarrow> 'z ksleep_scheme" where
  "initsleeplock l s = s\<lparr>sleeplocks := (sleeplocks s)(l := \<lparr>slk_locked = False, slk_pid = 0\<rparr>)\<rparr>"

definition acquiresleep_loop ::
    "sleeplockid \<Rightarrow> 'z ksleep_scheme \<Rightarrow> ('z ksleep_scheme, 'z ksleep_scheme) res" where
  "acquiresleep_loop l s =
     (if slk_locked (sleeplocks s l) then sleep (SleepLockChan l) (SleepLk l) s
      else with_proc s (\<lambda>p.
        release_lk (SleepLk l) (s\<lparr>sleeplocks := (sleeplocks s)
          (l := \<lparr>slk_locked = True, slk_pid = p_pid (procs s p)\<rparr>)\<rparr>)))"

definition acquiresleep ::
    "sleeplockid \<Rightarrow> 'z ksleep_scheme \<Rightarrow> ('z ksleep_scheme, 'z ksleep_scheme) res" where
  "acquiresleep l s = andthen (acquire_lk (SleepLk l) s) (acquiresleep_loop l)"

definition acquiresleep_resume ::
    "sleeplockid \<Rightarrow> 'z ksleep_scheme \<Rightarrow> ('z ksleep_scheme, 'z ksleep_scheme) res" where
  "acquiresleep_resume l s = andthen (sleep_resume (SleepLk l) s) (acquiresleep_loop l)"

definition releasesleep ::
    "sleeplockid \<Rightarrow> 'z ksleep_scheme \<Rightarrow> ('z ksleep_scheme, 'z ksleep_scheme) res" where
  "releasesleep l s =
     andthen (acquire_lk (SleepLk l) s) (\<lambda>s.
     andthen (wakeup (SleepLockChan l)
       (s\<lparr>sleeplocks := (sleeplocks s)(l := \<lparr>slk_locked = False, slk_pid = 0\<rparr>)\<rparr>)) (\<lambda>s.
     release_lk (SleepLk l) s))"

definition holdingsleep ::
    "sleeplockid \<Rightarrow> 'z ksleep_scheme \<Rightarrow> ('z ksleep_scheme, bool \<times> 'z ksleep_scheme) res" where
  "holdingsleep l s =
     andthen (acquire_lk (SleepLk l) s) (\<lambda>s. with_proc s (\<lambda>p.
     let r = (slk_locked (sleeplocks s l) \<and> slk_pid (sleeplocks s l) = p_pid (procs s p))
     in andthen (release_lk (SleepLk l) s) (\<lambda>s. Inr (r, s))))"

subsection \<open>Behaviour\<close>

text \<open>This process holds the lock.\<close>

definition mine :: "sleeplockid \<Rightarrow> 'z ksleep_scheme \<Rightarrow> bool" where
  "mine l s \<longleftrightarrow> (\<exists>p. curproc s = Some p \<and> slk_locked (sleeplocks s l) \<and>
     slk_pid (sleeplocks s l) = p_pid (procs s p))"

lemma acquiresleep_free [kernel_simps]:
  assumes "SleepLk l \<notin> held s" and "\<not> slk_locked (sleeplocks s l)" and "curproc s = Some p"
  shows "acquiresleep l s = Inr (s\<lparr>sleeplocks := (sleeplocks s)
    (l := \<lparr>slk_locked = True, slk_pid = p_pid (procs s p)\<rparr>)\<rparr>)"
  using assms by (simp add: acquiresleep_def acquiresleep_loop_def acquire_lk_free release_lk_held)

lemma holdingsleep_eq [kernel_simps]:
  "SleepLk l \<notin> held s \<Longrightarrow> curproc s = Some p \<Longrightarrow> holdingsleep l s = Inr (mine l s, s)"
  by (simp add: holdingsleep_def acquire_lk_free release_lk_held Let_def mine_def)

lemma releasesleep_eq [kernel_simps]:
  assumes "SleepLk l \<notin> held s" and "no_proc_lock s"
  shows "releasesleep l s = Inr (s\<lparr>sleeplocks := (sleeplocks s)(l := \<lparr>slk_locked = False, slk_pid = 0\<rparr>),
    procs := awake_in (SleepLockChan l) (curproc s) {0..<NPROC} (procs s)\<rparr>)"
proof -
  let ?s = "s\<lparr>held := insert (SleepLk l) (held s),
    sleeplocks := (sleeplocks s)(l := \<lparr>slk_locked = False, slk_pid = 0\<rparr>)\<rparr>"
  have "no_proc_lock ?s" using assms(2) by (simp add: no_proc_lock_def)
  then show ?thesis using assms by (simp add: releasesleep_def acquire_lk_free wakeup_eq release_lk_held)
qed

text \<open>
  C37. A sleep lock admits one holder. \<^verbatim>\<open>acquiresleep\<close> on a free lock makes this process its holder;
  on a lock that is taken, by whomever, it goes to sleep without changing the lock; and
  \<^verbatim>\<open>releasesleep\<close> frees the lock and makes every process that waits for it runnable.
\<close>

theorem sleeplock_exclusive:
  assumes "held s = {}" and "curproc s = Some p"
  shows "(if slk_locked (sleeplocks s l)
     then \<exists>t. acquiresleep l s = Inl (Sleeping (SleepLockChan l) t) \<and> sleeplocks t = sleeplocks s \<and>
       p_state (procs t p) = SLEEPING \<and> held t = {ProcLock p}
     else \<exists>t. acquiresleep l s = Inr t \<and> mine l t \<and> held t = {}) \<and>
    (\<exists>t. releasesleep l s = Inr t \<and> \<not> slk_locked (sleeplocks t l) \<and> held t = {} \<and>
      (\<forall>q < NPROC. q \<noteq> p \<longrightarrow> p_state (procs s q) = SLEEPING \<longrightarrow>
        p_chan (procs s q) = Some (SleepLockChan l) \<longrightarrow> p_state (procs t q) = RUNNABLE))"
proof (intro conjI)
  have npl: "no_proc_lock s" using assms(1) by (simp add: no_proc_lock_def)
  show "\<exists>t. releasesleep l s = Inr t \<and> \<not> slk_locked (sleeplocks t l) \<and> held t = {} \<and>
      (\<forall>q < NPROC. q \<noteq> p \<longrightarrow> p_state (procs s q) = SLEEPING \<longrightarrow>
        p_chan (procs s q) = Some (SleepLockChan l) \<longrightarrow> p_state (procs t q) = RUNNABLE)"
    using assms npl by (auto simp: releasesleep_eq awake_in_def awake_def)
  show "if slk_locked (sleeplocks s l)
     then \<exists>t. acquiresleep l s = Inl (Sleeping (SleepLockChan l) t) \<and> sleeplocks t = sleeplocks s \<and>
       p_state (procs t p) = SLEEPING \<and> held t = {ProcLock p}
     else \<exists>t. acquiresleep l s = Inr t \<and> mine l t \<and> held t = {}"
  proof (cases "slk_locked (sleeplocks s l)")
    case True
    then show ?thesis
      using assms by (simp add: acquiresleep_def acquire_lk_free acquiresleep_loop_def
          sleep_eq [where p = p] upd_proc_def)
  qed (use assms in \<open>auto simp: acquiresleep_free mine_def\<close>)
qed

definition ksleep_ex :: "bool \<Rightarrow> ksleep" where
  "ksleep_ex b = kcons.extend kcons_ex \<lparr>sleeplocks = (\<lambda>_. \<lparr>slk_locked = b, slk_pid = 5\<rparr>)\<rparr>"

theorem sleeplock_exclusive_witness:
  "(\<exists>t. acquiresleep (BufLock 3) (ksleep_ex False) = Inr t \<and> mine (BufLock 3) t) \<and>
   (\<exists>t. acquiresleep (BufLock 3) (ksleep_ex True) = Inl (Sleeping (SleepLockChan (BufLock 3)) t))"
proof -
  have h: "held (ksleep_ex b) = {}" "curproc (ksleep_ex b) = Some 0"
    "slk_locked (sleeplocks (ksleep_ex b) l) = b" for b l
    by (simp_all add: ksleep_ex_def kcons.extend_def kcons_ex_def)
  from sleeplock_exclusive [OF h(1,2), of False "BufLock 3"]
    sleeplock_exclusive [OF h(1,2), of True "BufLock 3"]
  show ?thesis by (auto simp: h)
qed

end
