(* ===== verification/Bio.thy ===== *)
theory Bio
  imports Sleeplock Memory
begin

section \<open>The buffer cache\<close>

text \<open>
  \<^verbatim>\<open>kernel/bio.c\<close> and \<^verbatim>\<open>kernel/buf.h\<close>. A block is a function from the offset to its byte; only offsets
  below \<^verbatim>\<open>BSIZE\<close> are used. The doubly linked list through \<^verbatim>\<open>prev\<close> and \<^verbatim>\<open>next\<close> is the list \<open>lru\<close> of buffer
  numbers, \<^verbatim>\<open>head.next\<close> first.

  \<open>virtio_disk_rw\<close> here is what the rest of the kernel sees of the disk driver: when it returns, the
  request is done. The driver itself is in theory \<open>Virtio\<close>. \<open>dtrace\<close> records the writes to the disk
  in order, so that a crash between any two of them can be stated.
\<close>

definition BSIZE :: nat where "BSIZE = 1024"

type_synonym block = "nat \<Rightarrow> u8"

record buf =
  b_valid :: bool
  b_dev :: u32
  b_blockno :: u32
  b_refcnt :: u32
  b_data :: block

record kbio = ksleep +
  bufs :: "nat \<Rightarrow> buf"
  lru :: "nat list"
  disk :: "u32 \<Rightarrow> block"
  dtrace :: "(u32 \<times> block) list"

definition upd_buf :: "nat \<Rightarrow> (buf \<Rightarrow> buf) \<Rightarrow> 'z kbio_scheme \<Rightarrow> 'z kbio_scheme" where
  "upd_buf b f s = s\<lparr>bufs := (bufs s)(b := f (bufs s b))\<rparr>"

definition binit :: "'z kbio_scheme \<Rightarrow> 'z kbio_scheme" where
  "binit s = fold (\<lambda>b s. initsleeplock (BufLock b) (s\<lparr>lru := b # lru s\<rparr>)) [0..<NBUF] (s\<lparr>lru := []\<rparr>)"

definition virtio_disk_rw :: "nat \<Rightarrow> bool \<Rightarrow> 'z kbio_scheme \<Rightarrow> 'z kbio_scheme" where
  "virtio_disk_rw b write s =
     (let n = b_blockno (bufs s b) in
      if write then s\<lparr>disk := (disk s)(n := b_data (bufs s b)), dtrace := dtrace s @ [(n, b_data (bufs s b))]\<rparr>
      else upd_buf b (\<lambda>q. q\<lparr>b_data := disk s n\<rparr>) s)"

definition bget ::
    "u32 \<Rightarrow> u32 \<Rightarrow> 'z kbio_scheme \<Rightarrow> ('z kbio_scheme, nat \<times> 'z kbio_scheme) res" where
  "bget dev blockno s =
     andthen (acquire_lk BcacheLock s) (\<lambda>s.
     case find (\<lambda>b. b_dev (bufs s b) = dev \<and> b_blockno (bufs s b) = blockno) (lru s) of
       Some b \<Rightarrow>
         (let s = upd_buf b (\<lambda>q. q\<lparr>b_refcnt := b_refcnt q + 1\<rparr>) s in
          andthen (release_lk BcacheLock s) (\<lambda>s.
          andthen (acquiresleep (BufLock b) s) (\<lambda>s. Inr (b, s))))
     | None \<Rightarrow>
         (case find (\<lambda>b. b_refcnt (bufs s b) = 0) (rev (lru s)) of
            Some b \<Rightarrow>
              (let s = upd_buf b (\<lambda>q. q\<lparr>b_dev := dev, b_blockno := blockno, b_valid := False,
                 b_refcnt := 1\<rparr>) s in
               andthen (release_lk BcacheLock s) (\<lambda>s.
               andthen (acquiresleep (BufLock b) s) (\<lambda>s. Inr (b, s))))
          | None \<Rightarrow> Inl (Panic ''bget: no buffers'')))"

definition bread ::
    "u32 \<Rightarrow> u32 \<Rightarrow> 'z kbio_scheme \<Rightarrow> ('z kbio_scheme, nat \<times> 'z kbio_scheme) res" where
  "bread dev blockno s =
     andthen (bget dev blockno s) (\<lambda>(b, s).
     if \<not> b_valid (bufs s b)
     then Inr (b, upd_buf b (\<lambda>q. q\<lparr>b_valid := True\<rparr>) (virtio_disk_rw b False s))
     else Inr (b, s))"

definition bwrite :: "nat \<Rightarrow> 'z kbio_scheme \<Rightarrow> ('z kbio_scheme, 'z kbio_scheme) res" where
  "bwrite b s =
     andthen (holdingsleep (BufLock b) s) (\<lambda>(h, s).
     if \<not> h then Inl (Panic ''bwrite'') else Inr (virtio_disk_rw b True s))"

definition brelse :: "nat \<Rightarrow> 'z kbio_scheme \<Rightarrow> ('z kbio_scheme, 'z kbio_scheme) res" where
  "brelse b s =
     andthen (holdingsleep (BufLock b) s) (\<lambda>(h, s).
     if \<not> h then Inl (Panic ''brelse'')
     else
       andthen (releasesleep (BufLock b) s) (\<lambda>s.
       andthen (acquire_lk BcacheLock s) (\<lambda>s.
       let s = upd_buf b (\<lambda>q. q\<lparr>b_refcnt := b_refcnt q - 1\<rparr>) s;
           s = (if b_refcnt (bufs s b) = 0 then s\<lparr>lru := b # remove1 b (lru s)\<rparr> else s)
       in release_lk BcacheLock s)))"

definition bpin :: "nat \<Rightarrow> 'z kbio_scheme \<Rightarrow> ('z kbio_scheme, 'z kbio_scheme) res" where
  "bpin b s =
     andthen (acquire_lk BcacheLock s) (\<lambda>s.
     release_lk BcacheLock (upd_buf b (\<lambda>q. q\<lparr>b_refcnt := b_refcnt q + 1\<rparr>) s))"

definition bunpin :: "nat \<Rightarrow> 'z kbio_scheme \<Rightarrow> ('z kbio_scheme, 'z kbio_scheme) res" where
  "bunpin b s =
     andthen (acquire_lk BcacheLock s) (\<lambda>s.
     release_lk BcacheLock (upd_buf b (\<lambda>q. q\<lparr>b_refcnt := b_refcnt q - 1\<rparr>) s))"

subsection \<open>The invariant\<close>

text \<open>
  Every buffer is on the list once; a block of a device is in at most one buffer; a buffer that
  nobody references is unlocked, and, if valid, agrees with the disk, so it can be recycled.
  The disk is device \<^verbatim>\<open>ROOTDEV\<close>; buffers that were never used have device 0.
\<close>

definition bio_ok :: "'z kbio_scheme \<Rightarrow> bool" where
  "bio_ok s \<longleftrightarrow> distinct (lru s) \<and> set (lru s) = {0..<NBUF} \<and>
     (\<forall>i < NBUF. b_dev (bufs s i) = 0 \<and> b_refcnt (bufs s i) = 0 \<or> b_dev (bufs s i) = ROOTDEV) \<and>
     (\<forall>i < NBUF. \<forall>j < NBUF. b_dev (bufs s i) \<noteq> 0 \<longrightarrow> b_dev (bufs s i) = b_dev (bufs s j) \<longrightarrow>
       b_blockno (bufs s i) = b_blockno (bufs s j) \<longrightarrow> i = j) \<and>
     (\<forall>i < NBUF. b_refcnt (bufs s i) = 0 \<longrightarrow> \<not> slk_locked (sleeplocks s (BufLock i)) \<and>
       (b_valid (bufs s i) \<longrightarrow> b_dev (bufs s i) \<noteq> 0 \<longrightarrow> b_data (bufs s i) = disk s (b_blockno (bufs s i))))"

definition cached :: "u32 \<Rightarrow> u32 \<Rightarrow> 'z kbio_scheme \<Rightarrow> nat \<Rightarrow> bool" where
  "cached dev n s b \<longleftrightarrow> b < NBUF \<and> b_dev (bufs s b) = dev \<and> b_blockno (bufs s b) = n"

text \<open>The content of a block as the kernel sees it: the cached copy, or else the disk.\<close>

definition view :: "'z kbio_scheme \<Rightarrow> u32 \<Rightarrow> u32 \<Rightarrow> block" where
  "view s dev n =
     (case find (\<lambda>b. b_dev (bufs s b) = dev \<and> b_blockno (bufs s b) = n \<and> b_valid (bufs s b)) (lru s) of
        Some b \<Rightarrow> b_data (bufs s b) | None \<Rightarrow> disk s n)"

lemma bio_okD:
  assumes "bio_ok s"
  shows "distinct (lru s)" and "set (lru s) = {0..<NBUF}"
    and "cached dev n s i \<Longrightarrow> cached dev n s j \<Longrightarrow> dev \<noteq> 0 \<Longrightarrow> i = j"
    and "i < NBUF \<Longrightarrow> b_refcnt (bufs s i) = 0 \<Longrightarrow> \<not> slk_locked (sleeplocks s (BufLock i))"
    and "i < NBUF \<Longrightarrow> b_refcnt (bufs s i) = 0 \<Longrightarrow> b_valid (bufs s i) \<Longrightarrow> b_dev (bufs s i) \<noteq> 0 \<Longrightarrow>
      b_data (bufs s i) = disk s (b_blockno (bufs s i))"
  using assms by (auto simp: bio_ok_def cached_def)

lemma bio_okI:
  assumes "distinct (lru s)" and "set (lru s) = {0..<NBUF}"
    and "\<And>i. i < NBUF \<Longrightarrow> b_dev (bufs s i) = 0 \<and> b_refcnt (bufs s i) = 0 \<or> b_dev (bufs s i) = ROOTDEV"
    and "\<And>i j. i < NBUF \<Longrightarrow> j < NBUF \<Longrightarrow> b_dev (bufs s i) \<noteq> 0 \<Longrightarrow> b_dev (bufs s i) = b_dev (bufs s j) \<Longrightarrow>
      b_blockno (bufs s i) = b_blockno (bufs s j) \<Longrightarrow> i = j"
    and "\<And>i. i < NBUF \<Longrightarrow> b_refcnt (bufs s i) = 0 \<Longrightarrow> \<not> slk_locked (sleeplocks s (BufLock i))"
    and "\<And>i. i < NBUF \<Longrightarrow> b_refcnt (bufs s i) = 0 \<Longrightarrow> b_valid (bufs s i) \<Longrightarrow> b_dev (bufs s i) \<noteq> 0 \<Longrightarrow>
      b_data (bufs s i) = disk s (b_blockno (bufs s i))"
  shows "bio_ok s"
  unfolding bio_ok_def using assms(1,2) by (intro conjI allI impI assms(3-6))

lemma bio_ok_dev: "bio_ok s \<Longrightarrow> i < NBUF \<Longrightarrow> b_dev (bufs s i) = 0 \<and> b_refcnt (bufs s i) = 0 \<or> b_dev (bufs s i) = ROOTDEV"
  by (simp add: bio_ok_def)

lemma find_eq_SomeI:
  assumes "x \<in> set xs" and "P x" and "\<And>y. y \<in> set xs \<Longrightarrow> P y \<Longrightarrow> y = x"
  shows "find P xs = Some x"
proof (cases "find P xs")
  case None
  then show ?thesis using assms(1,2) by (auto simp: find_None_iff)
next
  case (Some y)
  then have "P y" "y \<in> set xs" by (auto simp: find_Some_iff)
  then show ?thesis using Some assms(3) by simp
qed

lemma cached_unique:
  assumes "bio_ok s" and "cached dev n s b" and "dev \<noteq> 0"
  shows "b \<in> set (lru s)" and "b_dev (bufs s b) = dev" and "b_blockno (bufs s b) = n"
    and "y \<in> set (lru s) \<Longrightarrow> b_dev (bufs s y) = dev \<Longrightarrow> b_blockno (bufs s y) = n \<Longrightarrow> y = b"
proof -
  show "b \<in> set (lru s)" "b_dev (bufs s b) = dev" "b_blockno (bufs s b) = n"
    using assms(2) by (simp_all add: bio_okD(2) [OF assms(1)] cached_def)
  assume "y \<in> set (lru s)" "b_dev (bufs s y) = dev" "b_blockno (bufs s y) = n"
  then have "cached dev n s y" by (simp add: bio_okD(2) [OF assms(1)] cached_def)
  then show "y = b" using bio_okD(3) [OF assms(1) _ assms(2,3)] by blast
qed

lemma find_cached:
  assumes "bio_ok s" and "cached dev n s b" and "dev \<noteq> 0"
  shows "find (\<lambda>b. b_dev (bufs s b) = dev \<and> b_blockno (bufs s b) = n) (lru s) = Some b"
  by (rule find_eq_SomeI) (use cached_unique [OF assms] in blast)+

lemma find_not_cached:
  assumes "bio_ok s" and "\<forall>b. \<not> cached dev n s b"
  shows "find (\<lambda>b. b_dev (bufs s b) = dev \<and> b_blockno (bufs s b) = n) (lru s) = None"
  using assms bio_okD(2) [OF assms(1)] by (auto simp: find_None_iff cached_def)

lemma view_cached:
  assumes "bio_ok s" and "cached dev n s b" and "dev \<noteq> 0"
  shows "view s dev n = (if b_valid (bufs s b) then b_data (bufs s b) else disk s n)"
proof -
  note u = cached_unique [OF assms]
  have "find (\<lambda>b. b_dev (bufs s b) = dev \<and> b_blockno (bufs s b) = n \<and> b_valid (bufs s b)) (lru s) =
    (if b_valid (bufs s b) then Some b else None)"
  proof (cases "b_valid (bufs s b)")
    case True
    have "find (\<lambda>b. b_dev (bufs s b) = dev \<and> b_blockno (bufs s b) = n \<and> b_valid (bufs s b)) (lru s) =
      Some b" by (rule find_eq_SomeI) (use u True in blast)+
    then show ?thesis using True by simp
  next
    case False
    then have "\<not> (b_dev (bufs s y) = dev \<and> b_blockno (bufs s y) = n \<and> b_valid (bufs s y))"
      if "y \<in> set (lru s)" for y using u(4) [OF that] by blast
    then have "find (\<lambda>b. b_dev (bufs s b) = dev \<and> b_blockno (bufs s b) = n \<and> b_valid (bufs s b)) (lru s) =
      None" unfolding find_None_iff by blast
    then show ?thesis using False by simp
  qed
  then show ?thesis by (simp add: view_def)
qed

lemma view_not_cached:
  assumes "bio_ok s" and "\<forall>b. \<not> cached dev n s b"
  shows "view s dev n = disk s n"
proof -
  have "find (\<lambda>b. b_dev (bufs s b) = dev \<and> b_blockno (bufs s b) = n \<and> b_valid (bufs s b)) (lru s) = None"
    using assms bio_okD(2) [OF assms(1)] by (auto simp: find_None_iff cached_def)
  then show ?thesis by (simp add: view_def)
qed

subsection \<open>Reading a block\<close>

text \<open>A process runs and this CPU holds no spin lock.\<close>

definition calm :: "nat \<Rightarrow> 'z kbio_scheme \<Rightarrow> bool" where
  "calm p s \<longleftrightarrow> curproc s = Some p \<and> held s = {}"

definition lock_buf :: "nat \<Rightarrow> nat \<Rightarrow> 'z kbio_scheme \<Rightarrow> 'z kbio_scheme" where
  "lock_buf p b s = s\<lparr>sleeplocks := (sleeplocks s)
     (BufLock b := \<lparr>slk_locked = True, slk_pid = p_pid (procs s p)\<rparr>)\<rparr>"

lemma upd_buf_lock_buf: "upd_buf c f (lock_buf p b s) = lock_buf p b (upd_buf c f s)"
  by (rule kbio.equality) (simp_all add: upd_buf_def lock_buf_def)

lemma upd_buf_upd_buf: "upd_buf b f (upd_buf b g s) = upd_buf b (\<lambda>q. f (g q)) s"
  by (simp add: upd_buf_def)

lemma upd_buf_cong: "f (bufs s b) = g (bufs s b) \<Longrightarrow> upd_buf b f s = upd_buf b g s"
  by (simp add: upd_buf_def)

lemma virtio_disk_read: "virtio_disk_rw b False s = upd_buf b (\<lambda>q. q\<lparr>b_data := disk s (b_blockno q)\<rparr>) s"
  by (simp add: virtio_disk_rw_def upd_buf_def)

lemma buf_fields [simp]:
  "disk (upd_buf b f s) = disk s" "disk (lock_buf p b s) = disk s"
  "dtrace (upd_buf b f s) = dtrace s" "dtrace (lock_buf p b s) = dtrace s"
  "bufs (upd_buf b f s) = (bufs s)(b := f (bufs s b))" "bufs (lock_buf p b s) = bufs s"
  "lru (upd_buf b f s) = lru s" "lru (lock_buf p b s) = lru s"
  "held (upd_buf b f s) = held s" "held (lock_buf p b s) = held s"
  "curproc (upd_buf b f s) = curproc s" "curproc (lock_buf p b s) = curproc s"
  "procs (upd_buf b f s) = procs s" "procs (lock_buf p b s) = procs s"
  "sleeplocks (upd_buf b f s) = sleeplocks s"
  "sleeplocks (lock_buf p b s) = (sleeplocks s)(BufLock b := \<lparr>slk_locked = True, slk_pid = p_pid (procs s p)\<rparr>)"
  by (simp_all add: upd_buf_def lock_buf_def)

lemma bread_cached:
  assumes "calm p s" and "bio_ok s" and "dev \<noteq> 0" and "cached dev n s b"
    and "\<not> slk_locked (sleeplocks s (BufLock b))"
  shows "bread dev n s = Inr (b, lock_buf p b (upd_buf b (\<lambda>q. q\<lparr>b_refcnt := b_refcnt q + 1,
    b_valid := True, b_data := view s dev n\<rparr>) s))"
proof -
  have n: "b_blockno (bufs s b) = n" using assms(4) by (simp add: cached_def)
  have get: "bget dev n s = Inr (b, lock_buf p b (upd_buf b (\<lambda>q. q\<lparr>b_refcnt := b_refcnt q + 1\<rparr>) s))"
    using assms(1,5) find_cached [OF assms(2,4,3)]
    by (simp add: bget_def calm_def acquire_lk_free release_lk_held Let_def upd_buf_def
        acquiresleep_free [where p = p] lock_buf_def)
  show ?thesis
  proof (cases "b_valid (bufs s b)")
    case True
    then have "view s dev n = b_data (bufs s b)" using view_cached [OF assms(2,4,3)] by simp
    then have "upd_buf b (\<lambda>q. q\<lparr>b_refcnt := b_refcnt q + 1\<rparr>) s =
      upd_buf b (\<lambda>q. q\<lparr>b_refcnt := b_refcnt q + 1, b_valid := True, b_data := view s dev n\<rparr>) s"
      using True by (intro upd_buf_cong) simp
    then show ?thesis using True get by (simp add: bread_def)
  next
    case False
    then have "view s dev n = disk s n" using view_cached [OF assms(2,4,3)] by simp
    then have "upd_buf b (\<lambda>q. q\<lparr>b_refcnt := b_refcnt q + 1, b_data := disk s (b_blockno q), b_valid := True\<rparr>) s =
      upd_buf b (\<lambda>q. q\<lparr>b_refcnt := b_refcnt q + 1, b_valid := True, b_data := view s dev n\<rparr>) s"
      using n by (intro upd_buf_cong) simp
    then show ?thesis
      using False get by (simp add: bread_def virtio_disk_read upd_buf_lock_buf upd_buf_upd_buf)
  qed
qed

lemma find_free_buf:
  assumes "bio_ok s" and "i < NBUF" and "b_refcnt (bufs s i) = 0"
  obtains b where "find (\<lambda>b. b_refcnt (bufs s b) = 0) (rev (lru s)) = Some b" and "b < NBUF"
    and "b_refcnt (bufs s b) = 0"
proof (cases "find (\<lambda>b. b_refcnt (bufs s b) = 0) (rev (lru s))")
  case None
  then have "b_refcnt (bufs s i) \<noteq> 0"
    using bio_okD(2) [OF assms(1)] assms(2) unfolding find_None_iff set_rev by auto
  then show ?thesis using assms(3) by contradiction
next
  case (Some b)
  then have "b \<in> set (rev (lru s))" "b_refcnt (bufs s b) = 0"
    unfolding find_Some_iff by (auto simp del: set_rev intro: nth_mem)
  then show ?thesis using that [OF Some] bio_okD(2) [OF assms(1)] by simp
qed

lemma bread_recycle:
  assumes "calm p s" and "bio_ok s" and "\<forall>b. \<not> cached dev n s b"
    and "i < NBUF" and "b_refcnt (bufs s i) = 0"
  obtains b where "b < NBUF" and "b_refcnt (bufs s b) = 0"
    and "bread dev n s = Inr (b, lock_buf p b (upd_buf b (\<lambda>q. \<lparr>b_valid = True, b_dev = dev,
      b_blockno = n, b_refcnt = 1, b_data = view s dev n\<rparr>) s))"
proof -
  obtain b where b: "find (\<lambda>b. b_refcnt (bufs s b) = 0) (rev (lru s)) = Some b" "b < NBUF"
    "b_refcnt (bufs s b) = 0" using find_free_buf [OF assms(2,4,5)] .
  have unl: "\<not> slk_locked (sleeplocks s (BufLock b))" using bio_okD(4) [OF assms(2) b(2,3)] .
  have "bget dev n s = Inr (b, lock_buf p b (upd_buf b (\<lambda>q. q\<lparr>b_dev := dev, b_blockno := n,
      b_valid := False, b_refcnt := 1\<rparr>) s))"
    using assms(1) find_not_cached [OF assms(2,3)] b unl
    by (simp add: bget_def calm_def acquire_lk_free release_lk_held Let_def upd_buf_def
        acquiresleep_free [where p = p] lock_buf_def)
  then have "bread dev n s = Inr (b, lock_buf p b (upd_buf b (\<lambda>q. \<lparr>b_valid = True, b_dev = dev,
      b_blockno = n, b_refcnt = 1, b_data = view s dev n\<rparr>) s))"
    using view_not_cached [OF assms(2,3)]
    by (auto simp: bread_def virtio_disk_read upd_buf_lock_buf upd_buf_upd_buf
        intro!: arg_cong [where f = "lock_buf p b"] upd_buf_cong)
  then show ?thesis by (rule that [OF b(2,3)])
qed

text \<open>What every successful \<^verbatim>\<open>bread\<close> gives its caller.\<close>

lemma bread_spec:
  assumes "calm p s" and "bio_ok s" and "dev \<noteq> 0"
    and "\<And>b. cached dev n s b \<Longrightarrow> \<not> slk_locked (sleeplocks s (BufLock b)) \<and> b_refcnt (bufs s b) \<noteq> - 1"
    and "(\<exists>b. cached dev n s b) \<or> (\<exists>i < NBUF. b_refcnt (bufs s i) = 0)"
  obtains b r where "b < NBUF" and "r \<noteq> 0"
    and "cached dev n s b \<and> r = b_refcnt (bufs s b) + 1 \<or>
      (\<forall>b'. \<not> cached dev n s b') \<and> b_refcnt (bufs s b) = 0 \<and> r = 1"
    and "bread dev n s = Inr (b, lock_buf p b (upd_buf b (\<lambda>q. \<lparr>b_valid = True, b_dev = dev,
      b_blockno = n, b_refcnt = r, b_data = view s dev n\<rparr>) s))"
proof (cases "\<exists>b. cached dev n s b")
  case True
  then obtain b where b: "cached dev n s b" by blast
  let ?r = "b_refcnt (bufs s b) + 1"
  have r: "?r \<noteq> 0" using assms(4) [OF b] by (metis add.commute eq_neg_iff_add_eq_0)
  have "upd_buf b (\<lambda>q. q\<lparr>b_refcnt := b_refcnt q + 1, b_valid := True, b_data := view s dev n\<rparr>) s =
    upd_buf b (\<lambda>q. \<lparr>b_valid = True, b_dev = dev, b_blockno = n, b_refcnt = ?r, b_data = view s dev n\<rparr>) s"
    using b by (intro upd_buf_cong) (simp add: cached_def)
  with bread_cached [OF assms(1-3) b] assms(4) [OF b] have
    "bread dev n s = Inr (b, lock_buf p b (upd_buf b (\<lambda>q. \<lparr>b_valid = True, b_dev = dev,
      b_blockno = n, b_refcnt = ?r, b_data = view s dev n\<rparr>) s))" by simp
  then show ?thesis using that [of b ?r] b r by (simp add: cached_def)
next
  case False
  then obtain i where i: "i < NBUF" "b_refcnt (bufs s i) = 0" using assms(5) by blast
  obtain b where b: "b < NBUF" "b_refcnt (bufs s b) = 0"
    "bread dev n s = Inr (b, lock_buf p b (upd_buf b (\<lambda>q. \<lparr>b_valid = True, b_dev = dev,
      b_blockno = n, b_refcnt = 1, b_data = view s dev n\<rparr>) s))"
    using bread_recycle [OF assms(1,2) _ i] False by blast
  then show ?thesis using that [of b 1] False by simp
qed

lemma ROOTDEV_neq_0 [simp]: "ROOTDEV \<noteq> 0"
  by (simp add: ROOTDEV_def)

subsection \<open>The contract of the cache\<close>

text \<open>
  For the rest of the kernel the cache is four functions of the block number: its content, the disk,
  the number of references, and whether its buffer is locked.
\<close>

definition dview :: "'z kbio_scheme \<Rightarrow> u32 \<Rightarrow> block" where
  "dview s = view s ROOTDEV"

definition refs :: "'z kbio_scheme \<Rightarrow> u32 \<Rightarrow> u32" where
  "refs s n = (case find (\<lambda>b. b_dev (bufs s b) = ROOTDEV \<and> b_blockno (bufs s b) = n) (lru s) of
     Some b \<Rightarrow> b_refcnt (bufs s b) | None \<Rightarrow> 0)"

definition locked_blocks :: "'z kbio_scheme \<Rightarrow> u32 set" where
  "locked_blocks s = {n. \<exists>b. cached ROOTDEV n s b \<and> slk_locked (sleeplocks s (BufLock b))}"

definition busy :: "'z kbio_scheme \<Rightarrow> u32 set" where
  "busy s = {n. refs s n \<noteq> 0}"

text \<open>Process \<open>p\<close> has block \<open>n\<close> in buffer \<open>b\<close>, referenced and locked.\<close>

definition holding_buf :: "nat \<Rightarrow> u32 \<Rightarrow> nat \<Rightarrow> 'z kbio_scheme \<Rightarrow> bool" where
  "holding_buf p n b s \<longleftrightarrow> cached ROOTDEV n s b \<and> b_valid (bufs s b) \<and> b_refcnt (bufs s b) \<noteq> 0 \<and>
     sleeplocks s (BufLock b) = \<lparr>slk_locked = True, slk_pid = p_pid (procs s p)\<rparr>"

definition ready :: "nat \<Rightarrow> 'z kbio_scheme \<Rightarrow> bool" where
  "ready p s \<longleftrightarrow> calm p s \<and> bio_ok s"

text \<open>The cache operations change nothing else, but may wake processes that wait for a buffer.\<close>

definition same_kernel :: "'z kbio_scheme \<Rightarrow> 'z kbio_scheme \<Rightarrow> bool" where
  "same_kernel s t \<longleftrightarrow> t = s\<lparr>procs := procs t, sleeplocks := sleeplocks t, bufs := bufs t, lru := lru t,
     disk := disk t, dtrace := dtrace t\<rparr> \<and>
     (\<forall>q. procs t q = procs s q \<or> procs t q = (procs s q)\<lparr>p_state := RUNNABLE\<rparr>) \<and>
     (\<forall>i. sleeplocks t (InodeLock i) = sleeplocks s (InodeLock i))"

lemma same_kernel_refl [simp]: "same_kernel s s"
  by (simp add: same_kernel_def)

lemma same_kernel_pid:
  assumes "same_kernel s t"
  shows "p_pid (procs t q) = p_pid (procs s q)"
proof -
  have "procs t q = procs s q \<or> procs t q = (procs s q)\<lparr>p_state := RUNNABLE\<rparr>" using assms by (simp add: same_kernel_def)
  then show ?thesis by auto
qed

lemma same_kernel_trans [trans]:
  assumes "same_kernel s t" and "same_kernel t u"
  shows "same_kernel s u"
  unfolding same_kernel_def
proof (intro conjI)
  show "\<forall>i. sleeplocks u (InodeLock i) = sleeplocks s (InodeLock i)" using assms by (simp add: same_kernel_def)
  from assms have "u = t\<lparr>procs := procs u, sleeplocks := sleeplocks u, bufs := bufs u, lru := lru u,
      disk := disk u, dtrace := dtrace u\<rparr>"
    and t: "t = s\<lparr>procs := procs t, sleeplocks := sleeplocks t, bufs := bufs t, lru := lru t,
      disk := disk t, dtrace := dtrace t\<rparr>"
    unfolding same_kernel_def by blast+
  from this(1) show "u = s\<lparr>procs := procs u, sleeplocks := sleeplocks u, bufs := bufs u, lru := lru u,
      disk := disk u, dtrace := dtrace u\<rparr>"
    by (subst (asm) t) simp
  show "\<forall>q. procs u q = procs s q \<or> procs u q = (procs s q)\<lparr>p_state := RUNNABLE\<rparr>"
  proof
    fix q
    have "procs t q = procs s q \<or> procs t q = (procs s q)\<lparr>p_state := RUNNABLE\<rparr>"
      "procs u q = procs t q \<or> procs u q = (procs t q)\<lparr>p_state := RUNNABLE\<rparr>"
      using assms unfolding same_kernel_def by blast+
    then show "procs u q = procs s q \<or> procs u q = (procs s q)\<lparr>p_state := RUNNABLE\<rparr>" by auto
  qed
qed

lemma refs_cached: "bio_ok s \<Longrightarrow> cached ROOTDEV n s b \<Longrightarrow> refs s n = b_refcnt (bufs s b)"
  by (simp add: refs_def find_cached)

lemma refs_not_cached: "bio_ok s \<Longrightarrow> \<forall>b. \<not> cached ROOTDEV n s b \<Longrightarrow> refs s n = 0"
  by (simp add: refs_def find_not_cached)

lemma dview_cached: "bio_ok s \<Longrightarrow> cached ROOTDEV n s b \<Longrightarrow>
    dview s n = (if b_valid (bufs s b) then b_data (bufs s b) else disk s n)"
  by (simp add: dview_def view_cached)

lemma dview_not_cached: "bio_ok s \<Longrightarrow> \<forall>b. \<not> cached ROOTDEV n s b \<Longrightarrow> dview s n = disk s n"
  by (simp add: dview_def view_not_cached)

text \<open>All of this depends on the fields of the cache only.\<close>

lemma cache_cong:
  assumes "bufs t = bufs s" and "lru t = lru s" and "disk t = disk s" and "sleeplocks t = sleeplocks s"
  shows "bio_ok t = bio_ok s" and "dview t = dview s" and "refs t = refs s"
    and "locked_blocks t = locked_blocks s" and "busy t = busy s"
    and "procs t = procs s \<Longrightarrow> holding_buf p n b t = holding_buf p n b s"
    and "curproc t = curproc s \<Longrightarrow> held t = held s \<Longrightarrow> ready p t = ready p s"
proof -
  have "view t = view s" "refs t = refs s"
    by (intro ext; simp add: view_def refs_def assms cong: option.case_cong)+
  then show "dview t = dview s" "refs t = refs s" "busy t = busy s" by (simp_all add: dview_def busy_def)
qed (use assms in \<open>simp_all add: ready_def calm_def bio_ok_def holding_buf_def cached_def locked_blocks_def\<close>)

text \<open>A buffer nobody references can be found as long as not every buffer has a block in use.\<close>

lemma free_buf_exists:
  assumes "bio_ok s" and "card (busy s) < NBUF"
  shows "\<exists>i < NBUF. b_refcnt (bufs s i) = 0"
proof (rule ccontr)
  assume none: "\<not> (\<exists>i < NBUF. b_refcnt (bufs s i) = 0)"
  then have dev: "b_dev (bufs s i) = ROOTDEV" if "i < NBUF" for i
    using bio_ok_dev [OF assms(1) that] that by auto
  have "inj_on (\<lambda>i. b_blockno (bufs s i)) {0..<NBUF}"
  proof (rule inj_onI)
    fix i j assume "i \<in> {0..<NBUF}" "j \<in> {0..<NBUF}" "b_blockno (bufs s i) = b_blockno (bufs s j)"
    then show "i = j"
      using bio_okD(3) [OF assms(1), of ROOTDEV "b_blockno (bufs s i)" i j] dev
      by (simp add: cached_def)
  qed
  moreover have "(\<lambda>i. b_blockno (bufs s i)) ` {0..<NBUF} \<subseteq> busy s"
    using none dev refs_cached [OF assms(1)] by (auto simp: busy_def cached_def)
  ultimately have "NBUF \<le> card (busy s)"
    using card_mono [of "busy s"] card_image [of "\<lambda>i. b_blockno (bufs s i)" "{0..<NBUF}"]
    by (metis card_atLeastLessThan diff_zero finite)
  then show False using assms(2) by simp
qed

text \<open>
  One buffer changes but keeps its block: what that does to the four functions. Every operation on
  a buffer that is in the cache is an instance.
\<close>

lemma keep_buf:
  assumes "bio_ok s" and "cached ROOTDEV n s b"
    and "distinct (lru t)" and "set (lru t) = {0..<NBUF}"
    and t: "bufs t = (bufs s)(b := q)" and q: "b_dev q = ROOTDEV" "b_blockno q = n"
    and d: "disk t = (disk s)(n := d)"
    and l: "\<And>c. c \<noteq> b \<Longrightarrow> sleeplocks t (BufLock c) = sleeplocks s (BufLock c)"
    and z: "b_refcnt q = 0 \<Longrightarrow> \<not> slk_locked (sleeplocks t (BufLock b)) \<and> (b_valid q \<longrightarrow> b_data q = d)"
  shows "bio_ok t" and "dview t = (dview s)(n := if b_valid q then b_data q else d)"
    and "refs t = (refs s)(n := b_refcnt q)"
    and "locked_blocks t = (if slk_locked (sleeplocks t (BufLock b)) then insert n (locked_blocks s)
      else locked_blocks s - {n})"
proof -
  have b: "b < NBUF" "b_dev (bufs s b) = ROOTDEV" "b_blockno (bufs s b) = n"
    using assms(2) by (simp_all add: cached_def)
  have same: "cached dev m t c = cached dev m s c" for dev m c
    using b by (simp add: cached_def t q)
  have eqb: "c = b" if "cached ROOTDEV n s c" for c
    using bio_okD(3) [OF assms(1) that assms(2)] by simp
  show okt: "bio_ok t"
  proof (rule bio_okI [OF assms(3,4)])
    show "b_dev (bufs t i) = 0 \<and> b_refcnt (bufs t i) = 0 \<or> b_dev (bufs t i) = ROOTDEV"
      if "i < NBUF" for i using bio_ok_dev [OF assms(1) that] by (simp add: t q)
    show "i = j" if "i < NBUF" "j < NBUF" "b_dev (bufs t i) \<noteq> 0" "b_dev (bufs t i) = b_dev (bufs t j)"
      "b_blockno (bufs t i) = b_blockno (bufs t j)" for i j
    proof (rule bio_okD(3) [OF assms(1)])
      show "cached (b_dev (bufs t i)) (b_blockno (bufs t i)) s i"
        "cached (b_dev (bufs t i)) (b_blockno (bufs t i)) s j"
        using that by (simp_all only: same [symmetric]) (simp_all add: cached_def)
    qed (rule that(3))
    show "\<not> slk_locked (sleeplocks t (BufLock i))" if "i < NBUF" "b_refcnt (bufs t i) = 0" for i
      using bio_okD(4) [OF assms(1) that(1)] that(2) z l [of i] by (cases "i = b") (simp_all add: t)
    show "b_data (bufs t i) = disk t (b_blockno (bufs t i))"
      if "i < NBUF" "b_refcnt (bufs t i) = 0" "b_valid (bufs t i)" "b_dev (bufs t i) \<noteq> 0" for i
    proof (cases "i = b")
      case True
      then show ?thesis using z that by (simp add: t q d)
    next
      case False
      then have "b_blockno (bufs s i) \<noteq> n"
        using eqb [of i] bio_ok_dev [OF assms(1) that(1)] that by (auto simp: cached_def t)
      then show ?thesis using False that bio_okD(5) [OF assms(1) that(1)] by (simp add: t d)
    qed
  qed
  have other: "(\<exists>c. c \<noteq> b \<and> cached ROOTDEV m s c \<and> cached ROOTDEV m t c) \<or>
    (\<forall>c. \<not> cached ROOTDEV m s c) \<and> (\<forall>c. \<not> cached ROOTDEV m t c)" if "m \<noteq> n" for m
  proof -
    have "\<not> cached ROOTDEV m s b" using b that by (simp add: cached_def)
    then show ?thesis using same by metis
  qed
  show "dview t = (dview s)(n := if b_valid q then b_data q else d)"
  proof
    fix m show "dview t m = ((dview s)(n := if b_valid q then b_data q else d)) m"
    proof (cases "m = n")
      case True
      then show ?thesis using dview_cached [OF okt, of n b] assms(2) by (simp add: same t d)
    next
      case False
      from other [OF this] show ?thesis
        using False dview_cached [OF okt] dview_cached [OF assms(1)]
          dview_not_cached [OF okt] dview_not_cached [OF assms(1)] by (auto simp: t d)
    qed
  qed
  show "refs t = (refs s)(n := b_refcnt q)"
  proof
    fix m show "refs t m = ((refs s)(n := b_refcnt q)) m"
    proof (cases "m = n")
      case True
      then show ?thesis using refs_cached [OF okt, of n b] assms(2) by (simp add: same t)
    next
      case False
      from other [OF this] show ?thesis
        using False refs_cached [OF okt] refs_cached [OF assms(1)]
          refs_not_cached [OF okt] refs_not_cached [OF assms(1)] by (auto simp: t)
    qed
  qed
  have "m \<in> locked_blocks t \<longleftrightarrow> (if m = n then slk_locked (sleeplocks t (BufLock b)) else m \<in> locked_blocks s)"
    for m
  proof (cases "m = n")
    case True
    have "n \<in> locked_blocks t \<longleftrightarrow> slk_locked (sleeplocks t (BufLock b))"
      unfolding locked_blocks_def mem_Collect_eq same using eqb assms(2) by blast
    then show ?thesis using True by simp
  next
    case False
    then have "cached ROOTDEV m s c \<Longrightarrow> c \<noteq> b" for c using b by (auto simp: cached_def)
    then have "cached ROOTDEV m s c \<and> slk_locked (sleeplocks t (BufLock c)) \<longleftrightarrow>
      cached ROOTDEV m s c \<and> slk_locked (sleeplocks s (BufLock c))" for c using l by metis
    then show ?thesis using False by (simp add: locked_blocks_def same)
  qed
  then show "locked_blocks t = (if slk_locked (sleeplocks t (BufLock b)) then insert n (locked_blocks s)
      else locked_blocks s - {n})" by (simp add: set_eq_iff)
qed

lemma recycle_buf:
  assumes "bio_ok s" and "b < NBUF" and "b_refcnt (bufs s b) = 0"
    and new: "\<forall>c. \<not> cached ROOTDEV n s c"
  defines "t \<equiv> upd_buf b (\<lambda>q. \<lparr>b_valid = True, b_dev = ROOTDEV, b_blockno = n, b_refcnt = 1,
    b_data = dview s n\<rparr>) s"
  shows "bio_ok t" and "dview t = dview s" and "refs t = (refs s)(n := 1)"
    and "locked_blocks t = locked_blocks s"
proof -
  have unl: "\<not> slk_locked (sleeplocks s (BufLock b))" using bio_okD(4) [OF assms(1-3)] .
  have ct: "cached ROOTDEV m t c \<longleftrightarrow> (if c = b then m = n else cached ROOTDEV m s c)" for m c
    using assms(2) by (auto simp: t_def cached_def)
  show okt: "bio_ok t"
  proof (rule bio_okI)
    show "b_dev (bufs t i) = 0 \<and> b_refcnt (bufs t i) = 0 \<or> b_dev (bufs t i) = ROOTDEV"
      if "i < NBUF" for i using bio_ok_dev [OF assms(1) that] by (simp add: t_def)
    show "i = j" if "i < NBUF" "j < NBUF" "b_dev (bufs t i) \<noteq> 0" "b_dev (bufs t i) = b_dev (bufs t j)"
      "b_blockno (bufs t i) = b_blockno (bufs t j)" for i j
    proof (cases "i = b \<or> j = b")
      case True
      then show ?thesis using that new [rule_format, of i] new [rule_format, of j]
        by (auto simp: t_def cached_def split: if_splits)
    next
      case False
      then have "cached (b_dev (bufs s i)) (b_blockno (bufs s i)) s i"
        "cached (b_dev (bufs s i)) (b_blockno (bufs s i)) s j"
        using that by (simp_all add: t_def cached_def)
      then show ?thesis using bio_okD(3) [OF assms(1)] False that(3) by (simp add: t_def)
    qed
    show "\<not> slk_locked (sleeplocks t (BufLock i))" if "i < NBUF" "b_refcnt (bufs t i) = 0" for i
      using bio_okD(4) [OF assms(1) that(1)] that(2) by (simp add: t_def split: if_splits)
    show "b_data (bufs t i) = disk t (b_blockno (bufs t i))"
      if "i < NBUF" "b_refcnt (bufs t i) = 0" "b_valid (bufs t i)" "b_dev (bufs t i) \<noteq> 0" for i
      using bio_okD(5) [OF assms(1) that(1)] that(2-4) by (simp add: t_def split: if_splits)
  qed (use bio_okD(1,2) [OF assms(1)] in \<open>simp_all add: t_def\<close>)
  have cases: "(\<exists>c. c \<noteq> b \<and> cached ROOTDEV m s c \<and> cached ROOTDEV m t c) \<or>
    (\<forall>c. \<not> cached ROOTDEV m s c) \<and> (\<forall>c. \<not> cached ROOTDEV m t c) \<or>
    cached ROOTDEV m s b \<and> (\<forall>c. \<not> cached ROOTDEV m t c)" if "m \<noteq> n" for m
    using ct [of m] that by metis
  have gone: "dview s m = disk s m" "refs s m = 0" if "cached ROOTDEV m s b" for m
    using dview_cached [OF assms(1) that] refs_cached [OF assms(1) that] bio_okD(5) [OF assms(1-3)] assms(3) that
    by (auto simp: cached_def)
  have b: "cached ROOTDEV n t b" using ct by simp
  show "dview t = dview s"
  proof
    fix m show "dview t m = dview s m"
    proof (cases "m = n")
      case True
      then show ?thesis using dview_cached [OF okt b] by (simp add: t_def)
    next
      case False
      from cases [OF this] show ?thesis
        using dview_cached [OF okt] dview_cached [OF assms(1)] gone(1)
          dview_not_cached [OF okt] dview_not_cached [OF assms(1)] by (auto simp: t_def)
    qed
  qed
  show "refs t = (refs s)(n := 1)"
  proof
    fix m show "refs t m = ((refs s)(n := 1)) m"
    proof (cases "m = n")
      case True
      then show ?thesis using refs_cached [OF okt b] by (simp add: t_def)
    next
      case False
      from cases [OF this] show ?thesis
        using False refs_cached [OF okt] refs_cached [OF assms(1)] gone(2)
          refs_not_cached [OF okt] refs_not_cached [OF assms(1)] by (auto simp: t_def)
    qed
  qed
  have "sleeplocks t = sleeplocks s" by (simp add: t_def)
  then have "cached ROOTDEV m t c \<and> slk_locked (sleeplocks t (BufLock c)) \<longleftrightarrow>
    cached ROOTDEV m s c \<and> slk_locked (sleeplocks s (BufLock c))" for m c
    using ct [of m c] unl by auto
  then show "locked_blocks t = locked_blocks s" by (simp add: locked_blocks_def)
qed

text \<open>The effect of an operation on the four functions, and what it leaves alone.\<close>

definition cache_is :: "'z kbio_scheme \<Rightarrow> (u32 \<Rightarrow> block) \<Rightarrow> (u32 \<Rightarrow> block) \<Rightarrow> (u32 \<Rightarrow> u32) \<Rightarrow> u32 set \<Rightarrow> bool" where
  "cache_is s V D R L \<longleftrightarrow> dview s = V \<and> disk s = D \<and> refs s = R \<and> locked_blocks s = L"

lemma keep_buf_is:
  assumes "bio_ok s" and "cached ROOTDEV n s b" and "distinct (lru t)" and "set (lru t) = {0..<NBUF}"
    and "bufs t = (bufs s)(b := q)" and "b_dev q = ROOTDEV" and "b_blockno q = n"
    and "disk t = (disk s)(n := d)"
    and "\<And>c. c \<noteq> b \<Longrightarrow> sleeplocks t (BufLock c) = sleeplocks s (BufLock c)"
    and "b_refcnt q = 0 \<Longrightarrow> \<not> slk_locked (sleeplocks t (BufLock b)) \<and> (b_valid q \<longrightarrow> b_data q = d)"
    and "V = (dview s)(n := if b_valid q then b_data q else d)"
    and "R = (refs s)(n := b_refcnt q)"
    and "L = (if slk_locked (sleeplocks t (BufLock b)) then insert n (locked_blocks s) else locked_blocks s - {n})"
  shows "bio_ok t \<and> cache_is t V (disk t) R L"
  using keep_buf [OF assms(1-10)] by (simp add: cache_is_def assms(11-13))

lemma fun_upd_same: "f x = y \<Longrightarrow> f = f(x := y)"
  by auto

lemma lock_buf_ok:
  assumes "bio_ok s" and "cached ROOTDEV n s b" and "b_refcnt (bufs s b) \<noteq> 0"
  shows "bio_ok (lock_buf p b s) \<and>
    cache_is (lock_buf p b s) (dview s) (disk s) (refs s) (insert n (locked_blocks s))"
proof -
  have b: "b_dev (bufs s b) = ROOTDEV" "b_blockno (bufs s b) = n" using assms(2) by (simp_all add: cached_def)
  have "bio_ok (lock_buf p b s) \<and> cache_is (lock_buf p b s) (dview s) (disk (lock_buf p b s)) (refs s)
    (insert n (locked_blocks s))"
    by (rule keep_buf_is [OF assms(1,2), where q = "bufs s b" and d = "disk s n"])
      (use b assms bio_okD(1,2) [OF assms(1)] in
        \<open>simp_all add: dview_cached [OF assms(1,2)] refs_cached [OF assms(1,2)] fun_upd_same\<close>)
  then show ?thesis by simp
qed

lemma bread_ok:
  assumes "ready p s" and "n \<notin> locked_blocks s" and "refs s n \<noteq> - 1"
    and "refs s n \<noteq> 0 \<or> card (busy s) < NBUF"
  obtains b t where "bread ROOTDEV n s = Inr (b, t)" and "ready p t" and "holding_buf p n b t"
    and "cache_is t (dview s) (disk s) ((refs s)(n := refs s n + 1)) (insert n (locked_blocks s))"
    and "b_data (bufs t b) = dview s n" and "dtrace t = dtrace s" and "same_kernel s t"
    and "\<And>m c. holding_buf p m c s \<Longrightarrow> holding_buf p m c t"
proof -
  have ok: "bio_ok s" and calm: "calm p s" using assms(1) by (simp_all add: ready_def)
  have unl: "\<not> slk_locked (sleeplocks s (BufLock b)) \<and> b_refcnt (bufs s b) \<noteq> - 1"
    if "cached ROOTDEV n s b" for b
    using assms(2,3) that refs_cached [OF ok that] by (auto simp: locked_blocks_def)
  have "(\<exists>b. cached ROOTDEV n s b) \<or> (\<exists>i < NBUF. b_refcnt (bufs s i) = 0)"
    using assms(4) free_buf_exists [OF ok] refs_not_cached [OF ok] by blast
  from bread_spec [OF calm ok ROOTDEV_neq_0 unl this] obtain b r where
    b: "b < NBUF" "r \<noteq> 0" and how: "cached ROOTDEV n s b \<and> r = b_refcnt (bufs s b) + 1 \<or>
      (\<forall>b'. \<not> cached ROOTDEV n s b') \<and> b_refcnt (bufs s b) = 0 \<and> r = 1"
    and rd: "bread ROOTDEV n s = Inr (b, lock_buf p b (upd_buf b (\<lambda>q. \<lparr>b_valid = True, b_dev = ROOTDEV,
      b_blockno = n, b_refcnt = r, b_data = view s ROOTDEV n\<rparr>) s))" by blast
  let ?u = "upd_buf b (\<lambda>q. \<lparr>b_valid = True, b_dev = ROOTDEV,
      b_blockno = n, b_refcnt = r, b_data = view s ROOTDEV n\<rparr>) s"
  let ?t = "lock_buf p b ?u"
  have u: "bio_ok ?u \<and> dview ?u = dview s \<and> refs ?u = (refs s)(n := refs s n + 1) \<and>
    locked_blocks ?u = locked_blocks s"
    using how
  proof
    assume h: "cached ROOTDEV n s b \<and> r = b_refcnt (bufs s b) + 1"
    then have c: "cached ROOTDEV n s b" by blast
    note k = keep_buf [OF ok c, of ?u "\<lparr>b_valid = True, b_dev = ROOTDEV, b_blockno = n,
      b_refcnt = r, b_data = view s ROOTDEV n\<rparr>" "disk s n"]
    have "n \<notin> locked_blocks s" by (rule assms(2))
    then show ?thesis
      using k bio_okD(1,2) [OF ok] b(2) h refs_cached [OF ok c] unl [OF c] by (simp add: dview_def fun_eq_iff)
  next
    assume h: "(\<forall>b'. \<not> cached ROOTDEV n s b') \<and> b_refcnt (bufs s b) = 0 \<and> r = 1"
    then show ?thesis
      using recycle_buf [OF ok b(1), of n] refs_not_cached [OF ok] by (simp add: dview_def)
  qed
  then have oku: "bio_ok ?u" by blast
  have cu: "cached ROOTDEV n ?u b" "b_refcnt (bufs ?u b) \<noteq> 0" using b by (simp_all add: cached_def)
  have "holding_buf p m c ?t" if h: "holding_buf p m c s" for m c
  proof -
    have "c \<noteq> b" using how h unl [of b] by (auto simp: holding_buf_def)
    then show ?thesis using h by (simp add: holding_buf_def cached_def)
  qed
  moreover have "holding_buf p n b ?t" using b by (simp add: holding_buf_def cached_def)
  moreover have "same_kernel s ?t" by (simp add: same_kernel_def lock_buf_def upd_buf_def)
  moreover have "ready p ?t" using lock_buf_ok [OF oku cu] calm by (simp add: ready_def calm_def)
  moreover have "cache_is ?t (dview s) (disk s) ((refs s)(n := refs s n + 1)) (insert n (locked_blocks s))"
    using lock_buf_ok [OF oku cu] u by (simp add: cache_is_def)
  ultimately show ?thesis using that [OF rd] by (simp add: dview_def)
qed

text \<open>Operations on a buffer the process holds.\<close>

lemma holding_bufD:
  assumes "ready p s" and "holding_buf p n b s"
  shows "bio_ok s" and "cached ROOTDEV n s b" and "b_dev (bufs s b) = ROOTDEV" and "b_blockno (bufs s b) = n"
    and "b_valid (bufs s b)" and "mine (BufLock b) s" and "held s = {}" and "curproc s = Some p"
    and "b_refcnt (bufs s b) = refs s n" and "b_data (bufs s b) = dview s n" and "refs s n \<noteq> 0"
    and "n \<in> locked_blocks s" and "distinct (lru s)" and "set (lru s) = {0..<NBUF}"
    and "slk_locked (sleeplocks s (BufLock b))" and "b < NBUF" and "no_proc_lock s"
  using assms refs_cached [of s n b] dview_cached [of s n b] bio_okD(1,2) [of s]
  by (auto simp: ready_def calm_def holding_buf_def cached_def mine_def locked_blocks_def no_proc_lock_def)

lemma holding_buf_neq:
  assumes "holding_buf p n b s" and "holding_buf p m c s" and "m \<noteq> n"
  shows "c \<noteq> b"
  using assms by (auto simp: holding_buf_def cached_def)

lemma set_data_ok:
  fixes d :: block
  assumes r: "ready p s" and h: "holding_buf p n b s"
  defines "t \<equiv> upd_buf b (\<lambda>q. q\<lparr>b_data := d\<rparr>) s"
  shows "ready p t" and "same_kernel s t" and "dtrace t = dtrace s"
    and "cache_is t ((dview s)(n := d)) (disk s) (refs s) (locked_blocks s)"
    and "\<And>m c. holding_buf p m c s \<Longrightarrow> holding_buf p m c t"
proof -
  note f = holding_bufD [OF r h]
  have "bio_ok t \<and> cache_is t ((dview s)(n := d)) (disk t) (refs s) (locked_blocks s)"
    by (rule keep_buf_is [OF f(1,2), where q = "(bufs s b)\<lparr>b_data := d\<rparr>" and d = "disk s n"])
      (use f in \<open>simp_all add: t_def insert_absorb\<close>)
  then show "ready p t" "cache_is t ((dview s)(n := d)) (disk s) (refs s) (locked_blocks s)"
    using r by (simp_all add: ready_def calm_def t_def)
  show "holding_buf p m c t" if "holding_buf p m c s" for m c
    using that by (auto simp: holding_buf_def cached_def t_def)
  show "same_kernel s t" "dtrace t = dtrace s" by (simp_all add: same_kernel_def t_def upd_buf_def)
qed

lemma bwrite_ok:
  assumes r: "ready p s" and h: "holding_buf p n b s"
  obtains t where "bwrite b s = Inr t" and "ready p t"
    and "cache_is t (dview s) ((disk s)(n := dview s n)) (refs s) (locked_blocks s)"
    and "bufs t = bufs s"
    and "dtrace t = dtrace s @ [(n, dview s n)]" and "same_kernel s t"
    and "\<And>m c. holding_buf p m c s \<Longrightarrow> holding_buf p m c t"
proof -
  note f = holding_bufD [OF r h]
  define t where "t = s\<lparr>disk := (disk s)(n := dview s n), dtrace := dtrace s @ [(n, dview s n)]\<rparr>"
  have w: "bwrite b s = Inr t"
    using f by (simp add: bwrite_def holdingsleep_eq virtio_disk_rw_def t_def)
  have "bio_ok t \<and> cache_is t (dview s) (disk t) (refs s) (locked_blocks s)"
    by (rule keep_buf_is [OF f(1,2), where q = "bufs s b" and d = "dview s n"])
      (use f in \<open>simp_all add: t_def insert_absorb\<close>)
  then have "ready p t" "cache_is t (dview s) ((disk s)(n := dview s n)) (refs s) (locked_blocks s)"
    using r by (simp_all add: ready_def calm_def t_def)
  moreover have "holding_buf p m c t" if "holding_buf p m c s" for m c
    using that by (simp add: holding_buf_def cached_def t_def)
  moreover have "same_kernel s t" by (simp add: same_kernel_def t_def)
  ultimately show ?thesis using that [OF w] by (simp add: t_def)
qed

text \<open>Releasing the last reference of a block that differs from the disk would lose it.\<close>

lemma brelse_ok:
  assumes r: "ready p s" and h: "holding_buf p n b s" and "refs s n = 1 \<Longrightarrow> dview s n = disk s n"
  obtains t where "brelse b s = Inr t" and "ready p t"
    and "cache_is t (dview s) (disk s) ((refs s)(n := refs s n - 1)) (locked_blocks s - {n})"
    and "dtrace t = dtrace s" and "same_kernel s t"
    and "\<And>m c. holding_buf p m c s \<Longrightarrow> m \<noteq> n \<Longrightarrow> holding_buf p m c t"
proof -
  note f = holding_bufD [OF r h]
  let ?q = "(bufs s b)\<lparr>b_refcnt := b_refcnt (bufs s b) - 1\<rparr>"
  define t where "t = s\<lparr>sleeplocks := (sleeplocks s)(BufLock b := \<lparr>slk_locked = False, slk_pid = 0\<rparr>),
    procs := awake_in (SleepLockChan (BufLock b)) (curproc s) {0..<NPROC} (procs s),
    bufs := (bufs s)(b := ?q),
    lru := (if b_refcnt (bufs s b) - 1 = 0 then b # remove1 b (lru s) else lru s)\<rparr>"
  have w: "brelse b s = Inr t"
    using f(6-8,17) by (simp add: brelse_def holdingsleep_eq releasesleep_eq acquire_lk_free release_lk_held
        Let_def upd_buf_def t_def)
  have lru: "distinct (lru t)" "set (lru t) = {0..<NBUF}"
    using f(13,14,16) by (simp_all add: t_def set_remove1_eq insert_absorb distinct_remove1)
  have z: "refs s n - 1 = 0 \<Longrightarrow> dview s n = disk s n"
    using assms(3) by (simp only: right_minus_eq)
  have "bio_ok t \<and> cache_is t (dview s) (disk t) ((refs s)(n := refs s n - 1)) (locked_blocks s - {n})"
    by (rule keep_buf_is [OF f(1,2) lru, where q = ?q and d = "disk s n"])
      (use f z in \<open>simp_all add: t_def\<close>)
  then have "ready p t"
    "cache_is t (dview s) (disk s) ((refs s)(n := refs s n - 1)) (locked_blocks s - {n})"
    using r by (simp_all add: ready_def calm_def t_def)
  moreover have "holding_buf p m c t" if "holding_buf p m c s" "m \<noteq> n" for m c
    using that holding_buf_neq [OF h that] f(8) by (simp add: holding_buf_def cached_def t_def awake_in_def)
  moreover have "same_kernel s t" by (simp add: same_kernel_def t_def awake_in_def awake_def)
  ultimately show ?thesis using that [OF w] by (simp add: t_def)
qed

lemma pin_ok:
  assumes r: "ready p s" and h: "holding_buf p n b s" and "x \<noteq> 0"
  defines "t \<equiv> upd_buf b (\<lambda>q. q\<lparr>b_refcnt := x\<rparr>) s"
  shows "ready p t" and "cache_is t (dview s) (disk s) ((refs s)(n := x)) (locked_blocks s)"
    and "dtrace t = dtrace s" and "same_kernel s t"
    and "\<And>m c. holding_buf p m c s \<Longrightarrow> holding_buf p m c t"
proof -
  note f = holding_bufD [OF r h]
  have "bio_ok t \<and> cache_is t (dview s) (disk t) ((refs s)(n := x)) (locked_blocks s)"
    by (rule keep_buf_is [OF f(1,2), where q = "(bufs s b)\<lparr>b_refcnt := x\<rparr>" and d = "disk s n"])
      (use f assms(3) in \<open>simp_all add: t_def insert_absorb\<close>)
  then show "ready p t" "cache_is t (dview s) (disk s) ((refs s)(n := x)) (locked_blocks s)"
    using r by (simp_all add: ready_def calm_def t_def)
  show "holding_buf p m c t" if "holding_buf p m c s" for m c
    using that assms(3) by (auto simp: holding_buf_def cached_def t_def)
  show "dtrace t = dtrace s" "same_kernel s t" by (simp_all add: same_kernel_def t_def upd_buf_def)
qed

lemma bpin_eq: "BcacheLock \<notin> held s \<Longrightarrow> bpin b s = Inr (upd_buf b (\<lambda>q. q\<lparr>b_refcnt := b_refcnt (bufs s b) + 1\<rparr>) s)"
  by (simp add: bpin_def acquire_lk_free release_lk_held upd_buf_def)

lemma bunpin_eq: "BcacheLock \<notin> held s \<Longrightarrow> bunpin b s = Inr (upd_buf b (\<lambda>q. q\<lparr>b_refcnt := b_refcnt (bufs s b) - 1\<rparr>) s)"
  by (simp add: bunpin_def acquire_lk_free release_lk_held upd_buf_def)

subsection \<open>Initialisation\<close>

lemma binit_fold:
  fixes s :: "'z kbio_scheme"
  defines "t \<equiv> \<lambda>xs. fold (\<lambda>b s. initsleeplock (BufLock b) (s\<lparr>lru := b # lru s\<rparr>)) xs s"
  shows "lru (t xs) = rev xs @ lru s \<and> bufs (t xs) = bufs s \<and> disk (t xs) = disk s \<and> dtrace (t xs) = dtrace s \<and>
    held (t xs) = held s \<and> curproc (t xs) = curproc s \<and> procs (t xs) = procs s \<and>
    (\<forall>b \<in> set xs. \<not> slk_locked (sleeplocks (t xs) (BufLock b)))"
proof (induction xs rule: rev_induct)
  case (snoc x xs)
  then show ?case by (simp add: t_def initsleeplock_def)
qed (simp add: t_def)

lemma binit_unlocked: "b < NBUF \<Longrightarrow> \<not> slk_locked (sleeplocks (binit s) (BufLock b))"
  using binit_fold [where xs = "[0..<NBUF]" and s = "s\<lparr>lru := []\<rparr>", folded binit_def] by simp

lemma binit_ok:
  assumes "\<forall>i < NBUF. b_dev (bufs s i) = 0 \<and> b_refcnt (bufs s i) = 0"
  shows "bio_ok (binit s)" and "dview (binit s) = disk s" and "refs (binit s) n = 0"
    and "locked_blocks (binit s) = {}" and "disk (binit s) = disk s" and "dtrace (binit s) = dtrace s"
    and "held (binit s) = held s" and "curproc (binit s) = curproc s" and "procs (binit s) = procs s"
proof -
  note f = binit_fold [where xs = "[0..<NBUF]" and s = "s\<lparr>lru := []\<rparr>", folded binit_def]
  have lru: "lru (binit s) = rev [0..<NBUF]" and bufs: "bufs (binit s) = bufs s"
    and lk: "\<forall>b < NBUF. \<not> slk_locked (sleeplocks (binit s) (BufLock b))" using f by simp_all
  show "disk (binit s) = disk s" "dtrace (binit s) = dtrace s" "held (binit s) = held s"
    "curproc (binit s) = curproc s" "procs (binit s) = procs s" using f by simp_all
  show ok: "bio_ok (binit s)"
    by (rule bio_okI) (use assms lk in \<open>simp_all add: lru bufs atLeast_upt\<close>)
  have none: "\<not> cached ROOTDEV m (binit s) b" for m b
    using assms by (auto simp: cached_def bufs dest: sym)
  then show "refs (binit s) n = 0" "locked_blocks (binit s) = {}"
    using refs_not_cached [OF ok] by (simp_all add: locked_blocks_def)
  show "dview (binit s) = disk s"
    using none dview_not_cached [OF ok] f by (simp add: fun_eq_iff)
qed

subsection \<open>Correctness\<close>

text \<open>
  Cache coherence. When the buffer of a block is not locked and there is room for it,
  \<^verbatim>\<open>bread\<close> returns a buffer that this process has locked and that holds the current content of the
  block: the cached one, or the one on disk. It is the only buffer of that block, and neither the
  content of any block nor the disk has changed.
\<close>

theorem bread_returns_current:
  assumes "ready p s" and "n \<notin> locked_blocks s" and "refs s n \<noteq> - 1"
    and "refs s n \<noteq> 0 \<or> card (busy s) < NBUF"
  shows "\<exists>b t. bread ROOTDEV n s = Inr (b, t) \<and> ready p t \<and> mine (BufLock b) t \<and>
    b_data (bufs t b) = dview s n \<and> dview t = dview s \<and> disk t = disk s \<and>
    (\<forall>c. cached ROOTDEV n t c \<longleftrightarrow> c = b)"
proof -
  obtain b t where r: "bread ROOTDEV n s = Inr (b, t)" and t: "ready p t" "holding_buf p n b t"
    and c: "cache_is t (dview s) (disk s) ((refs s)(n := refs s n + 1)) (insert n (locked_blocks s))"
    and d: "b_data (bufs t b) = dview s n" by (rule bread_ok [OF assms], rule that)
  note f = holding_bufD [OF t]
  have "cached ROOTDEV n t c \<longleftrightarrow> c = b" for c
    using bio_okD(3) [OF f(1) _ f(2) ROOTDEV_neq_0] f(2) by blast
  then show ?thesis using r t(1) d c f(6) by (intro exI [of _ b] exI [of _ t]) (simp add: cache_is_def)
qed

definition kbio_ex :: kbio where
  "kbio_ex = binit (ksleep.extend (ksleep_ex False)
     \<lparr>bufs = (\<lambda>_. \<lparr>b_valid = False, b_dev = 0, b_blockno = 0, b_refcnt = 0, b_data = (\<lambda>_. 0)\<rparr>),
      lru = [], disk = (\<lambda>n i. ucast n), dtrace = []\<rparr>)"

lemma kbio_ex: "ready 0 kbio_ex" "refs kbio_ex n = 0" "locked_blocks kbio_ex = {}"
  "dview kbio_ex = (\<lambda>n i. ucast n)" "busy kbio_ex = {}" "disk kbio_ex = (\<lambda>n i. ucast n)" "dtrace kbio_ex = []"
  using binit_ok [of "ksleep.extend (ksleep_ex False)
     \<lparr>bufs = (\<lambda>_. \<lparr>b_valid = False, b_dev = 0, b_blockno = 0, b_refcnt = 0, b_data = (\<lambda>_. 0)\<rparr>),
      lru = [], disk = (\<lambda>n i. ucast n), dtrace = []\<rparr>", folded kbio_ex_def]
  by (simp_all add: ready_def calm_def busy_def ksleep.extend_def ksleep_ex_def kcons.extend_def kcons_ex_def)

theorem bread_returns_current_witness:
  "\<exists>b t. bread ROOTDEV 7 kbio_ex = Inr (b, t) \<and> b_data (bufs t b) = (\<lambda>_. 7)"
  using bread_returns_current [OF kbio_ex(1), of 7] by (auto simp: kbio_ex NBUF_def MAXOPBLOCKS_def)

text \<open>
  C26. Read, modify, \<^verbatim>\<open>bwrite\<close>, \<^verbatim>\<open>brelse\<close>, and read again: the sequence ends without panic, the disk
  has the new content in that block and no other block has changed, the write was recorded once,
  the reference and the lock are given back, and the second read returns the new content.
\<close>

theorem block_write_roundtrip:
  assumes "ready p s" and "n \<notin> locked_blocks s" and "refs s n \<noteq> - 1"
    and "refs s n \<noteq> 0 \<or> card (busy s) < NBUF"
  shows "\<exists>b t u v c w. bread ROOTDEV n s = Inr (b, t) \<and>
    bwrite b (upd_buf b (\<lambda>q. q\<lparr>b_data := d\<rparr>) t) = Inr u \<and> brelse b u = Inr v \<and>
    disk v = (disk s)(n := d) \<and> dview v = (dview s)(n := d) \<and> dtrace v = dtrace s @ [(n, d)] \<and>
    refs v = refs s \<and> locked_blocks v = locked_blocks s \<and>
    bread ROOTDEV n v = Inr (c, w) \<and> b_data (bufs w c) = d"
proof -
  obtain b t where r: "bread ROOTDEV n s = Inr (b, t)" and t: "ready p t" "holding_buf p n b t"
    "cache_is t (dview s) (disk s) ((refs s)(n := refs s n + 1)) (insert n (locked_blocks s))"
    "dtrace t = dtrace s" by (rule bread_ok [OF assms], rule that)
  let ?t = "upd_buf b (\<lambda>q. q\<lparr>b_data := d\<rparr>) t"
  note m = set_data_ok [OF t(1,2), where d = d]
  obtain u where w: "bwrite b ?t = Inr u" and u: "ready p u"
    "cache_is u (dview ?t) ((disk ?t)(n := dview ?t n)) (refs ?t) (locked_blocks ?t)"
    "dtrace u = dtrace ?t @ [(n, dview ?t n)]" and hu: "\<And>m c. holding_buf p m c ?t \<Longrightarrow> holding_buf p m c u"
    by (rule bwrite_ok [OF m(1) m(5) [OF t(2)]], rule that)
  have e: "dview u n = disk u n" using u(2) by (simp add: cache_is_def)
  obtain v where q: "brelse b u = Inr v" and v: "ready p v"
    "cache_is v (dview u) (disk u) ((refs u)(n := refs u n - 1)) (locked_blocks u - {n})"
    "dtrace v = dtrace u" by (rule brelse_ok [OF u(1) hu [OF m(5) [OF t(2)]] e], rule that)
  have sv: "cache_is v ((dview s)(n := d)) ((disk s)(n := d)) (refs s) (locked_blocks s)"
    using t(3) m(4) u(2) v(2) assms(2) by (auto simp: cache_is_def)
  then have "busy v = busy s" by (simp add: busy_def cache_is_def)
  with sv assms have pre: "n \<notin> locked_blocks v" "refs v n \<noteq> - 1" "refs v n \<noteq> 0 \<or> card (busy v) < NBUF"
    by (simp_all add: cache_is_def)
  obtain c w where "bread ROOTDEV n v = Inr (c, w)" "b_data (bufs w c) = dview v n"
    by (rule bread_ok [OF v(1) pre], rule that)
  moreover have "dtrace v = dtrace s @ [(n, d)]" using t(3,4) m(3,4) u(3) v(3) by (simp add: cache_is_def)
  ultimately show ?thesis using r w q sv
    by (intro exI [of _ b] exI [of _ t] exI [of _ u] exI [of _ v] exI [of _ c] exI [of _ w])
      (simp add: cache_is_def)
qed

theorem block_write_roundtrip_witness:
  "\<exists>b t u v. bread ROOTDEV 7 kbio_ex = Inr (b, t) \<and>
    bwrite b (upd_buf b (\<lambda>q. q\<lparr>b_data := \<lambda>_. 9\<rparr>) t) = Inr u \<and> brelse b u = Inr v \<and>
    disk v 7 = (\<lambda>_. 9) \<and> disk v 8 = (\<lambda>_. 8) \<and> dtrace v = [(7, \<lambda>_. 9)]"
  using block_write_roundtrip [OF kbio_ex(1), of 7 "\<lambda>_. 9"] by (auto simp: kbio_ex NBUF_def MAXOPBLOCKS_def)

text \<open>
  C40. The error paths of the cache: \<^verbatim>\<open>bwrite\<close> and \<^verbatim>\<open>brelse\<close> panic exactly when this process does not
  hold the buffer's lock, and \<^verbatim>\<open>bread\<close> of a block that is not cached panics when every buffer is in use.
\<close>

theorem bio_errors:
  assumes "held s = {}" and "curproc s = Some p"
  shows "(bwrite b s = Inl (Panic ''bwrite'') \<longleftrightarrow> \<not> mine (BufLock b) s) \<and>
    (brelse b s = Inl (Panic ''brelse'') \<longleftrightarrow> \<not> mine (BufLock b) s) \<and>
    (bio_ok s \<and> (\<forall>c. \<not> cached dev n s c) \<and> (\<forall>i < NBUF. b_refcnt (bufs s i) \<noteq> 0) \<longrightarrow>
      bread dev n s = Inl (Panic ''bget: no buffers''))"
proof (intro conjI impI)
  have npl: "no_proc_lock s" using assms(1) by (simp add: no_proc_lock_def)
  show "bwrite b s = Inl (Panic ''bwrite'') \<longleftrightarrow> \<not> mine (BufLock b) s"
    using assms by (simp add: bwrite_def holdingsleep_eq)
  show "brelse b s = Inl (Panic ''brelse'') \<longleftrightarrow> \<not> mine (BufLock b) s"
    using assms npl by (simp add: brelse_def holdingsleep_eq releasesleep_eq acquire_lk_free release_lk_held
        Let_def upd_buf_def)
  assume h: "bio_ok s \<and> (\<forall>c. \<not> cached dev n s c) \<and> (\<forall>i < NBUF. b_refcnt (bufs s i) \<noteq> 0)"
  then have "find (\<lambda>b. b_refcnt (bufs s b) = 0) (rev (lru s)) = None"
    using bio_okD(2) [of s] unfolding find_None_iff by auto
  then show "bread dev n s = Inl (Panic ''bget: no buffers'')"
    using assms h find_not_cached [of s dev n] by (simp add: bread_def bget_def acquire_lk_free)
qed

theorem bio_errors_witness:
  "brelse 3 kbio_ex = Inl (Panic ''brelse'') \<and> bwrite 3 kbio_ex = Inl (Panic ''bwrite'')"
proof -
  have "held kbio_ex = {}" "curproc kbio_ex = Some 0" "bio_ok kbio_ex"
    using kbio_ex(1) by (simp_all add: ready_def calm_def)
  moreover have "\<not> mine (BufLock 3) kbio_ex"
  proof -
    have "\<not> slk_locked (sleeplocks kbio_ex (BufLock 3))"
      unfolding kbio_ex_def by (rule binit_unlocked) (simp add: NBUF_def MAXOPBLOCKS_def)
    then show ?thesis by (simp add: mine_def)
  qed
  ultimately show ?thesis using bio_errors [of kbio_ex 0 3] by blast
qed

end
