(* ===== verification/Block.thy ===== *)
theory Block
  imports Bio
begin

section \<open>Fields of disk blocks\<close>

text \<open>
  The file system casts a pointer into a buffer's data to a pointer to a structure
  (\<^verbatim>\<open>struct logheader\<close>, \<^verbatim>\<open>struct dinode\<close>, \<^verbatim>\<open>struct dirent\<close>, an array of \<^verbatim>\<open>uint\<close>). Here are the loads and
  stores of 16-bit and 32-bit fields at a byte offset, little-endian.
\<close>

definition get_bytes :: "block \<Rightarrow> nat \<Rightarrow> nat \<Rightarrow> u8 list" where
  "get_bytes d off n = map d [off..<off + n]"

definition put_bytes :: "nat \<Rightarrow> u8 list \<Rightarrow> block \<Rightarrow> block" where
  "put_bytes off bs d = (\<lambda>i. if off \<le> i \<and> i < off + length bs then bs ! (i - off) else d i)"

definition get16 :: "block \<Rightarrow> nat \<Rightarrow> u16" where "get16 d off = le_word (get_bytes d off 2)"
definition put16 :: "nat \<Rightarrow> u16 \<Rightarrow> block \<Rightarrow> block" where "put16 off v = put_bytes off (le_bytes 2 v)"
definition get32 :: "block \<Rightarrow> nat \<Rightarrow> u32" where "get32 d off = le_word (get_bytes d off 4)"
definition put32 :: "nat \<Rightarrow> u32 \<Rightarrow> block \<Rightarrow> block" where "put32 off v = put_bytes off (le_bytes 4 v)"

lemma length_get_bytes [simp]: "length (get_bytes d off n) = n"
  by (simp add: get_bytes_def)

lemma get_put_bytes: "n = length bs \<Longrightarrow> get_bytes (put_bytes off bs d) off n = bs"
  by (rule nth_equalityI) (simp_all add: get_bytes_def put_bytes_def)

lemma get_put_bytes_other:
  "off + n \<le> off' \<or> off' + length bs \<le> off \<Longrightarrow> get_bytes (put_bytes off' bs d) off n = get_bytes d off n"
  by (auto simp: get_bytes_def put_bytes_def)

lemma put_get_bytes: "put_bytes off (get_bytes d off n) d = d"
  by (rule ext) (auto simp: get_bytes_def put_bytes_def)

lemma put_bytes_outside: "i < off \<or> off + length bs \<le> i \<Longrightarrow> put_bytes off bs d i = d i"
  by (auto simp: put_bytes_def)

lemma get16_put16 [simp]: "get16 (put16 off v d) off = v"
  by (simp add: get16_def put16_def get_put_bytes le_word_le_bytes take_bit_word_eq_self)

lemma get32_put32 [simp]: "get32 (put32 off v d) off = v"
  by (simp add: get32_def put32_def get_put_bytes le_word_le_bytes take_bit_word_eq_self)

lemma get16_put16_other: "off + 2 \<le> off' \<or> off' + 2 \<le> off \<Longrightarrow> get16 (put16 off' v d) off = get16 d off"
  by (simp add: get16_def put16_def get_put_bytes_other)

lemma get32_put32_other: "off + 4 \<le> off' \<or> off' + 4 \<le> off \<Longrightarrow> get32 (put32 off' v d) off = get32 d off"
  by (simp add: get32_def put32_def get_put_bytes_other)

lemma get16_put32_other: "off + 2 \<le> off' \<or> off' + 4 \<le> off \<Longrightarrow> get16 (put32 off' v d) off = get16 d off"
  by (simp add: get16_def put32_def get_put_bytes_other)

lemma get32_put16_other: "off + 4 \<le> off' \<or> off' + 2 \<le> off \<Longrightarrow> get32 (put16 off' v d) off = get32 d off"
  by (simp add: get32_def put16_def get_put_bytes_other)

lemma get_bytes_put16_other: "off + n \<le> off' \<or> off' + 2 \<le> off \<Longrightarrow>
    get_bytes (put16 off' v d) off n = get_bytes d off n"
  by (simp add: put16_def get_put_bytes_other)

lemma get16_put_bytes_other: "off + 2 \<le> off' \<or> off' + length bs \<le> off \<Longrightarrow>
    get16 (put_bytes off' bs d) off = get16 d off"
  by (simp add: get16_def get_put_bytes_other)

lemmas get_put_other = get16_put16_other get32_put32_other get16_put32_other get32_put16_other
  get_bytes_put16_other get16_put_bytes_other

text \<open>An array of 32-bit integers at \<open>off\<close>: the loops that store and load its first elements.\<close>

fun put_array :: "nat \<Rightarrow> u32 list \<Rightarrow> block \<Rightarrow> block" where
  "put_array off [] d = d"
| "put_array off (v # vs) d = put_array (off + 4) vs (put32 off v d)"

definition get_array :: "block \<Rightarrow> nat \<Rightarrow> nat \<Rightarrow> u32 list" where
  "get_array d off n = map (\<lambda>i. get32 d (off + 4 * i)) [0..<n]"

lemma put_array_other: "off' + 4 \<le> off \<Longrightarrow> get32 (put_array off vs d) off' = get32 d off'"
  by (induction off vs d rule: put_array.induct) (simp_all add: get32_put32_other)

lemma get_put_array: "get_array (put_array off vs d) off (length vs) = vs"
proof (induction off vs d rule: put_array.induct)
  case (2 off v vs d)
  have "[0..<length (v # vs)] = 0 # map Suc [0..<length vs]"
    by (simp add: map_Suc_upt upt_conv_Cons del: upt_Suc)
  then show ?case using 2 by (simp add: get_array_def put_array_other comp_def add.assoc)
qed (simp add: get_array_def)

end
