(* ===== verification/Log.thy ===== *)
theory Log
  imports Block
begin

section \<open>The write-ahead log\<close>

text \<open>
  \<^verbatim>\<open>kernel/log.c\<close>. \<open>lh_n\<close> and \<open>lh_block\<close> are the in-memory header. On disk the header is the block at
  \<^verbatim>\<open>log.start\<close>: the count at byte 0 and the block numbers from byte 4 on; log block \<^verbatim>\<open>i\<close> is at
  \<^verbatim>\<open>log.start+i+1\<close>. Reading a header whose count exceeds \<^verbatim>\<open>LOGSIZE\<close> would overrun \<^verbatim>\<open>log.lh.block\<close>, which is
  a \<open>Fault\<close> here.
\<close>

record klog = kbio +
  log_start :: u32
  log_size :: int
  log_outstanding :: int
  log_committing :: bool
  log_dev :: u32
  lh_n :: int
  lh_block :: "nat \<Rightarrow> u32"

definition log_block :: "'z klog_scheme \<Rightarrow> nat \<Rightarrow> u32" where
  "log_block s tail = log_start s + of_nat tail + 1"

text \<open>\<^verbatim>\<open>memmove(dst->data, src->data, BSIZE)\<close>\<close>

definition copy_data :: "nat \<Rightarrow> nat \<Rightarrow> 'z klog_scheme \<Rightarrow> 'z klog_scheme" where
  "copy_data dst src s = upd_buf dst (\<lambda>q. q\<lparr>b_data := b_data (bufs s src)\<rparr>) s"

definition install_one :: "bool \<Rightarrow> nat \<Rightarrow> 'z klog_scheme \<Rightarrow> ('z klog_scheme, 'z klog_scheme) res" where
  "install_one recovering tail s =
     andthen (bread (log_dev s) (log_block s tail) s) (\<lambda>(lbuf, s).
     andthen (bread (log_dev s) (lh_block s tail) s) (\<lambda>(dbuf, s).
     andthen (bwrite dbuf (copy_data dbuf lbuf s)) (\<lambda>s.
     andthen (if recovering then Inr s else bunpin dbuf s) (\<lambda>s.
     andthen (brelse lbuf s) (\<lambda>s.
     brelse dbuf s)))))"

definition install_trans :: "bool \<Rightarrow> 'z klog_scheme \<Rightarrow> ('z klog_scheme, 'z klog_scheme) res" where
  "install_trans recovering s = for_each (install_one recovering) [0..<nat (lh_n s)] s"

definition read_head :: "'z klog_scheme \<Rightarrow> ('z klog_scheme, 'z klog_scheme) res" where
  "read_head s =
     andthen (bread (log_dev s) (log_start s) s) (\<lambda>(b, s).
     let d = b_data (bufs s b); n = sint (get32 d 0) in
     if n > int LOGSIZE then Inl Fault
     else brelse b (s\<lparr>lh_n := n,
       lh_block := (\<lambda>i. if i < nat n then get32 d (4 + 4 * i) else lh_block s i)\<rparr>))"

definition write_head :: "'z klog_scheme \<Rightarrow> ('z klog_scheme, 'z klog_scheme) res" where
  "write_head s =
     andthen (bread (log_dev s) (log_start s) s) (\<lambda>(b, s).
     let s = upd_buf b (\<lambda>q. q\<lparr>b_data := put_array 4 (map (lh_block s) [0..<nat (lh_n s)])
       (put32 0 (of_int (lh_n s)) (b_data q))\<rparr>) s
     in andthen (bwrite b s) (brelse b))"

definition recover_from_log :: "'z klog_scheme \<Rightarrow> ('z klog_scheme, 'z klog_scheme) res" where
  "recover_from_log s =
     andthen (read_head s) (\<lambda>s.
     andthen (install_trans True s) (\<lambda>s.
     write_head (s\<lparr>lh_n := 0\<rparr>)))"

definition initlog :: "u32 \<Rightarrow> u32 \<Rightarrow> u32 \<Rightarrow> 'z klog_scheme \<Rightarrow> ('z klog_scheme, 'z klog_scheme) res" where
  "initlog dev logstart nlog s =
     (if 4 + 4 * LOGSIZE \<ge> BSIZE then Inl (Panic ''initlog: too big logheader'')
      else recover_from_log (s\<lparr>log_start := logstart, log_size := sint nlog, log_dev := dev\<rparr>))"

text \<open>One pass through the loop of \<^verbatim>\<open>begin_op\<close>, with the lock held.\<close>

definition begin_op_loop :: "'z klog_scheme \<Rightarrow> ('z klog_scheme, 'z klog_scheme) res" where
  "begin_op_loop s =
     (if log_committing s then sleep LogChan LogLock s
      else if lh_n s + (log_outstanding s + 1) * int MAXOPBLOCKS > int LOGSIZE then sleep LogChan LogLock s
      else release_lk LogLock (s\<lparr>log_outstanding := log_outstanding s + 1\<rparr>))"

definition begin_op :: "'z klog_scheme \<Rightarrow> ('z klog_scheme, 'z klog_scheme) res" where
  "begin_op s = andthen (acquire_lk LogLock s) begin_op_loop"

definition begin_op_resume :: "'z klog_scheme \<Rightarrow> ('z klog_scheme, 'z klog_scheme) res" where
  "begin_op_resume s = andthen (sleep_resume LogLock s) begin_op_loop"

definition write_log_one :: "nat \<Rightarrow> 'z klog_scheme \<Rightarrow> ('z klog_scheme, 'z klog_scheme) res" where
  "write_log_one tail s =
     andthen (bread (log_dev s) (log_block s tail) s) (\<lambda>(to, s).
     andthen (bread (log_dev s) (lh_block s tail) s) (\<lambda>(from, s).
     andthen (bwrite to (copy_data to from s)) (\<lambda>s.
     andthen (brelse from s) (\<lambda>s.
     brelse to s))))"

definition write_log :: "'z klog_scheme \<Rightarrow> ('z klog_scheme, 'z klog_scheme) res" where
  "write_log s = for_each write_log_one [0..<nat (lh_n s)] s"

definition commit :: "'z klog_scheme \<Rightarrow> ('z klog_scheme, 'z klog_scheme) res" where
  "commit s =
     (if lh_n s > 0 then
        andthen (write_log s) (\<lambda>s.
        andthen (write_head s) (\<lambda>s.
        andthen (install_trans False s) (\<lambda>s.
        write_head (s\<lparr>lh_n := 0\<rparr>))))
      else Inr s)"

definition end_op :: "'z klog_scheme \<Rightarrow> ('z klog_scheme, 'z klog_scheme) res" where
  "end_op s =
     andthen (acquire_lk LogLock s) (\<lambda>s.
     let s = s\<lparr>log_outstanding := log_outstanding s - 1\<rparr> in
     if log_committing s then Inl (Panic ''log.committing'')
     else if log_outstanding s = 0 then
       andthen (release_lk LogLock (s\<lparr>log_committing := True\<rparr>)) (\<lambda>s.
       andthen (commit s) (\<lambda>s.
       andthen (acquire_lk LogLock s) (\<lambda>s.
       andthen (wakeup LogChan (s\<lparr>log_committing := False\<rparr>)) (\<lambda>s.
       release_lk LogLock s))))
     else
       andthen (wakeup LogChan s) (\<lambda>s.
       release_lk LogLock s))"

text \<open>The search loop of \<^verbatim>\<open>log_write\<close>: the first index with that block, or \<^verbatim>\<open>log.lh.n\<close>.\<close>

definition log_find :: "u32 \<Rightarrow> 'z klog_scheme \<Rightarrow> nat" where
  "log_find n s = (case find (\<lambda>i. lh_block s i = n) [0..<nat (lh_n s)] of Some i \<Rightarrow> i | None \<Rightarrow> nat (lh_n s))"

definition log_write :: "nat \<Rightarrow> 'z klog_scheme \<Rightarrow> ('z klog_scheme, 'z klog_scheme) res" where
  "log_write b s =
     andthen (acquire_lk LogLock s) (\<lambda>s.
     if lh_n s \<ge> int LOGSIZE \<or> lh_n s \<ge> log_size s - 1 then Inl (Panic ''too big a transaction'')
     else if log_outstanding s < 1 then Inl (Panic ''log_write outside of trans'')
     else
       (let i = log_find (b_blockno (bufs s b)) s;
            s = s\<lparr>lh_block := (lh_block s)(i := b_blockno (bufs s b))\<rparr>
        in andthen
          (if int i = lh_n s then andthen (bpin b s) (\<lambda>s. Inr (s\<lparr>lh_n := lh_n s + 1\<rparr>)) else Inr s) (\<lambda>s.
        release_lk LogLock s)))"

subsection \<open>One block at a time\<close>

lemma same_kernel_log:
  fixes s t :: "'z klog_scheme"
  assumes "same_kernel s t"
  shows "log_start t = log_start s" "log_size t = log_size s" "log_outstanding t = log_outstanding s"
    "log_committing t = log_committing s" "log_dev t = log_dev s" "lh_n t = lh_n s" "lh_block t = lh_block s"
proof -
  have eq: "t = s\<lparr>procs := procs t, sleeplocks := sleeplocks t, bufs := bufs t, lru := lru t,
     disk := disk t, dtrace := dtrace t\<rparr>" using assms by (simp add: same_kernel_def)
  show "log_start t = log_start s" "log_size t = log_size s" "log_outstanding t = log_outstanding s"
    "log_committing t = log_committing s" "log_dev t = log_dev s" "lh_n t = lh_n s" "lh_block t = lh_block s"
    by (subst eq, simp)+
qed

lemma same_kernel_lh_n:
  fixes s t :: "'z klog_scheme"
  assumes "same_kernel s t"
  shows "same_kernel (s\<lparr>lh_n := n\<rparr>) (t\<lparr>lh_n := n\<rparr>)"
proof -
  have eq: "t = s\<lparr>procs := procs t, sleeplocks := sleeplocks t, bufs := bufs t, lru := lru t,
     disk := disk t, dtrace := dtrace t\<rparr>" using assms by (simp add: same_kernel_def)
  have "t\<lparr>lh_n := n\<rparr> = s\<lparr>lh_n := n, procs := procs t, sleeplocks := sleeplocks t, bufs := bufs t,
    lru := lru t, disk := disk t, dtrace := dtrace t\<rparr>"
    by (subst eq, rule klog.equality) simp_all
  then show ?thesis using assms by (simp add: same_kernel_def)
qed

lemma write_log_one_ok:
  fixes s :: "'z klog_scheme"
  assumes r: "ready p s" and dev: "log_dev s = ROOTDEV"
    and l: "log_block s i = l" and h: "lh_block s i = h" and ne: "l \<noteq> h"
    and unl: "l \<notin> locked_blocks s" "h \<notin> locked_blocks s" and ref: "refs s l \<noteq> - 1" "refs s h \<noteq> - 1"
    and room: "card (busy s) < NBUF" and pin: "refs s h \<noteq> 0"
  obtains t where "write_log_one i s = Inr t" and "ready p t"
    and "cache_is t ((dview s)(l := dview s h)) ((disk s)(l := dview s h)) (refs s) (locked_blocks s)"
    and "dtrace t = dtrace s @ [(l, dview s h)]" and "same_kernel s t"
proof -
  obtain b1 s1 where s1: "bread ROOTDEV l s = Inr (b1, s1)" "ready p s1" "holding_buf p l b1 s1"
    "cache_is s1 (dview s) (disk s) ((refs s)(l := refs s l + 1)) (insert l (locked_blocks s))"
    "dtrace s1 = dtrace s" "same_kernel s s1"
    by (rule bread_ok [OF r unl(1) ref(1) disjI2 [OF room]], rule that)
  have pre: "h \<notin> locked_blocks s1" "refs s1 h \<noteq> - 1" "refs s1 h \<noteq> 0 \<or> card (busy s1) < NBUF"
    using s1(4) unl(2) ref(2) pin ne by (auto simp: cache_is_def)
  obtain b2 s2 where s2: "bread ROOTDEV h s1 = Inr (b2, s2)" "ready p s2" "holding_buf p h b2 s2"
    "cache_is s2 (dview s1) (disk s1) ((refs s1)(h := refs s1 h + 1)) (insert h (locked_blocks s1))"
    "b_data (bufs s2 b2) = dview s1 h" "dtrace s2 = dtrace s1" "same_kernel s1 s2"
    "\<And>m c. holding_buf p m c s1 \<Longrightarrow> holding_buf p m c s2"
    by (rule bread_ok [OF s1(2) pre], rule that)
  note h1 = s2(8) [OF s1(3)]
  let ?s3 = "copy_data b1 b2 s2"
  note s3 = set_data_ok [OF s2(2) h1, where d = "b_data (bufs s2 b2)", folded copy_data_def]
  obtain s4 where s4: "bwrite b1 ?s3 = Inr s4" "ready p s4"
    "cache_is s4 (dview ?s3) ((disk ?s3)(l := dview ?s3 l)) (refs ?s3) (locked_blocks ?s3)"
    "dtrace s4 = dtrace ?s3 @ [(l, dview ?s3 l)]" "same_kernel ?s3 s4"
    "\<And>m c. holding_buf p m c ?s3 \<Longrightarrow> holding_buf p m c s4"
    by (rule bwrite_ok [OF s3(1) s3(5) [OF h1]], rule that)
  have hold: "holding_buf p l b1 s4" "holding_buf p h b2 s4"
    using s4(6) s3(5) h1 s2(3) by blast+
  have r4: "refs s4 h \<noteq> 1" using s1(4) s2(4) s3(4) s4(3) pin ne by (simp add: cache_is_def)
  obtain s5 where s5: "brelse b2 s4 = Inr s5" "ready p s5"
    "cache_is s5 (dview s4) (disk s4) ((refs s4)(h := refs s4 h - 1)) (locked_blocks s4 - {h})"
    "dtrace s5 = dtrace s4" "same_kernel s4 s5"
    "\<And>m c. holding_buf p m c s4 \<Longrightarrow> m \<noteq> h \<Longrightarrow> holding_buf p m c s5"
    by (rule brelse_ok [OF s4(2) hold(2)], use r4 in blast, rule that)
  have clean: "dview s5 l = disk s5 l" using s4(3) s5(3) by (simp add: cache_is_def)
  obtain s6 where s6: "brelse b1 s5 = Inr s6" "ready p s6"
    "cache_is s6 (dview s5) (disk s5) ((refs s5)(l := refs s5 l - 1)) (locked_blocks s5 - {l})"
    "dtrace s6 = dtrace s5" "same_kernel s5 s6"
    by (rule brelse_ok [OF s5(2) s5(6) [OF hold(1) ne] clean], rule that)
  have "write_log_one i s = Inr s6"
    using s1(1) s2(1) s4(1) s5(1) s6(1) dev l h by (simp add: write_log_one_def same_kernel_log [OF s1(6)])
  moreover have "cache_is s6 ((dview s)(l := dview s h)) ((disk s)(l := dview s h)) (refs s) (locked_blocks s)"
    using s1(4) s2(4,5) s3(4) s4(3) s5(3) s6(3) ne unl by (auto simp: cache_is_def fun_eq_iff)
  moreover have "dtrace s6 = dtrace s @ [(l, dview s h)]"
    using s1(4,5) s2(4-6) s3(3,4) s4(4) s5(4) s6(4) by (simp add: cache_is_def)
  moreover have "same_kernel s s6"
    using s1(6) s2(7) s3(2) s4(5) s5(5) s6(5) same_kernel_trans by meson
  ultimately show ?thesis using that s6(2) by blast
qed

lemma refs_0_clean: "bio_ok s \<Longrightarrow> refs s n = 0 \<Longrightarrow> dview s n = disk s n"
  using dview_cached [of s n] refs_cached [of s n] dview_not_cached [of s n] bio_okD(5) [of s]
  by (cases "\<exists>b. cached ROOTDEV n s b") (auto simp: cached_def)

lemma busy_bread:
  "card (busy t) \<le> Suc (card (busy s))" if "refs t = (refs s)(n := x)" for s t :: "'z kbio_scheme"
proof -
  have "busy t \<subseteq> insert n (busy s)" using that by (auto simp: busy_def)
  then have "card (busy t) \<le> card (insert n (busy s))" by (intro card_mono) auto
  then show ?thesis using card_insert_le_m1 [of "Suc (card (busy s))" "busy s" n] by simp
qed

lemma install_one_ok:
  fixes s :: "'z klog_scheme"
  assumes r: "ready p s" and dev: "log_dev s = ROOTDEV"
    and l: "log_block s i = l" and h: "lh_block s i = h" and ne: "l \<noteq> h"
    and unl: "l \<notin> locked_blocks s" "h \<notin> locked_blocks s" and ref: "refs s l \<noteq> - 1" "refs s h \<noteq> - 1"
    and room: "if recovering then Suc (card (busy s)) < NBUF else refs s h \<noteq> 0 \<and> card (busy s) < NBUF"
  obtains t where "install_one recovering i s = Inr t" and "ready p t"
    and "cache_is t ((dview s)(h := dview s l)) ((disk s)(h := dview s l))
      (if recovering then refs s else (refs s)(h := refs s h - 1)) (locked_blocks s)"
    and "dtrace t = dtrace s @ [(h, dview s l)]" and "same_kernel s t"
proof -
  have room1: "refs s l \<noteq> 0 \<or> card (busy s) < NBUF" using room by (simp split: if_splits)
  obtain b1 s1 where s1: "bread ROOTDEV l s = Inr (b1, s1)" "ready p s1" "holding_buf p l b1 s1"
    "cache_is s1 (dview s) (disk s) ((refs s)(l := refs s l + 1)) (insert l (locked_blocks s))"
    "dtrace s1 = dtrace s" "same_kernel s s1"
    by (rule bread_ok [OF r unl(1) ref(1) room1], rule that)
  have "card (busy s1) \<le> Suc (card (busy s))"
    by (rule busy_bread) (use s1(4) in \<open>simp add: cache_is_def\<close>)
  then have pre: "h \<notin> locked_blocks s1" "refs s1 h \<noteq> - 1" "refs s1 h \<noteq> 0 \<or> card (busy s1) < NBUF"
    using s1(4) unl(2) ref(2) room ne by (auto simp: cache_is_def split: if_splits)
  obtain b2 s2 where s2: "bread ROOTDEV h s1 = Inr (b2, s2)" "ready p s2" "holding_buf p h b2 s2"
    "cache_is s2 (dview s1) (disk s1) ((refs s1)(h := refs s1 h + 1)) (insert h (locked_blocks s1))"
    "dtrace s2 = dtrace s1" "same_kernel s1 s2"
    "\<And>m c. holding_buf p m c s1 \<Longrightarrow> holding_buf p m c s2"
    by (rule bread_ok [OF s1(2) pre], rule that)
  note h1 = s2(7) [OF s1(3)]
  let ?s3 = "copy_data b2 b1 s2"
  note s3 = set_data_ok [OF s2(2,3), where d = "b_data (bufs s2 b1)", folded copy_data_def]
  have data: "b_data (bufs s2 b1) = dview s l"
    using holding_bufD(10) [OF s2(2) h1] s1(4) s2(4) by (simp add: cache_is_def)
  obtain s4 where s4: "bwrite b2 ?s3 = Inr s4" "ready p s4"
    "cache_is s4 (dview ?s3) ((disk ?s3)(h := dview ?s3 h)) (refs ?s3) (locked_blocks ?s3)"
    "dtrace s4 = dtrace ?s3 @ [(h, dview ?s3 h)]" "same_kernel ?s3 s4"
    "\<And>m c. holding_buf p m c ?s3 \<Longrightarrow> holding_buf p m c s4"
    by (rule bwrite_ok [OF s3(1) s3(5) [OF s2(3)]], rule that)
  have hold: "holding_buf p l b1 s4" "holding_buf p h b2 s4"
    using s4(6) s3(5) h1 s2(3) by blast+
  obtain s5 where s5: "(if recovering then Inr s4 else bunpin b2 s4) = Inr s5" "ready p s5"
    "cache_is s5 (dview s4) (disk s4) (if recovering then refs s4 else (refs s4)(h := refs s4 h - 1)) (locked_blocks s4)"
    "dtrace s5 = dtrace s4" "same_kernel s4 s5" "holding_buf p l b1 s5" "holding_buf p h b2 s5"
  proof (cases recovering)
    case True
    then show ?thesis using s4(2) hold by (intro that [of s4]) (simp_all add: cache_is_def)
  next
    case False
    have x: "refs s4 h - 1 \<noteq> 0" using False room s1(4) s2(4) s3(4) s4(3) ne by (simp add: cache_is_def)
    note f = holding_bufD [OF s4(2) hold(2)]
    show ?thesis using pin_ok [OF s4(2) hold(2) x] False hold bunpin_eq [of s4 b2] f(7,9)
      by (intro that [of "upd_buf b2 (\<lambda>q. q\<lparr>b_refcnt := refs s4 h - 1\<rparr>) s4"]) simp_all
  qed
  have cl: "dview s5 l = disk s5 l" if "refs s5 l = 1"
    using that refs_0_clean [of s l] r s1(4) s2(4) s3(4) s4(3) s5(3) ne
    by (auto simp: cache_is_def ready_def split: if_splits)
  obtain s6 where s6: "brelse b1 s5 = Inr s6" "ready p s6"
    "cache_is s6 (dview s5) (disk s5) ((refs s5)(l := refs s5 l - 1)) (locked_blocks s5 - {l})"
    "dtrace s6 = dtrace s5" "same_kernel s5 s6"
    "\<And>m c. holding_buf p m c s5 \<Longrightarrow> m \<noteq> l \<Longrightarrow> holding_buf p m c s6"
    by (rule brelse_ok [OF s5(2,6) cl], assumption, rule that)
  have ch: "dview s6 h = disk s6 h" using s4(3) s5(3) s6(3) by (simp add: cache_is_def)
  obtain s7 where s7: "brelse b2 s6 = Inr s7" "ready p s7"
    "cache_is s7 (dview s6) (disk s6) ((refs s6)(h := refs s6 h - 1)) (locked_blocks s6 - {h})"
    "dtrace s7 = dtrace s6" "same_kernel s6 s7"
    by (rule brelse_ok [OF s6(2) s6(6) [OF s5(7) ne [symmetric]] ch], rule that)
  have "install_one recovering i s = Inr s7"
    using s1(1) s2(1) s4(1) s5(1) s6(1) s7(1) dev l h
    by (simp add: install_one_def same_kernel_log [OF s1(6)] del: if_split)
  moreover have "cache_is s7 ((dview s)(h := dview s l)) ((disk s)(h := dview s l))
      (if recovering then refs s else (refs s)(h := refs s h - 1)) (locked_blocks s)"
    using s1(4) s2(4) s3(4) s4(3) s5(3) s6(3) s7(3) ne unl data by (auto simp: cache_is_def fun_eq_iff)
  moreover have "dtrace s7 = dtrace s @ [(h, dview s l)]"
    using s1(5) s2(5) s3(3,4) s4(4) s5(4) s6(4) s7(4) data by (simp add: cache_is_def)
  moreover have "same_kernel s s7"
    using s1(6) s2(6) s3(2) s4(5) s5(5) s6(5) s7(5) same_kernel_trans by meson
  ultimately show ?thesis using that s7(2) by blast
qed

text \<open>The cache does not look at the fields of the log.\<close>

lemma log_fields_cache [simp]:
  "bio_ok (lh_n_update f s) = bio_ok s" "bio_ok (lh_block_update g s) = bio_ok s"
  "ready p (lh_n_update f s) = ready p s" "ready p (lh_block_update g s) = ready p s"
  "holding_buf p n b (lh_n_update f s) = holding_buf p n b s"
  "holding_buf p n b (lh_block_update g s) = holding_buf p n b s"
  "dview (lh_n_update f s) = dview s" "dview (lh_block_update g s) = dview s"
  "refs (lh_n_update f s) = refs s" "refs (lh_block_update g s) = refs s"
  "locked_blocks (lh_n_update f s) = locked_blocks s" "locked_blocks (lh_block_update g s) = locked_blocks s"
  "busy (lh_n_update f s) = busy s" "busy (lh_block_update g s) = busy s"
  by (rule cache_cong; simp)+

definition head_block :: "int \<Rightarrow> u32 list \<Rightarrow> block \<Rightarrow> block" where
  "head_block n hs d = put_array 4 hs (put32 0 (of_int n) d)"

definition log_homes :: "'z klog_scheme \<Rightarrow> u32 list" where
  "log_homes s = map (lh_block s) [0..<nat (lh_n s)]"

lemma write_head_ok:
  fixes s :: "'z klog_scheme"
  assumes r: "ready p s" and dev: "log_dev s = ROOTDEV" and unl: "log_start s \<notin> locked_blocks s"
    and ref: "refs s (log_start s) \<noteq> - 1" and room: "card (busy s) < NBUF"
  defines "H \<equiv> head_block (lh_n s) (log_homes s) (dview s (log_start s))"
  obtains t where "write_head s = Inr t" and "ready p t"
    and "cache_is t ((dview s)(log_start s := H)) ((disk s)(log_start s := H)) (refs s) (locked_blocks s)"
    and "dtrace t = dtrace s @ [(log_start s, H)]" and "same_kernel s t"
proof -
  let ?l = "log_start s"
  obtain b s1 where s1: "bread ROOTDEV ?l s = Inr (b, s1)" "ready p s1" "holding_buf p ?l b s1"
    "cache_is s1 (dview s) (disk s) ((refs s)(?l := refs s ?l + 1)) (insert ?l (locked_blocks s))"
    "b_data (bufs s1 b) = dview s ?l" "dtrace s1 = dtrace s" "same_kernel s s1"
    by (rule bread_ok [OF r unl ref disjI2 [OF room]], rule that)
  let ?s2 = "upd_buf b (\<lambda>q. q\<lparr>b_data := H\<rparr>) s1"
  note s2 = set_data_ok [OF s1(2,3), where d = H]
  obtain s3 where s3: "bwrite b ?s2 = Inr s3" "ready p s3"
    "cache_is s3 (dview ?s2) ((disk ?s2)(?l := dview ?s2 ?l)) (refs ?s2) (locked_blocks ?s2)"
    "dtrace s3 = dtrace ?s2 @ [(?l, dview ?s2 ?l)]" "same_kernel ?s2 s3"
    "\<And>m c. holding_buf p m c ?s2 \<Longrightarrow> holding_buf p m c s3"
    by (rule bwrite_ok [OF s2(1) s2(5) [OF s1(3)]], rule that)
  have c: "dview s3 ?l = disk s3 ?l" using s3(3) by (simp add: cache_is_def)
  obtain t where t: "brelse b s3 = Inr t" "ready p t"
    "cache_is t (dview s3) (disk s3) ((refs s3)(?l := refs s3 ?l - 1)) (locked_blocks s3 - {?l})"
    "dtrace t = dtrace s3" "same_kernel s3 t"
    by (rule brelse_ok [OF s3(2) s3(6) [OF s2(5) [OF s1(3)]] c], rule that)
  have "upd_buf b (\<lambda>q. q\<lparr>b_data := put_array 4 (map (lh_block s1) [0..<nat (lh_n s1)])
    (put32 0 (of_int (lh_n s1)) (b_data q))\<rparr>) s1 = ?s2"
    by (rule upd_buf_cong) (simp add: H_def head_block_def log_homes_def s1(5) same_kernel_log [OF s1(7)])
  then have "write_head s = Inr t"
    using s1(1) s3(1) t(1) dev by (simp add: write_head_def Let_def)
  moreover have "cache_is t ((dview s)(?l := H)) ((disk s)(?l := H)) (refs s) (locked_blocks s)"
    using s1(4) s2(4) s3(3) t(3) unl by (auto simp: cache_is_def fun_eq_iff)
  moreover have "dtrace t = dtrace s @ [(?l, H)]"
    using s1(6) s2(3,4) s3(4) t(4) by (simp add: cache_is_def)
  moreover have "same_kernel s t" using s1(7) s2(2) s3(5) t(5) same_kernel_trans by meson
  ultimately show ?thesis using that t(2) by blast
qed

text \<open>Reading the header takes over its count and block numbers.\<close>

definition with_head :: "block \<Rightarrow> 'z klog_scheme \<Rightarrow> 'z klog_scheme" where
  "with_head d s = s\<lparr>lh_n := sint (get32 d 0),
     lh_block := (\<lambda>i. if i < nat (sint (get32 d 0)) then get32 d (4 + 4 * i) else lh_block s i)\<rparr>"

lemma read_head_ok:
  fixes s :: "'z klog_scheme"
  assumes r: "ready p s" and dev: "log_dev s = ROOTDEV" and unl: "log_start s \<notin> locked_blocks s"
    and ref: "refs s (log_start s) \<noteq> - 1" and room: "card (busy s) < NBUF"
    and n: "sint (get32 (dview s (log_start s)) 0) \<le> int LOGSIZE"
  obtains t where "read_head s = Inr t" and "ready p t"
    and "cache_is t (dview s) (disk s) (refs s) (locked_blocks s)"
    and "dtrace t = dtrace s" and "same_kernel (with_head (dview s (log_start s)) s) t"
proof -
  let ?l = "log_start s"
  obtain b s1 where s1: "bread ROOTDEV ?l s = Inr (b, s1)" "ready p s1" "holding_buf p ?l b s1"
    "cache_is s1 (dview s) (disk s) ((refs s)(?l := refs s ?l + 1)) (insert ?l (locked_blocks s))"
    "b_data (bufs s1 b) = dview s ?l" "dtrace s1 = dtrace s" "same_kernel s s1"
    by (rule bread_ok [OF r unl ref disjI2 [OF room]], rule that)
  let ?s2 = "with_head (dview s ?l) s1"
  have s2: "ready p ?s2" "holding_buf p ?l b ?s2" "dview ?s2 = dview s1" "disk ?s2 = disk s1" "refs ?s2 = refs s1"
    "locked_blocks ?s2 = locked_blocks s1" "dtrace ?s2 = dtrace s1" using s1(2,3) by (simp_all add: with_head_def)
  have cl: "dview ?s2 ?l = disk ?s2 ?l" if "refs ?s2 ?l = 1"
    using that refs_0_clean [of s ?l] r s1(4) unfolding s2 by (simp add: cache_is_def ready_def)
  obtain t where t: "brelse b ?s2 = Inr t" "ready p t"
    "cache_is t (dview ?s2) (disk ?s2) ((refs ?s2)(?l := refs ?s2 ?l - 1)) (locked_blocks ?s2 - {?l})"
    "dtrace t = dtrace ?s2" "same_kernel ?s2 t"
    by (rule brelse_ok [OF s2(1,2) cl], assumption, rule that)
  have eq: "s1 = s\<lparr>procs := procs s1, sleeplocks := sleeplocks s1, bufs := bufs s1, lru := lru s1,
     disk := disk s1, dtrace := dtrace s1\<rparr>" using s1(7) by (simp add: same_kernel_def)
  have "?s2 = (with_head (dview s ?l) s)\<lparr>procs := procs s1, sleeplocks := sleeplocks s1, bufs := bufs s1,
    lru := lru s1, disk := disk s1, dtrace := dtrace s1\<rparr>"
    by (subst eq, rule klog.equality) (simp_all add: with_head_def cong: if_cong)
  then have "same_kernel (with_head (dview s ?l) s) ?s2"
    using s1(7) by (simp add: same_kernel_def with_head_def)
  then have "same_kernel (with_head (dview s ?l) s) t" using t(5) by (rule same_kernel_trans)
  moreover have "read_head s = Inr t"
    using s1(1,5) t(1) dev n by (simp add: read_head_def Let_def with_head_def cong: if_cong)
  moreover have "cache_is t (dview s) (disk s) (refs s) (locked_blocks s)"
    using s1(4) t(3) unl unfolding s2 by (auto simp: cache_is_def)
  ultimately show ?thesis using that t(2,4) s1(6) s2(7) by simp
qed

subsection \<open>The loops\<close>

definition apply_writes :: "(u32 \<times> block) list \<Rightarrow> (u32 \<Rightarrow> block) \<Rightarrow> u32 \<Rightarrow> block" where
  "apply_writes ws D = fold (\<lambda>(n, d) D. D(n := d)) ws D"

lemma apply_writes_simps [simp]:
  "apply_writes [] D = D"
  "apply_writes (w # ws) D = apply_writes ws (D(fst w := snd w))"
  "apply_writes (ws @ ws') D = apply_writes ws' (apply_writes ws D)"
  by (simp_all add: apply_writes_def case_prod_beta)

lemma apply_writes_other: "n \<notin> fst ` set ws \<Longrightarrow> apply_writes ws D n = D n"
  by (induction ws arbitrary: D) auto

lemma apply_writes_mem: "n \<in> fst ` set ws \<Longrightarrow> (n, apply_writes ws D n) \<in> set ws"
proof (induction ws rule: rev_induct)
  case (snoc w ws)
  then show ?case by (cases "n = fst w") auto
qed simp

text \<open>A list of writes that agree with \<open>V\<close>.\<close>

lemma apply_writes_fun:
  "apply_writes (map (\<lambda>n. (n, V n)) ns) D = (\<lambda>n. if n \<in> set ns then V n else D n)"
  by (induction ns arbitrary: D) auto

definition log_area :: "'z klog_scheme \<Rightarrow> u32 set" where
  "log_area s = (\<lambda>i. log_start s + of_nat i) ` {0..<nat (log_size s)}"

text \<open>The shape of the log: where it is, and that no logged block lies inside it.\<close>

definition log_ok :: "'z klog_scheme \<Rightarrow> bool" where
  "log_ok s \<longleftrightarrow> log_dev s = ROOTDEV \<and> 0 \<le> lh_n s \<and> lh_n s \<le> int LOGSIZE \<and> lh_n s < log_size s \<and>
     log_size s < 2 ^ 31 \<and> distinct (log_homes s) \<and> set (log_homes s) \<inter> log_area s = {}"

text \<open>No one else is using the blocks of the log, and there is a buffer to work with.\<close>

definition log_free :: "nat \<Rightarrow> 'z klog_scheme \<Rightarrow> bool" where
  "log_free p s \<longleftrightarrow> ready p s \<and> locked_blocks s \<inter> (log_area s \<union> set (log_homes s)) = {} \<and>
     (\<forall>n. refs s n \<noteq> - 1) \<and> card (busy s) < NBUF"

lemma log_block_eq: "log_block s i = log_start s + of_nat (Suc i)"
  by (simp add: log_block_def)

lemma log_okD:
  assumes "log_ok s" and "i < nat (lh_n s)"
  shows "log_block s i \<in> log_area s" and "lh_block s i \<in> set (log_homes s)"
    and "lh_block s i \<notin> log_area s" and "log_start s \<in> log_area s"
proof -
  have "Suc i < nat (log_size s)" using assms by (auto simp: log_ok_def)
  then show "log_block s i \<in> log_area s"
    unfolding log_area_def log_block_eq by (intro imageI) simp
  have "log_start s + of_nat 0 \<in> log_area s"
    unfolding log_area_def using \<open>Suc i < nat (log_size s)\<close> by (intro imageI) simp
  then show "log_start s \<in> log_area s" by simp
  show "lh_block s i \<in> set (log_homes s)" using assms(2) by (auto simp: log_homes_def)
  then show "lh_block s i \<notin> log_area s" using assms(1) by (auto simp: log_ok_def)
qed

lemma unat_of_nat_32: "i < 2 ^ 32 \<Longrightarrow> unat (of_nat i :: u32) = i"
  by (simp add: unat_of_nat take_bit_nat_eq_self)

lemma log_block_inj:
  assumes "log_ok s" and "i < nat (lh_n s)" and "j < nat (lh_n s)" and "log_block s i = log_block s j"
  shows "i = j"
proof -
  have "i < 2 ^ 32" "j < 2 ^ 32" using assms by (auto simp: log_ok_def LOGSIZE_def MAXOPBLOCKS_def)
  moreover have "(of_nat i :: u32) = of_nat j" using assms(4) by (simp add: log_block_def)
  ultimately show ?thesis by (metis unat_of_nat_32)
qed

lemma for_each_single: "for_each f [x] = f x"
proof
  have "for_each f [] = Inr" by (simp add: fun_eq_iff)
  then show "for_each f [x] s = f x s" for s by simp
qed

lemma for_each_upt_Suc: "for_each f [0..<Suc m] s = andthen (for_each f [0..<m] s) (f m)"
  by (simp add: for_each_append for_each_single)

lemma distinct_map_upt_prefix: "distinct (map f [0..<n]) \<Longrightarrow> m \<le> n \<Longrightarrow> distinct (map f [0..<m])"
  by (auto simp: distinct_map intro: inj_on_subset)

text \<open>\<^verbatim>\<open>write_log\<close> copies every logged block to its place in the log.\<close>

definition log_writes :: "'z klog_scheme \<Rightarrow> (u32 \<times> block) list" where
  "log_writes s = map (\<lambda>i. (log_block s i, dview s (lh_block s i))) [0..<nat (lh_n s)]"

lemma write_log_ok:
  fixes s :: "'z klog_scheme"
  assumes ok: "log_ok s" and free: "log_free p s" and pin: "\<forall>h \<in> set (log_homes s). refs s h \<noteq> 0"
  obtains t where "write_log s = Inr t" and "ready p t"
    and "cache_is t (apply_writes (log_writes s) (dview s)) (apply_writes (log_writes s) (disk s))
      (refs s) (locked_blocks s)"
    and "dtrace t = dtrace s @ log_writes s" and "same_kernel s t"
proof -
  let ?W = "\<lambda>m. map (\<lambda>i. (log_block s i, dview s (lh_block s i))) [0..<m]"
  have "m \<le> nat (lh_n s) \<Longrightarrow> \<exists>t. for_each write_log_one [0..<m] s = Inr t \<and> ready p t \<and>
    cache_is t (apply_writes (?W m) (dview s)) (apply_writes (?W m) (disk s)) (refs s) (locked_blocks s) \<and>
    dtrace t = dtrace s @ ?W m \<and> same_kernel s t" for m
  proof (induction m)
    case 0
    then show ?case using free by (auto simp: log_free_def cache_is_def)
  next
    case (Suc m)
    then obtain t where t: "for_each write_log_one [0..<m] s = Inr t" "ready p t"
      "cache_is t (apply_writes (?W m) (dview s)) (apply_writes (?W m) (disk s)) (refs s) (locked_blocks s)"
      "dtrace t = dtrace s @ ?W m" "same_kernel s t" by auto
    note k = same_kernel_log [OF t(5)]
    have m: "m < nat (lh_n s)" using Suc.prems by simp
    note d = log_okD [OF ok m]
    have out: "lh_block s m \<notin> fst ` set (?W m)" using log_okD(1) [OF ok] d(3) m by auto
    have "log_dev t = ROOTDEV" "log_block t m = log_block s m" "lh_block t m = lh_block s m"
      "log_block s m \<noteq> lh_block s m" using ok d k by (auto simp: log_ok_def log_block_def)
    moreover have "log_block s m \<notin> locked_blocks t" "lh_block s m \<notin> locked_blocks t"
      "refs t (log_block s m) \<noteq> - 1" "refs t (lh_block s m) \<noteq> - 1" "card (busy t) < NBUF"
      "refs t (lh_block s m) \<noteq> 0"
      using free pin d t(3) by (auto simp: log_free_def cache_is_def busy_def)
    ultimately obtain u where u: "write_log_one m t = Inr u" "ready p u"
      "cache_is u ((dview t)(log_block s m := dview t (lh_block s m)))
        ((disk t)(log_block s m := dview t (lh_block s m))) (refs t) (locked_blocks t)"
      "dtrace u = dtrace t @ [(log_block s m, dview t (lh_block s m))]" "same_kernel t u"
      using write_log_one_ok [OF t(2)] by metis
    have dv: "dview t (lh_block s m) = dview s (lh_block s m)"
      using t(3) apply_writes_other [OF out] by (simp add: cache_is_def)
    have step: "apply_writes (?W (Suc m)) D = (apply_writes (?W m) D)(log_block s m := dview s (lh_block s m))"
      for D by (simp only: upt_Suc zero_le if_True map_append apply_writes_simps list.map fst_conv snd_conv)
    show ?case
    proof (intro exI [of _ u] conjI)
      show "for_each write_log_one [0..<Suc m] s = Inr u" using t(1) u(1) by (simp only: for_each_upt_Suc andthen_simps)
      show "cache_is u (apply_writes (?W (Suc m)) (dview s)) (apply_writes (?W (Suc m)) (disk s)) (refs s)
        (locked_blocks s)" unfolding step using t(3) u(3) dv by (simp add: cache_is_def)
    qed (use u(2,4) t(4) dv same_kernel_trans [OF t(5) u(5)] in simp_all)
  qed
  from this [OF order_refl, folded log_writes_def write_log_def]
  show ?thesis by (elim exE conjE) (rule that)
qed

text \<open>\<^verbatim>\<open>install_trans\<close> copies every log block to its home.\<close>

definition install_writes :: "'z klog_scheme \<Rightarrow> (u32 \<times> block) list" where
  "install_writes s = map (\<lambda>i. (lh_block s i, dview s (log_block s i))) [0..<nat (lh_n s)]"

lemma install_trans_ok:
  fixes s :: "'z klog_scheme"
  assumes ok: "log_ok s" and free: "log_free p s"
    and room: "if recovering then Suc (card (busy s)) < NBUF else \<forall>h \<in> set (log_homes s). refs s h \<noteq> 0"
  obtains t where "install_trans recovering s = Inr t" and "ready p t"
    and "cache_is t (apply_writes (install_writes s) (dview s)) (apply_writes (install_writes s) (disk s))
      (if recovering then refs s else (\<lambda>n. if n \<in> set (log_homes s) then refs s n - 1 else refs s n))
      (locked_blocks s)"
    and "dtrace t = dtrace s @ install_writes s" and "same_kernel s t"
proof -
  let ?W = "\<lambda>m. map (\<lambda>i. (lh_block s i, dview s (log_block s i))) [0..<m]"
  let ?R = "\<lambda>m. if recovering then refs s
    else (\<lambda>n. if n \<in> set (map (lh_block s) [0..<m]) then refs s n - 1 else refs s n)"
  have "m \<le> nat (lh_n s) \<Longrightarrow> \<exists>t. for_each (install_one recovering) [0..<m] s = Inr t \<and> ready p t \<and>
    cache_is t (apply_writes (?W m) (dview s)) (apply_writes (?W m) (disk s)) (?R m) (locked_blocks s) \<and>
    dtrace t = dtrace s @ ?W m \<and> same_kernel s t" for m
  proof (induction m)
    case 0
    then show ?case using free by (auto simp: log_free_def cache_is_def)
  next
    case (Suc m)
    then obtain t where t: "for_each (install_one recovering) [0..<m] s = Inr t" "ready p t"
      "cache_is t (apply_writes (?W m) (dview s)) (apply_writes (?W m) (disk s)) (?R m) (locked_blocks s)"
      "dtrace t = dtrace s @ ?W m" "same_kernel s t" by auto
    note k = same_kernel_log [OF t(5)]
    have m: "m < nat (lh_n s)" using Suc.prems by simp
    note d = log_okD [OF ok m]
    have out: "log_block s m \<notin> fst ` set (?W m)"
    proof -
      have "fst ` set (?W m) \<subseteq> - log_area s" using log_okD(3) [OF ok] m by auto
      then show ?thesis using d(1) by blast
    qed
    have new: "lh_block s m \<notin> set (map (lh_block s) [0..<m])"
    proof -
      have "distinct (map (lh_block s) [0..<Suc m])"
        by (rule distinct_map_upt_prefix [OF _ Suc.prems]) (use ok in \<open>simp add: log_ok_def log_homes_def\<close>)
      then show ?thesis by simp
    qed
    have rt: "refs t = ?R m" and lt: "locked_blocks t = locked_blocks s" using t(3) by (simp_all add: cache_is_def)
    have sub: "card (busy t) \<le> card (busy s)"
      by (rule card_mono) (use room rt m in \<open>auto simp: busy_def log_homes_def split: if_splits\<close>)
    have pre: "log_dev t = ROOTDEV" "log_block t m = log_block s m" "lh_block t m = lh_block s m"
      "log_block s m \<noteq> lh_block s m" using ok d k by (auto simp: log_ok_def log_block_def)
    have unl: "log_block s m \<notin> locked_blocks t" "lh_block s m \<notin> locked_blocks t"
      using free d lt by (auto simp: log_free_def)
    have ref: "refs t (log_block s m) \<noteq> - 1" "refs t (lh_block s m) \<noteq> - 1"
    proof -
      have "log_block s m \<notin> set (map (lh_block s) [0..<m])" using out by (simp add: image_image)
      then show "refs t (log_block s m) \<noteq> - 1" using free rt by (simp add: log_free_def)
      show "refs t (lh_block s m) \<noteq> - 1" using free rt new by (simp add: log_free_def)
    qed
    have rm: "if recovering then Suc (card (busy t)) < NBUF
      else refs t (lh_block s m) \<noteq> 0 \<and> card (busy t) < NBUF"
      using room rt new d(2) sub free by (auto simp: log_free_def)
    obtain u where u: "install_one recovering m t = Inr u" "ready p u"
      "cache_is u ((dview t)(lh_block s m := dview t (log_block s m)))
        ((disk t)(lh_block s m := dview t (log_block s m)))
        (if recovering then refs t else (refs t)(lh_block s m := refs t (lh_block s m) - 1)) (locked_blocks t)"
      "dtrace u = dtrace t @ [(lh_block s m, dview t (log_block s m))]" "same_kernel t u"
      by (rule install_one_ok [OF t(2) pre unl ref rm], rule that)
    have dv: "dview t (log_block s m) = dview s (log_block s m)"
      using t(3) apply_writes_other [OF out] by (simp add: cache_is_def)
    have step: "apply_writes (?W (Suc m)) D = (apply_writes (?W m) D)(lh_block s m := dview s (log_block s m))"
      for D by (simp only: upt_Suc zero_le if_True map_append apply_writes_simps list.map fst_conv snd_conv)
    have stepR: "(if recovering then refs t else (refs t)(lh_block s m := refs t (lh_block s m) - 1)) = ?R (Suc m)"
      using rt new by (auto simp: fun_eq_iff)
    show ?case
    proof (intro exI [of _ u] conjI)
      show "for_each (install_one recovering) [0..<Suc m] s = Inr u"
        using t(1) u(1) by (simp only: for_each_upt_Suc andthen_simps)
      show "cache_is u (apply_writes (?W (Suc m)) (dview s)) (apply_writes (?W (Suc m)) (disk s)) (?R (Suc m))
        (locked_blocks s)" unfolding step stepR [symmetric] using t(3) u(3) dv
        by (simp add: cache_is_def del: if_split)
    qed (use u(2,4) t(4) dv same_kernel_trans [OF t(5) u(5)] in simp_all)
  qed
  from this [OF order_refl, folded log_homes_def install_writes_def install_trans_def]
  show ?thesis by (elim exE conjE) (rule that)
qed

end
