(* ===== verification/Log_Crash.thy ===== *)
theory Log_Crash
  imports Log
begin

section \<open>Crash atomicity of the log\<close>

text \<open>
  What \<^verbatim>\<open>commit\<close> writes to the disk, in order, and that a crash after any number of these writes,
  followed by \<^verbatim>\<open>recover_from_log\<close>, leaves the file system as it was before the transaction or with the
  whole transaction applied.
\<close>

subsection \<open>Commit\<close>

lemma same_kernel_shape:
  fixes s t :: "'z klog_scheme"
  assumes "same_kernel s t"
  shows "log_homes t = log_homes s" "log_area t = log_area s" "log_ok t = log_ok s" "log_block t = log_block s"
  using same_kernel_log [OF assms]
  by (simp_all add: log_homes_def log_area_def log_ok_def log_block_def [abs_def])

lemma log_start_neq:
  assumes "log_ok s" and "i < nat (lh_n s)"
  shows "log_start s \<noteq> log_block s i"
proof -
  have "Suc i < 2 ^ 32" using assms by (auto simp: log_ok_def LOGSIZE_def MAXOPBLOCKS_def)
  then have "unat (of_nat (Suc i) :: u32) = Suc i" by (rule unat_of_nat_32)
  then have "(of_nat (Suc i) :: u32) \<noteq> 0" by (metis Zero_not_Suc unsigned_0)
  then show ?thesis unfolding log_block_eq by (metis add_cancel_left_right)
qed

lemma log_writes_area:
  assumes "log_ok s" and "n \<in> fst ` set (log_writes s)"
  shows "n \<in> log_area s" and "n \<noteq> log_start s"
proof -
  from assms(2) obtain i where "i < nat (lh_n s)" "n = log_block s i" by (auto simp: log_writes_def)
  then show "n \<in> log_area s" "n \<noteq> log_start s" using log_okD(1) log_start_neq assms(1) by metis+
qed

lemma apply_log_writes:
  assumes "log_ok s" and "i < nat (lh_n s)"
  shows "apply_writes (log_writes s) D (log_block s i) = dview s (lh_block s i)"
proof -
  have "log_block s i \<in> fst ` set (log_writes s)" using assms(2) by (auto simp: log_writes_def image_iff)
  from apply_writes_mem [OF this, of D] obtain j where j: "j < nat (lh_n s)" "log_block s i = log_block s j"
    "apply_writes (log_writes s) D (log_block s i) = dview s (lh_block s j)" by (auto simp: log_writes_def)
  then show ?thesis using log_block_inj [OF assms j(1,2)] by simp
qed

definition new_head :: "'z klog_scheme \<Rightarrow> block" where
  "new_head s = head_block (lh_n s) (log_homes s) (dview s (log_start s))"

definition home_writes :: "'z klog_scheme \<Rightarrow> (u32 \<times> block) list" where
  "home_writes s = map (\<lambda>n. (n, dview s n)) (log_homes s)"

text \<open>The log blocks, the header, the home blocks, the empty header.\<close>

definition commit_writes :: "'z klog_scheme \<Rightarrow> (u32 \<times> block) list" where
  "commit_writes s = log_writes s @ [(log_start s, new_head s)] @ home_writes s @
     [(log_start s, put32 0 0 (new_head s))]"

lemma home_writes_other: "log_ok s \<Longrightarrow> n \<in> log_area s \<Longrightarrow> apply_writes (home_writes s) D n = D n"
  by (rule apply_writes_other) (auto simp: home_writes_def log_ok_def)

lemma commit_ok:
  fixes s :: "'z klog_scheme"
  assumes ok: "log_ok s" and free: "log_free p s" and pin: "\<forall>h \<in> set (log_homes s). refs s h \<noteq> 0"
    and pos: "lh_n s > 0"
  obtains t where "commit s = Inr t" and "ready p t" and "dtrace t = dtrace s @ commit_writes s"
    and "cache_is t (apply_writes (commit_writes s) (dview s)) (apply_writes (commit_writes s) (disk s))
      (\<lambda>n. if n \<in> set (log_homes s) then refs s n - 1 else refs s n) (locked_blocks s)"
    and "same_kernel (s\<lparr>lh_n := 0\<rparr>) t"
proof -
  let ?R = "\<lambda>n. if n \<in> set (log_homes s) then refs s n - 1 else refs s n"
  have dev: "log_dev s = ROOTDEV" using ok by (simp add: log_ok_def)
  have st: "log_start s \<in> log_area s" using log_okD(4) [OF ok, of 0] pos by simp
  obtain s1 where s1: "write_log s = Inr s1" "ready p s1"
    "cache_is s1 (apply_writes (log_writes s) (dview s)) (apply_writes (log_writes s) (disk s)) (refs s) (locked_blocks s)"
    "dtrace s1 = dtrace s @ log_writes s" "same_kernel s s1"
    by (rule write_log_ok [OF ok free pin], rule that)
  note k1 = same_kernel_log [OF s1(5)] and h1 = same_kernel_shape [OF s1(5)]
  have start1: "dview s1 (log_start s) = dview s (log_start s)"
    using s1(3) apply_writes_other [of "log_start s" "log_writes s"] log_writes_area(2) [OF ok]
    by (auto simp: cache_is_def)
  have fr: "log_start s \<notin> locked_blocks s" "\<And>n. refs s n \<noteq> - 1" "card (busy s) < NBUF"
    using free st by (auto simp: log_free_def)
  have busy1: "busy s1 = busy s" using s1(3) by (simp add: busy_def cache_is_def)
  have pre1: "log_dev s1 = ROOTDEV" "log_start s1 \<notin> locked_blocks s1" "refs s1 (log_start s1) \<noteq> - 1"
    "card (busy s1) < NBUF" using k1 dev fr s1(3) busy1 by (simp_all add: cache_is_def)
  obtain s2 where s2: "write_head s1 = Inr s2" "ready p s2"
    "cache_is s2 ((dview s1)(log_start s := new_head s)) ((disk s1)(log_start s := new_head s)) (refs s1) (locked_blocks s1)"
    "dtrace s2 = dtrace s1 @ [(log_start s, new_head s)]" "same_kernel s1 s2"
    by (rule write_head_ok [OF s1(2) pre1, unfolded k1 h1 start1, folded new_head_def], rule that)
  note k2 = same_kernel_trans [OF s1(5) s2(5)]
  note h2 = same_kernel_shape [OF k2]
  have free2: "log_free p s2"
    using free s2(2,3) s1(3) busy1 by (simp add: log_free_def h2 cache_is_def busy_def)
  have ok2: "log_ok s2" and room2: "if False then Suc (card (busy s2)) < NBUF else \<forall>h\<in>set (log_homes s2). refs s2 h \<noteq> 0"
    using ok pin s1(3) s2(3) by (simp_all add: h2 cache_is_def)
  have iw: "install_writes s2 = home_writes s"
    unfolding install_writes_def home_writes_def same_kernel_log [OF k2] h2
    using apply_log_writes [OF ok] log_start_neq [OF ok, symmetric] s1(3) s2(3)
    by (simp add: log_homes_def cache_is_def)
  obtain s3 where s3: "install_trans False s2 = Inr s3" "ready p s3"
    "cache_is s3 (apply_writes (home_writes s) (dview s2)) (apply_writes (home_writes s) (disk s2)) ?R (locked_blocks s)"
    "dtrace s3 = dtrace s2 @ home_writes s" "same_kernel s2 s3"
  proof (rule install_trans_ok [OF ok2 free2 room2, unfolded iw h2 if_False])
    fix t assume "cache_is t (apply_writes (home_writes s) (dview s2)) (apply_writes (home_writes s) (disk s2))
      (\<lambda>n. if n \<in> set (log_homes s) then refs s2 n - 1 else refs s2 n) (locked_blocks s2)"
      and a: "install_trans False s2 = Inr t" "ready p t" "dtrace t = dtrace s2 @ home_writes s" "same_kernel s2 t"
    then have "cache_is t (apply_writes (home_writes s) (dview s2)) (apply_writes (home_writes s) (disk s2)) ?R (locked_blocks s)"
      using s1(3) s2(3) by (simp add: cache_is_def cong: if_cong)
    then show thesis using that a by blast
  qed
  note k3 = same_kernel_trans [OF k2 s3(5)]
  let ?s3 = "s3\<lparr>lh_n := 0\<rparr>"
  have start3: "dview s3 (log_start s) = new_head s"
    using s3(3) s2(3) home_writes_other [OF ok st] by (simp add: cache_is_def)
  have busy3: "card (busy s3) < NBUF"
  proof -
    have "busy s3 \<subseteq> busy s" using s3(3) pin by (auto simp: busy_def cache_is_def split: if_splits)
    then have "card (busy s3) \<le> card (busy s)" by (intro card_mono) auto
    then show ?thesis using fr(3) by simp
  qed
  have r3: "ready p ?s3" using s3(2) by simp
  have pre3: "log_dev ?s3 = ROOTDEV" "log_start ?s3 \<notin> locked_blocks ?s3" "refs ?s3 (log_start ?s3) \<noteq> - 1"
    "card (busy ?s3) < NBUF"
    using same_kernel_log [OF k3] dev fr s3(3) busy3 st ok by (auto simp: cache_is_def log_ok_def)
  have hd3: "head_block (lh_n ?s3) (log_homes ?s3) (dview ?s3 (log_start ?s3)) = put32 0 0 (new_head s)"
    using same_kernel_log [OF k3] start3 by (simp add: head_block_def log_homes_def)
  obtain t where t: "write_head ?s3 = Inr t" "ready p t"
    "cache_is t ((dview ?s3)(log_start ?s3 := put32 0 0 (new_head s))) ((disk ?s3)(log_start ?s3 := put32 0 0 (new_head s)))
      (refs ?s3) (locked_blocks ?s3)"
    "dtrace t = dtrace ?s3 @ [(log_start ?s3, put32 0 0 (new_head s))]" "same_kernel ?s3 t"
    by (rule write_head_ok [OF r3 pre3, unfolded hd3], rule that)
  have "commit s = Inr t" using pos s1(1) s2(1) s3(1) t(1) by (simp add: commit_def)
  moreover have "dtrace t = dtrace s @ commit_writes s"
    using t(4) s3(4) s2(4) s1(4) same_kernel_log [OF k3] by (simp add: commit_writes_def)
  moreover have "cache_is t (apply_writes (commit_writes s) (dview s)) (apply_writes (commit_writes s) (disk s))
      ?R (locked_blocks s)"
    using t(3) s3(3) s2(3) s1(3) same_kernel_log [OF k3] by (simp add: cache_is_def commit_writes_def)
  moreover have "same_kernel (s\<lparr>lh_n := 0\<rparr>) t"
    using same_kernel_lh_n [OF k3] t(5) by (rule same_kernel_trans)
  ultimately show ?thesis using that t(2) by blast
qed

subsection \<open>Recovery\<close>

text \<open>A machine that has just booted with disk \<open>D\<close>: nothing is in use, so the cache agrees with the disk.\<close>

definition rebooted :: "nat \<Rightarrow> 'z klog_scheme \<Rightarrow> (u32 \<Rightarrow> block) \<Rightarrow> 'z klog_scheme \<Rightarrow> bool" where
  "rebooted p s D r \<longleftrightarrow> ready p r \<and> refs r = (\<lambda>_. 0) \<and> locked_blocks r = {} \<and> disk r = D \<and>
     log_start r = log_start s \<and> log_size r = log_size s \<and> log_dev r = log_dev s"

lemma with_head_fields [simp]:
  "log_start (with_head d r) = log_start r" "log_size (with_head d r) = log_size r"
  "log_dev (with_head d r) = log_dev r" "lh_n (with_head d r) = sint (get32 d 0)"
  "dview (with_head d r) = dview r" "log_block (with_head d r) = log_block r"
  "log_area (with_head d r) = log_area r" "locked_blocks (with_head d r) = locked_blocks r"
  by (simp_all add: with_head_def log_block_def [abs_def] log_area_def)

lemma recover_ok:
  fixes r :: "'z klog_scheme"
  assumes r: "ready p r" and refs: "refs r = (\<lambda>_. 0)" and unl: "locked_blocks r = {}"
    and ok: "log_ok (with_head (disk r (log_start r)) r)"
  defines "h \<equiv> with_head (disk r (log_start r)) r"
  obtains u where "recover_from_log r = Inr u" and "ready p u" and "lh_n u = 0"
    and "\<And>n. n \<noteq> log_start r \<Longrightarrow> disk u n = apply_writes (install_writes h) (disk r) n"
    and "get32 (disk u (log_start r)) 0 = 0" and "dview u = disk u" and "refs u = (\<lambda>_. 0)"
    and "log_start u = log_start r"
proof -
  have clean: "dview r = disk r" using refs_0_clean [of r] r refs by (auto simp: ready_def)
  have busy: "busy r = {}" using refs by (simp add: busy_def)
  have nbuf: "Suc 0 < NBUF" by (simp add: NBUF_def MAXOPBLOCKS_def)
  have okh: "log_ok h" using ok by (simp add: h_def)
  have "log_dev r = ROOTDEV" and n: "sint (get32 (dview r (log_start r)) 0) \<le> int LOGSIZE"
    using ok clean by (simp_all add: log_ok_def)
  then obtain s1 where s1: "read_head r = Inr s1" "ready p s1"
    "cache_is s1 (dview r) (disk r) (refs r) (locked_blocks r)"
    "dtrace s1 = dtrace r" "same_kernel h s1"
    using read_head_ok [OF r, folded clean, of thesis] unl refs busy nbuf unfolding h_def clean by auto
  note k1 = same_kernel_log [OF s1(5)] and h1 = same_kernel_shape [OF s1(5)]
  have iw: "install_writes s1 = install_writes h"
    using k1 h1 s1(3) by (simp add: install_writes_def cache_is_def h_def)
  have ok1: "log_ok s1" using okh h1 by simp
  have free1: "log_free p s1" and room1: "if True then Suc (card (busy s1)) < NBUF else \<forall>h\<in>set (log_homes s1). refs s1 h \<noteq> 0"
    using s1(2,3) unl refs nbuf by (simp_all add: log_free_def cache_is_def busy_def)
  obtain s2 where s2: "install_trans True s1 = Inr s2" "ready p s2"
    "cache_is s2 (apply_writes (install_writes h) (dview s1)) (apply_writes (install_writes h) (disk s1))
      (refs s1) (locked_blocks s1)"
    "dtrace s2 = dtrace s1 @ install_writes h" "same_kernel s1 s2"
    by (rule install_trans_ok [OF ok1 free1 room1, unfolded iw if_True], rule that)
  let ?s2 = "s2\<lparr>lh_n := 0\<rparr>"
  have st: "log_start ?s2 = log_start r" "log_dev ?s2 = ROOTDEV"
    using same_kernel_log [OF s2(5)] k1 okh by (simp_all add: h_def log_ok_def)
  have r2: "ready p ?s2" using s2(2) by simp
  have pre: "log_start ?s2 \<notin> locked_blocks ?s2" "refs ?s2 (log_start ?s2) \<noteq> - 1" "card (busy ?s2) < NBUF"
    using s1(3) s2(3) unl refs nbuf by (simp_all add: cache_is_def busy_def)
  obtain u where u: "write_head ?s2 = Inr u" "ready p u"
    "cache_is u ((dview ?s2)(log_start ?s2 := head_block (lh_n ?s2) (log_homes ?s2) (dview ?s2 (log_start ?s2))))
      ((disk ?s2)(log_start ?s2 := head_block (lh_n ?s2) (log_homes ?s2) (dview ?s2 (log_start ?s2))))
      (refs ?s2) (locked_blocks ?s2)" "same_kernel ?s2 u"
    by (rule write_head_ok [OF r2 st(2) pre], rule that)
  have ru: "refs u = (\<lambda>_. 0)" using u(3) s2(3) s1(3) refs by (simp add: cache_is_def)
  have "recover_from_log r = Inr u" using s1(1) s2(1) u(1) by (simp add: recover_from_log_def)
  moreover have "lh_n u = 0" using same_kernel_log [OF u(4)] by simp
  moreover have "disk u n = apply_writes (install_writes h) (disk r) n" if "n \<noteq> log_start r" for n
    using that u(3) s2(3) s1(3) st(1) by (simp add: cache_is_def)
  moreover have "get32 (disk u (log_start r)) 0 = 0"
    using u(3) st(1) by (simp add: cache_is_def head_block_def log_homes_def)
  moreover have "dview u = disk u" using refs_0_clean [of u] u(2) ru by (auto simp: ready_def)
  moreover have "log_start u = log_start r" using same_kernel_log [OF u(4)] st(1) by simp
  ultimately show ?thesis using that u(2) ru by blast
qed

subsection \<open>A crash in the middle of a commit\<close>

text \<open>Outside the log, only the blocks of the transaction differ between the cache and the disk.\<close>

definition log_clean :: "'z klog_scheme \<Rightarrow> bool" where
  "log_clean s \<longleftrightarrow> get32 (disk s (log_start s)) 0 = 0 \<and>
     (\<forall>n. n \<notin> set (log_homes s) \<longrightarrow> n \<notin> log_area s \<longrightarrow> dview s n = disk s n)"

lemma length_commit_writes:
  "length (log_writes s) = nat (lh_n s)" "length (home_writes s) = nat (lh_n s)"
  by (simp_all add: log_writes_def home_writes_def log_homes_def)

lemma new_head_fields:
  assumes "log_ok s"
  shows "sint (get32 (new_head s) 0) = lh_n s" and "i < nat (lh_n s) \<Longrightarrow> get32 (new_head s) (4 + 4 * i) = lh_block s i"
proof -
  have "get32 (new_head s) 0 = of_int (lh_n s)"
    by (simp add: new_head_def head_block_def put_array_other)
  moreover have "sint (of_int (lh_n s) :: u32) = lh_n s"
    using assms by (simp add: signed_of_int signed_take_bit_int_eq_self log_ok_def LOGSIZE_def MAXOPBLOCKS_def)
  ultimately show "sint (get32 (new_head s) 0) = lh_n s" by simp
  assume i: "i < nat (lh_n s)"
  have "get_array (new_head s) 4 (length (log_homes s)) = log_homes s"
    by (simp add: new_head_def head_block_def get_put_array)
  then have "get_array (new_head s) 4 (length (log_homes s)) ! i = log_homes s ! i" by simp
  then show "get32 (new_head s) (4 + 4 * i) = lh_block s i"
    using i by (simp add: get_array_def log_homes_def)
qed

text \<open>What the disk looks like after the first \<open>k\<close> writes.\<close>

lemma crash_disk:
  fixes s :: "'z klog_scheme"
  assumes ok: "log_ok s" and clean: "log_clean s" and pos: "0 < lh_n s"
  defines "D \<equiv> \<lambda>k. apply_writes (take k (commit_writes s)) (disk s)"
  shows "k \<le> nat (lh_n s) \<Longrightarrow> D k (log_start s) = disk s (log_start s)"
    and "k \<le> nat (lh_n s) \<Longrightarrow> n \<notin> log_area s \<Longrightarrow> D k n = disk s n"
    and "nat (lh_n s) < k \<Longrightarrow> k \<le> 2 * nat (lh_n s) + 1 \<Longrightarrow> D k (log_start s) = new_head s"
    and "nat (lh_n s) < k \<Longrightarrow> k \<le> 2 * nat (lh_n s) + 1 \<Longrightarrow> i < nat (lh_n s) \<Longrightarrow>
      D k (log_block s i) = dview s (lh_block s i)"
    and "nat (lh_n s) < k \<Longrightarrow> n \<notin> log_area s \<Longrightarrow> n \<notin> set (log_homes s) \<Longrightarrow> D k n = dview s n"
    and "2 * nat (lh_n s) + 1 < k \<Longrightarrow> D k (log_start s) = put32 0 0 (new_head s)"
    and "2 * nat (lh_n s) + 1 < k \<Longrightarrow> n \<notin> log_area s \<Longrightarrow> D k n = dview s n"
proof -
  let ?N = "nat (lh_n s)"
  note len = length_commit_writes [of s]
  have st: "log_start s \<in> log_area s" using log_okD(4) [OF ok, of 0] pos by simp
  have lw: "apply_writes (take j (log_writes s)) D' n = D' n" if "n \<notin> log_area s \<or> n = log_start s" for j D' n
  proof (rule apply_writes_other)
    have "n \<notin> fst ` set (log_writes s)" using that log_writes_area [OF ok] by blast
    moreover have "fst ` set (take j (log_writes s)) \<subseteq> fst ` set (log_writes s)"
      by (intro image_mono set_take_subset)
    ultimately show "n \<notin> fst ` set (take j (log_writes s))" by blast
  qed
  have hw: "apply_writes (take j (home_writes s)) D' n = (if n \<in> set (take j (log_homes s)) then dview s n else D' n)"
    for j D' n by (simp add: home_writes_def take_map apply_writes_fun)
  have ha: "n \<notin> set (take j (log_homes s))" if "n \<in> log_area s" for n j
    using that ok in_set_takeD [of n j] by (auto simp: log_ok_def)
  define L where "L = (apply_writes (log_writes s) (disk s))(log_start s := new_head s)"
  have L: "L n = disk s n" if "n \<notin> log_area s" for n
    using that st lw [of n "length (log_writes s)" "disk s"] by (auto simp: L_def)
  show a: "D k (log_start s) = disk s (log_start s)" if "k \<le> ?N"
    using that len lw by (simp add: D_def commit_writes_def)
  show b: "D k n = disk s n" if "k \<le> ?N" "n \<notin> log_area s"
    using that len lw by (simp add: D_def commit_writes_def)
  have mid: "D k = apply_writes (take (k - Suc ?N) (home_writes s)) L" if "?N < k" "k \<le> 2 * ?N + 1"
    using that len by (auto simp: D_def L_def commit_writes_def take_Cons')
  have full: "D k = (apply_writes (home_writes s) L)(log_start s := put32 0 0 (new_head s))" if "2 * ?N + 1 < k"
    using that len by (auto simp: D_def L_def commit_writes_def take_Cons')
  show "D k (log_start s) = new_head s" if "?N < k" "k \<le> 2 * ?N + 1"
    using mid [OF that] hw ha [OF st] by (simp add: L_def)
  show "D k (log_block s i) = dview s (lh_block s i)" if "?N < k" "k \<le> 2 * ?N + 1" "i < ?N"
    using mid [OF that(1,2)] hw ha [OF log_okD(1) [OF ok that(3)]] log_start_neq [OF ok that(3)]
      apply_log_writes [OF ok that(3)] by (simp add: L_def)
  have hw_all: "apply_writes (home_writes s) D' n = (if n \<in> set (log_homes s) then dview s n else D' n)" for D' n
    by (simp add: home_writes_def apply_writes_fun)
  have cl: "disk s n = dview s n" if "n \<notin> log_area s" "n \<notin> set (log_homes s)" for n
    using clean that by (simp add: log_clean_def)
  show c: "D k n = dview s n" if "2 * ?N + 1 < k" "n \<notin> log_area s"
    using full [OF that(1)] hw_all L cl that st by auto
  show "D k n = dview s n" if "?N < k" "n \<notin> log_area s" "n \<notin> set (log_homes s)"
  proof (cases "2 * ?N + 1 < k")
    case False
    then have "D k n = L n" using mid that hw in_set_takeD [of n _ "log_homes s"] by auto
    then show ?thesis using L cl that by simp
  qed (use c that in blast)
  show "D k (log_start s) = put32 0 0 (new_head s)" if "2 * ?N + 1 < k" using full [OF that] by simp
qed

text \<open>What recovery finds in the header, and what it installs.\<close>

lemma crash_head:
  fixes s r :: "'z klog_scheme"
  assumes ok: "log_ok s" and pos: "0 < lh_n s" and clean: "log_clean s"
    and boot: "rebooted q s (apply_writes (take k (commit_writes s)) (disk s)) r"
  defines "h \<equiv> with_head (disk r (log_start r)) r"
  shows "log_ok h" and "n \<notin> log_area s \<Longrightarrow>
    apply_writes (install_writes h) (disk r) n = (if k \<le> nat (lh_n s) then disk s n else dview s n)"
proof -
  let ?N = "nat (lh_n s)"
  have b: "ready q r" "refs r = (\<lambda>_. 0)" "locked_blocks r = {}" "log_start r = log_start s"
    "log_size r = log_size s" "log_dev r = log_dev s" and d: "disk r = apply_writes (take k (commit_writes s)) (disk s)"
    using boot by (auto simp: rebooted_def)
  note c = crash_disk [OF ok clean pos, of k, folded d]
  have rc: "dview r = disk r" using refs_0_clean [of r] b(1,2) by (auto simp: ready_def)
  have area: "log_area r = log_area s" by (simp add: log_area_def b)
  have shape: "log_size s > 0" "log_size s < 2 ^ 31" "log_dev s = ROOTDEV" using ok by (auto simp: log_ok_def)
  have "log_ok h \<and> (\<forall>n. n \<notin> log_area s \<longrightarrow>
    apply_writes (install_writes h) (disk r) n = (if k \<le> ?N then disk s n else dview s n))"
  proof (cases "?N < k \<and> k \<le> 2 * ?N + 1")
    case False
    then have "get32 (disk r (log_start s)) 0 = 0"
      using c(1,6) clean by (cases "k \<le> ?N") (simp_all add: log_clean_def)
    then have "log_ok h" "install_writes h = []"
      using b shape by (simp_all add: log_ok_def log_homes_def install_writes_def h_def)
    then show ?thesis using c(2,7) False by auto
  next
    case True
    then have hd: "disk r (log_start r) = new_head s" using c(3) b(4) by simp
    have lb: "log_block r = log_block s" by (simp add: log_block_def [abs_def] b(4))
    have homes: "log_homes h = log_homes s"
      using new_head_fields [OF ok] by (simp add: log_homes_def hd with_head_def h_def)
    have "install_writes h = home_writes s"
      using c(4) True new_head_fields [OF ok] by (simp add: install_writes_def home_writes_def log_homes_def
          hd rc lb h_def) (simp add: with_head_def new_head_fields [OF ok])
    moreover have "log_ok h" using ok homes new_head_fields [OF ok] by (simp add: log_ok_def hd area b(5,6) h_def)
    ultimately show ?thesis using c(5) True by (auto simp: home_writes_def apply_writes_fun)
  qed
  then show "log_ok h" and "n \<notin> log_area s \<Longrightarrow>
    apply_writes (install_writes h) (disk r) n = (if k \<le> ?N then disk s n else dview s n)" by blast+
qed

text \<open>
  C2. Crash atomicity. Let the power fail after any number \<open>k\<close> of the disk writes of \<^verbatim>\<open>commit\<close>, and let
  the machine boot and run \<^verbatim>\<open>recover_from_log\<close>. Recovery returns, the log is empty again, and outside
  the log every block has its content from before the transaction if the header had not been
  written, and its content after the transaction if it had: never a mixture. Without a crash
  \<^verbatim>\<open>commit\<close> returns, after exactly these writes, and unpins every block of the transaction.
\<close>

theorem log_crash_atomic:
  fixes s r :: "'z klog_scheme"
  assumes ok: "log_ok s" and free: "log_free p s" and pin: "\<forall>h \<in> set (log_homes s). refs s h \<noteq> 0"
    and pos: "0 < lh_n s" and clean: "log_clean s"
    and boot: "rebooted q s (apply_writes (take k (commit_writes s)) (disk s)) r"
  shows "(\<exists>u. recover_from_log r = Inr u \<and> lh_n u = 0 \<and> log_clean u \<and>
      (\<forall>n. n \<notin> log_area s \<longrightarrow> disk u n = (if k \<le> nat (lh_n s) then disk s n else dview s n))) \<and>
    (\<exists>t. commit s = Inr t \<and> lh_n t = 0 \<and> dtrace t = dtrace s @ commit_writes s \<and>
      (\<forall>n. n \<notin> log_area s \<longrightarrow> disk t n = dview s n \<and> dview t n = dview s n) \<and>
      (\<forall>n. refs t n = (if n \<in> set (log_homes s) then refs s n - 1 else refs s n)))"
proof (rule conjI)
  let ?N = "nat (lh_n s)" and ?h = "with_head (disk r (log_start r)) r"
  have b: "ready q r" "refs r = (\<lambda>_. 0)" "locked_blocks r = {}" "log_start r = log_start s"
    using boot by (auto simp: rebooted_def)
  have st: "log_start s \<in> log_area s" using log_okD(4) [OF ok, of 0] pos by simp
  note okh = crash_head(1) [OF ok pos clean boot] and eq = crash_head(2) [OF ok pos clean boot]
  obtain u where u: "recover_from_log r = Inr u" "lh_n u = 0"
    "\<And>n. n \<noteq> log_start r \<Longrightarrow> disk u n = apply_writes (install_writes ?h) (disk r) n"
    "get32 (disk u (log_start r)) 0 = 0" "dview u = disk u" "log_start u = log_start r"
    by (rule recover_ok [OF b(1-3) okh], rule that)
  have dk: "disk u n = (if k \<le> ?N then disk s n else dview s n)" if "n \<notin> log_area s" for n
  proof -
    have "n \<noteq> log_start r" using that st b(4) by auto
    from u(3) [OF this] eq [OF that] show ?thesis by simp
  qed
  have "log_clean u" using u(2,4-6) by (simp add: log_clean_def)
  then show "\<exists>u. recover_from_log r = Inr u \<and> lh_n u = 0 \<and> log_clean u \<and>
    (\<forall>n. n \<notin> log_area s \<longrightarrow> disk u n = (if k \<le> ?N then disk s n else dview s n))"
    using u(1,2) dk by (intro exI [of _ u]) simp
next
  obtain t where t: "commit s = Inr t" "dtrace t = dtrace s @ commit_writes s"
    "cache_is t (apply_writes (commit_writes s) (dview s)) (apply_writes (commit_writes s) (disk s))
      (\<lambda>n. if n \<in> set (log_homes s) then refs s n - 1 else refs s n) (locked_blocks s)"
    "same_kernel (s\<lparr>lh_n := 0\<rparr>) t" by (rule commit_ok [OF ok free pin pos], rule that)
  have "take (2 * nat (lh_n s) + 2) (commit_writes s) = commit_writes s"
    using length_commit_writes [of s] by (simp add: commit_writes_def)
  then have dk: "disk t n = dview s n" if "n \<notin> log_area s" for n
    using crash_disk(7) [OF ok clean pos, of "2 * nat (lh_n s) + 2" n] that t(3) by (simp add: cache_is_def)
  have "dview t n = dview s n" if "n \<notin> log_area s" for n
  proof -
    have out: "n \<notin> fst ` set (log_writes s)" "n \<noteq> log_start s"
      using that log_writes_area(1) [OF ok] log_okD(4) [OF ok, of 0] pos by auto
    then show ?thesis using t(3)
      by (simp add: cache_is_def commit_writes_def home_writes_def apply_writes_fun apply_writes_other)
  qed
  then show "\<exists>t. commit s = Inr t \<and> lh_n t = 0 \<and> dtrace t = dtrace s @ commit_writes s \<and>
      (\<forall>n. n \<notin> log_area s \<longrightarrow> disk t n = dview s n \<and> dview t n = dview s n) \<and>
      (\<forall>n. refs t n = (if n \<in> set (log_homes s) then refs s n - 1 else refs s n))"
    using t dk same_kernel_log [OF t(4)] by (intro exI [of _ t]) (simp add: cache_is_def)
qed

subsection \<open>Adding a block to the transaction\<close>

lemma log_find_None:
  assumes "n \<notin> set (log_homes s)"
  shows "log_find n s = nat (lh_n s)"
proof -
  have "find (\<lambda>i. lh_block s i = n) [0..<nat (lh_n s)] = None"
    using assms by (auto simp: find_None_iff log_homes_def)
  then show ?thesis by (simp add: log_find_def)
qed

lemma log_find_Some:
  assumes "n \<in> set (log_homes s)"
  shows "log_find n s < nat (lh_n s)" and "lh_block s (log_find n s) = n"
proof -
  obtain i where i: "find (\<lambda>i. lh_block s i = n) [0..<nat (lh_n s)] = Some i"
    using assms by (cases "find (\<lambda>i. lh_block s i = n) [0..<nat (lh_n s)]") (auto simp: find_None_iff log_homes_def)
  then have "i \<in> set [0..<nat (lh_n s)]" "lh_block s i = n" by (auto simp: find_Some_iff)
  then show "log_find n s < nat (lh_n s)" "lh_block s (log_find n s) = n" using i by (simp_all add: log_find_def)
qed

lemma log_write_ok:
  fixes s :: "'z klog_scheme"
  assumes r: "ready p s" and h: "holding_buf p n b s" and "0 \<le> lh_n s" and "lh_n s < int LOGSIZE"
    and "lh_n s < log_size s - 1" and "log_outstanding s \<ge> 1" and "refs s n \<noteq> - 1"
  defines "t \<equiv> if n \<in> set (log_homes s) then s
    else (upd_buf b (\<lambda>q. q\<lparr>b_refcnt := refs s n + 1\<rparr>) s)\<lparr>lh_n := lh_n s + 1, lh_block := (lh_block s)(nat (lh_n s) := n)\<rparr>"
  shows "log_write b s = Inr t" and "ready p t" and "holding_buf p n b t"
    and "log_homes t = (if n \<in> set (log_homes s) then log_homes s else log_homes s @ [n])"
    and "cache_is t (dview s) (disk s) (if n \<in> set (log_homes s) then refs s else (refs s)(n := refs s n + 1))
      (locked_blocks s)"
proof -
  note f = holding_bufD [OF r h]
  have nz: "refs s n + 1 \<noteq> 0" using assms(7) by (metis add.commute eq_neg_iff_add_eq_0)
  note pn = pin_ok [OF r h nz]
  show "log_write b s = Inr t"
  proof (cases "n \<in> set (log_homes s)")
    case True
    then have "(lh_block s)(log_find n s := n) = lh_block s" using log_find_Some [OF True] by (simp add: fun_upd_idem)
    moreover have "log_find n (s\<lparr>held := {LogLock}\<rparr>) = log_find n s"
      by (simp add: log_find_def cong: option.case_cong)
    moreover have "int (log_find n s) \<noteq> lh_n s" using log_find_Some(1) [OF True] by linarith
    ultimately show ?thesis
      using True assms(3-6) f(4,7)
      by (simp add: log_write_def acquire_lk_free release_lk_held Let_def t_def)
  next
    case False
    moreover have "log_find n (s\<lparr>held := {LogLock}\<rparr>) = log_find n s"
      by (simp add: log_find_def cong: option.case_cong)
    ultimately have "log_write b s = Inr ((upd_buf b (\<lambda>q. q\<lparr>b_refcnt := b_refcnt (bufs s b) + 1\<rparr>)
      (s\<lparr>lh_block := (lh_block s)(nat (lh_n s) := n)\<rparr>))\<lparr>lh_n := lh_n s + 1\<rparr>)"
      using assms(3-6) f(4,7) log_find_None [OF False]
      by (simp add: log_write_def acquire_lk_free release_lk_held Let_def bpin_eq upd_buf_def)
    also have "\<dots> = Inr t" using False f(9) by (simp add: t_def upd_buf_def)
    finally show ?thesis .
  qed
  show "ready p t" "holding_buf p n b t" using r h pn(1) pn(5) [OF h] by (simp_all add: t_def)
  have "[0..<nat (lh_n s + 1)] = [0..<nat (lh_n s)] @ [nat (lh_n s)]"
    using assms(3) by (simp add: nat_add_distrib)
  then show "log_homes t = (if n \<in> set (log_homes s) then log_homes s else log_homes s @ [n])"
    by (simp add: t_def log_homes_def)
  show "cache_is t (dview s) (disk s) (if n \<in> set (log_homes s) then refs s else (refs s)(n := refs s n + 1))
      (locked_blocks s)" using pn(2) by (simp add: t_def cache_is_def)
qed

text \<open>
  \<^verbatim>\<open>log_write\<close> on a buffer this process holds. It panics when the transaction is full or there is no
  transaction; otherwise it returns, the block is in the transaction exactly once (a block that
  is there already is absorbed), it is pinned in the cache when it was new, and no content
  changes. So the transaction never has two entries for a block and never exceeds the log.
\<close>

theorem log_write_absorbs:
  fixes s :: "'z klog_scheme"
  assumes "ready p s" and "holding_buf p n b s" and "refs s n \<noteq> - 1" and "0 \<le> lh_n s"
    and "distinct (log_homes s)"
  shows "if lh_n s \<ge> int LOGSIZE \<or> lh_n s \<ge> log_size s - 1
    then log_write b s = Inl (Panic ''too big a transaction'')
    else if log_outstanding s < 1 then log_write b s = Inl (Panic ''log_write outside of trans'')
    else \<exists>t. log_write b s = Inr t \<and> distinct (log_homes t) \<and> length (log_homes t) \<le> LOGSIZE \<and>
      int (length (log_homes t)) < log_size s \<and>
      set (log_homes t) = insert n (set (log_homes s)) \<and> dview t = dview s \<and> disk t = disk s \<and>
      refs t = (if n \<in> set (log_homes s) then refs s else (refs s)(n := refs s n + 1))"
proof -
  note f = holding_bufD [OF assms(1,2)]
  show ?thesis
  proof (cases "lh_n s \<ge> int LOGSIZE \<or> lh_n s \<ge> log_size s - 1 \<or> log_outstanding s < 1")
    case True
    then show ?thesis using f(7) by (auto simp: log_write_def acquire_lk_free)
  next
    case False
    then have "lh_n s < int LOGSIZE" "lh_n s < log_size s - 1" "log_outstanding s \<ge> 1" by auto
    note w = log_write_ok [OF assms(1,2,4) this assms(3)]
    have "length (log_homes s) = nat (lh_n s)" by (simp add: log_homes_def)
    then show ?thesis
      using False w(1,4,5) assms(4,5) by (auto simp: cache_is_def insert_absorb split: if_splits)
  qed
qed

subsection \<open>Witnesses\<close>

lemma binit_log:
  fixes s :: "'z klog_scheme"
  shows "log_start (binit s) = log_start s" "log_size (binit s) = log_size s" "log_dev (binit s) = log_dev s"
    "log_outstanding (binit s) = log_outstanding s" "lh_n (binit s) = lh_n s" "lh_block (binit s) = lh_block s"
proof -
  let ?t = "\<lambda>xs s. fold (\<lambda>b s. initsleeplock (BufLock b) (s\<lparr>lru := b # lru s\<rparr>)) xs s"
  have "log_start (?t xs s) = log_start s \<and> log_size (?t xs s) = log_size s \<and> log_dev (?t xs s) = log_dev s \<and>
    log_outstanding (?t xs s) = log_outstanding s \<and> lh_n (?t xs s) = lh_n s \<and> lh_block (?t xs s) = lh_block s"
    for xs and s :: "'z klog_scheme" by (induction xs arbitrary: s) (simp_all add: initsleeplock_def)
  then show "log_start (binit s) = log_start s" "log_size (binit s) = log_size s" "log_dev (binit s) = log_dev s"
    "log_outstanding (binit s) = log_outstanding s" "lh_n (binit s) = lh_n s" "lh_block (binit s) = lh_block s"
    unfolding binit_def by simp_all
qed

text \<open>A machine that has booted with disk \<open>D\<close>, whose log is in blocks 2 to 31, inside a transaction.\<close>

definition klog_boot :: "(u32 \<Rightarrow> block) \<Rightarrow> klog" where
  "klog_boot D = binit (kbio.extend (ksleep.extend (ksleep_ex False)
     \<lparr>bufs = (\<lambda>_. \<lparr>b_valid = False, b_dev = 0, b_blockno = 0, b_refcnt = 0, b_data = (\<lambda>_. 0)\<rparr>),
      lru = [], disk = D, dtrace = []\<rparr>)
     \<lparr>log_start = 2, log_size = 30, log_outstanding = 1, log_committing = False, log_dev = ROOTDEV,
      lh_n = 0, lh_block = (\<lambda>_. 0)\<rparr>)"

lemma klog_boot:
  "ready 0 (klog_boot D)" "refs (klog_boot D) = (\<lambda>_. 0)" "locked_blocks (klog_boot D) = {}"
  "dview (klog_boot D) = D" "disk (klog_boot D) = D" "busy (klog_boot D) = {}"
  "log_start (klog_boot D) = 2" "log_size (klog_boot D) = 30" "log_outstanding (klog_boot D) = 1"
  "log_dev (klog_boot D) = ROOTDEV" "lh_n (klog_boot D) = 0"
proof -
  let ?s = "kbio.extend (ksleep.extend (ksleep_ex False)
     \<lparr>bufs = (\<lambda>_. \<lparr>b_valid = False, b_dev = 0, b_blockno = 0, b_refcnt = 0, b_data = (\<lambda>_. 0)\<rparr>),
      lru = [], disk = D, dtrace = []\<rparr>)
     \<lparr>log_start = 2, log_size = 30, log_outstanding = 1, log_committing = False, log_dev = ROOTDEV,
      lh_n = 0, lh_block = (\<lambda>_. 0)\<rparr>"
  have z: "\<forall>i < NBUF. b_dev (bufs ?s i) = 0 \<and> b_refcnt (bufs ?s i) = 0"
    by (simp add: kbio.extend_def ksleep.extend_def)
  note e = kbio.extend_def ksleep.extend_def ksleep_ex_def kcons.extend_def kcons_ex_def
  show "ready 0 (klog_boot D)" using binit_ok(1,7,8) [OF z]
    by (simp add: klog_boot_def ready_def calm_def) (simp add: e)
  show "refs (klog_boot D) = (\<lambda>_. 0)" "locked_blocks (klog_boot D) = {}" "busy (klog_boot D) = {}"
    using binit_ok(3,4) [OF z] by (simp_all add: klog_boot_def fun_eq_iff busy_def)
  show "dview (klog_boot D) = D" "disk (klog_boot D) = D"
    using binit_ok(2,5) [OF z] by (simp_all add: klog_boot_def) (simp_all add: e)
qed (simp_all add: klog_boot_def binit_log kbio.extend_def ksleep.extend_def)

definition log_disk :: "u32 \<Rightarrow> block" where
  "log_disk = (\<lambda>n _. if n = 40 then 40 else 0)"

lemma log_boot_area: "40 \<notin> (\<lambda>i. 2 + of_nat i :: u32) ` {0..<30}" "41 \<notin> (\<lambda>i. 2 + of_nat i :: u32) ` {0..<30}"
proof -
  have "2 + of_nat i \<noteq> w" if "i < 30" "32 \<le> unat w" for i and w :: u32
  proof -
    have "unat (2 + of_nat i :: u32) = 2 + i"
      using that(1) by (subst unat_plus_le) (simp_all add: unat_of_nat_32)
    then show ?thesis using that by auto
  qed
  from this [of _ 40] this [of _ 41] show "40 \<notin> (\<lambda>i. 2 + of_nat i :: u32) ` {0..<30}"
    "41 \<notin> (\<lambda>i. 2 + of_nat i :: u32) ` {0..<30}" by force+
qed

text \<open>Block 40 has been changed from 40 to 9 inside a transaction.\<close>

lemma log_example_held:
  obtains b s where "ready 0 s" and "holding_buf 0 40 b s" and "same_kernel (klog_boot log_disk) s"
    and "cache_is s (log_disk(40 := \<lambda>_. 9)) log_disk ((\<lambda>_. 0)(40 := 1)) {40}"
proof -
  let ?s = "klog_boot log_disk"
  have pre: "40 \<notin> locked_blocks ?s" "refs ?s 40 \<noteq> - 1" "refs ?s 40 \<noteq> 0 \<or> card (busy ?s) < NBUF"
    by (simp_all add: klog_boot NBUF_def MAXOPBLOCKS_def)
  obtain b t where t: "bread ROOTDEV 40 ?s = Inr (b, t)" "ready 0 t" "holding_buf 0 40 b t"
    "cache_is t (dview ?s) (disk ?s) ((refs ?s)(40 := refs ?s 40 + 1)) (insert 40 (locked_blocks ?s))"
    "same_kernel ?s t" by (rule bread_ok [OF klog_boot(1) pre], rule that)
  note d = set_data_ok [OF t(2,3), where d = "\<lambda>_. 9"]
  show ?thesis
    by (rule that [OF d(1) d(5) [OF t(3)] same_kernel_trans [OF t(5) d(2)]])
      (use d(4) t(4) in \<open>simp add: cache_is_def klog_boot\<close>)
qed

lemma log_example:
  obtains s :: klog where "log_ok s" and "log_free 0 s" and "\<forall>h \<in> set (log_homes s). refs s h \<noteq> 0" and "lh_n s = 1"
    and "log_clean s" and "dview s = log_disk(40 := \<lambda>_. 9)" and "disk s = log_disk"
    and "log_start s = 2" and "log_size s = 30" and "log_dev s = ROOTDEV"
    and "log_area s = (\<lambda>i. 2 + of_nat i) ` {0..<30}"
proof -
  obtain b s where s: "ready 0 s" "holding_buf 0 40 b s" "same_kernel (klog_boot log_disk) s"
    "cache_is s (log_disk(40 := \<lambda>_. 9)) log_disk ((\<lambda>_. 0)(40 := 1)) {40}" by (rule log_example_held)
  note k = same_kernel_log(1-6) [OF s(3), unfolded klog_boot]
  have "log_homes s = []" "refs s 40 = 1" using k s(4) by (simp_all add: log_homes_def cache_is_def)
  note w = log_write_ok [OF s(1,2), unfolded k this]
  define t where "t = (upd_buf b (\<lambda>q. q\<lparr>b_refcnt := 1 + 1\<rparr>) s)\<lparr>lh_n := 0 + 1, lh_block := (lh_block s)(nat 0 := 40)\<rparr>"
  have t: "ready 0 t" "holding_buf 0 40 b t" "log_homes t = [40]"
    "cache_is t (log_disk(40 := \<lambda>_. 9)) log_disk ((\<lambda>_. 0)(40 := 2)) {40}"
    using w(2-5) s(4) by (simp_all add: t_def LOGSIZE_def MAXOPBLOCKS_def cache_is_def)
  have kt: "log_start t = 2" "log_size t = 30" "log_dev t = ROOTDEV" "lh_n t = 1"
    using k by (simp_all add: t_def upd_buf_def)
  obtain u where u: "brelse b t = Inr u" "ready 0 u"
    "cache_is u (dview t) (disk t) ((refs t)(40 := refs t 40 - 1)) (locked_blocks t - {40})" "same_kernel t u"
    by (rule brelse_ok [OF t(1,2)], use t(4) in \<open>simp add: cache_is_def\<close>, rule that)
  have cu: "cache_is u (log_disk(40 := \<lambda>_. 9)) log_disk ((\<lambda>_. 0)(40 := 1)) {}"
    using u(3) t(4) by (simp add: cache_is_def)
  note ku = same_kernel_log [OF u(4), unfolded kt] and hu = same_kernel_shape(1) [OF u(4), unfolded t(3)]
  have area: "log_area u = (\<lambda>i. 2 + of_nat i) ` {0..<30}" by (simp add: log_area_def ku)
  have bu: "busy u = {40}" using cu by (auto simp: busy_def cache_is_def)
  show ?thesis
  proof (rule that [of u])
    show "log_ok u" using ku hu area log_boot_area by (simp add: log_ok_def LOGSIZE_def MAXOPBLOCKS_def)
    show "log_free 0 u" using u(2) cu bu by (simp add: log_free_def cache_is_def NBUF_def MAXOPBLOCKS_def)
    show "log_clean u" using cu hu ku
      by (auto simp: log_clean_def cache_is_def log_disk_def get32_def get_bytes_def upt_conv_Cons)
  qed (use cu hu ku area in \<open>simp_all add: cache_is_def\<close>)
qed

theorem log_crash_atomic_witness:
  "\<exists>s t :: klog. commit s = Inr t \<and> disk s 40 = (\<lambda>_. 40) \<and> disk t 40 = (\<lambda>_. 9) \<and>
    (\<forall>k. \<exists>u. recover_from_log (klog_boot (apply_writes (take k (commit_writes s)) (disk s))) = Inr u \<and>
      disk u 40 = (if k \<le> 1 then (\<lambda>_. 40) else (\<lambda>_. 9)))"
proof -
  obtain s :: klog where s: "log_ok s" "log_free 0 s" "\<forall>h \<in> set (log_homes s). refs s h \<noteq> 0" "lh_n s = 1"
    "log_clean s" "dview s = log_disk(40 := \<lambda>_. 9)" "disk s = log_disk"
    "log_start s = 2" "log_size s = 30" "log_dev s = ROOTDEV" "log_area s = (\<lambda>i. 2 + of_nat i) ` {0..<30}"
    by (rule log_example)
  have b: "rebooted 0 s (apply_writes (take k (commit_writes s)) (disk s))
    (klog_boot (apply_writes (take k (commit_writes s)) (disk s)))" for k
    by (simp add: rebooted_def klog_boot s)
  have out: "40 \<notin> log_area s" using log_boot_area s(11) by simp
  note th = log_crash_atomic [OF s(1-3) _ s(5) b, unfolded s(4)]
  have "\<exists>u. recover_from_log (klog_boot (apply_writes (take k (commit_writes s)) (disk s))) = Inr u \<and>
      disk u 40 = (if k \<le> 1 then (\<lambda>_. 40) else (\<lambda>_. 9))" for k
    using conjunct1 [OF th, of k] out by (auto simp: s log_disk_def split: if_splits)
  moreover have "\<exists>t. commit s = Inr t \<and> disk t 40 = (\<lambda>_. 9)"
    using conjunct2 [OF th] out by (auto simp: s)
  moreover have "disk s 40 = (\<lambda>_. 40)" by (simp add: s(7) log_disk_def)
  ultimately show ?thesis by blast
qed

theorem log_write_absorbs_witness:
  "\<exists>b s t. log_write b s = Inr t \<and> log_homes (s :: klog) = [] \<and> set (log_homes t) = {40}"
proof -
  obtain b s where s: "ready 0 s" "holding_buf 0 40 b s" "same_kernel (klog_boot log_disk) s"
    "cache_is s (log_disk(40 := \<lambda>_. 9)) log_disk ((\<lambda>_. 0)(40 := 1)) {40}" by (rule log_example_held)
  note k = same_kernel_log(1-6) [OF s(3), unfolded klog_boot]
  have h: "log_homes s = []" "refs s 40 \<noteq> - 1" using k s(4) by (simp_all add: log_homes_def cache_is_def)
  from log_write_absorbs [OF s(1,2) h(2)] k h show ?thesis
    by (auto simp: LOGSIZE_def MAXOPBLOCKS_def)
qed

end
