(* ===== verification/Fs_Alloc.thy ===== *)
theory Fs_Alloc
  imports Log_Crash
begin

section \<open>Superblock and block allocator\<close>

text \<open>
  The first part of \<^verbatim>\<open>kernel/fs.c\<close> with the on-disk structures of \<^verbatim>\<open>kernel/fs.h\<close> and the in-memory
  inode of \<^verbatim>\<open>kernel/file.h\<close>. The free map has one bit per block, \<^verbatim>\<open>BPB\<close> bits in each bitmap block.
  Block numbers in \<^verbatim>\<open>balloc\<close> are \<^verbatim>\<open>int\<close>s that count up to \<^verbatim>\<open>sb.size\<close>.
\<close>

definition ROOTINO :: u32 where "ROOTINO = 1"
definition FSMAGIC :: u32 where "FSMAGIC = 0x10203040"
definition NDIRECT :: nat where "NDIRECT = 12"
definition NINDIRECT :: nat where "NINDIRECT = BSIZE div 4"
definition MAXFILE :: nat where "MAXFILE = NDIRECT + NINDIRECT"
definition IPB :: nat where "IPB = BSIZE div 64"
definition BPB :: nat where "BPB = BSIZE * 8"
definition DIRSIZ :: nat where "DIRSIZ = 14"

record superblock =
  sb_magic :: u32
  sb_size :: u32
  sb_nblocks :: u32
  sb_ninodes :: u32
  sb_nlog :: u32
  sb_logstart :: u32
  sb_inodestart :: u32
  sb_bmapstart :: u32

record inode =
  i_dev :: u32
  i_inum :: u32
  i_ref :: int
  i_valid :: bool
  i_type :: u16
  i_major :: u16
  i_minor :: u16
  i_nlink :: u16
  i_size :: u32
  i_addrs :: "u32 list"

record kfs = klog +
  sb :: superblock
  itable :: "nat \<Rightarrow> inode"

definition IBLOCK :: "u32 \<Rightarrow> superblock \<Rightarrow> u32" where
  "IBLOCK i b = i div of_nat IPB + sb_inodestart b"

definition BBLOCK :: "nat \<Rightarrow> superblock \<Rightarrow> u32" where
  "BBLOCK n b = of_nat (n div BPB) + sb_bmapstart b"

subsection \<open>Superblock\<close>

definition readsb :: "u32 \<Rightarrow> 'z kfs_scheme \<Rightarrow> ('z kfs_scheme, 'z kfs_scheme) res" where
  "readsb dev s =
     andthen (bread dev 1 s) (\<lambda>(bp, s).
     let d = b_data (bufs s bp) in
     brelse bp (s\<lparr>sb := \<lparr>sb_magic = get32 d 0, sb_size = get32 d 4, sb_nblocks = get32 d 8,
       sb_ninodes = get32 d 12, sb_nlog = get32 d 16, sb_logstart = get32 d 20,
       sb_inodestart = get32 d 24, sb_bmapstart = get32 d 28\<rparr>\<rparr>))"

definition fsinit :: "u32 \<Rightarrow> 'z kfs_scheme \<Rightarrow> ('z kfs_scheme, 'z kfs_scheme) res" where
  "fsinit dev s =
     andthen (readsb dev s) (\<lambda>s.
     if sb_magic (sb s) \<noteq> FSMAGIC then Inl (Panic ''invalid file system'')
     else initlog dev (sb_logstart (sb s)) (sb_nlog (sb s)) s)"

subsection \<open>Blocks\<close>

definition set_data :: "nat \<Rightarrow> (block \<Rightarrow> block) \<Rightarrow> 'z kfs_scheme \<Rightarrow> 'z kfs_scheme" where
  "set_data bp f s = upd_buf bp (\<lambda>q. q\<lparr>b_data := f (b_data q)\<rparr>) s"

text \<open>\<^verbatim>\<open>memset(bp->data, 0, BSIZE)\<close>\<close>

definition zero_block :: "block \<Rightarrow> block" where
  "zero_block d = (\<lambda>i. if i < BSIZE then 0 else d i)"

definition bzero :: "u32 \<Rightarrow> u32 \<Rightarrow> 'z kfs_scheme \<Rightarrow> ('z kfs_scheme, 'z kfs_scheme) res" where
  "bzero dev bno s =
     andthen (bread dev bno s) (\<lambda>(bp, s).
     andthen (log_write bp (set_data bp zero_block s)) (brelse bp))"

definition bmask :: "nat \<Rightarrow> u8" where
  "bmask bi = push_bit (bi mod 8) 1"

definition in_use :: "block \<Rightarrow> nat \<Rightarrow> bool" where
  "in_use d bi \<longleftrightarrow> d (bi div 8) AND bmask bi \<noteq> 0"

definition mark_used :: "nat \<Rightarrow> block \<Rightarrow> block" where
  "mark_used bi d = d(bi div 8 := d (bi div 8) OR bmask bi)"

definition mark_free :: "nat \<Rightarrow> block \<Rightarrow> block" where
  "mark_free bi d = d(bi div 8 := d (bi div 8) AND NOT (bmask bi))"

text \<open>The loop of \<^verbatim>\<open>balloc\<close> over the bitmap blocks; the inner loop is a search for a clear bit.\<close>

fun balloc_loop :: "u32 \<Rightarrow> nat list \<Rightarrow> 'z kfs_scheme \<Rightarrow> ('z kfs_scheme, u32 \<times> 'z kfs_scheme) res" where
  "balloc_loop dev [] s = Inl (Panic ''balloc: out of blocks'')"
| "balloc_loop dev (b # bs) s =
     andthen (bread dev (BBLOCK b (sb s)) s) (\<lambda>(bp, s).
     case find (\<lambda>bi. \<not> in_use (b_data (bufs s bp)) bi) [0..<min BPB (unat (sb_size (sb s)) - b)] of
       Some bi \<Rightarrow>
         andthen (log_write bp (set_data bp (mark_used bi) s)) (\<lambda>s.
         andthen (brelse bp s) (\<lambda>s.
         andthen (bzero dev (of_nat (b + bi)) s) (\<lambda>s.
         Inr (of_nat (b + bi), s))))
     | None \<Rightarrow> andthen (brelse bp s) (balloc_loop dev bs))"

definition balloc :: "u32 \<Rightarrow> 'z kfs_scheme \<Rightarrow> ('z kfs_scheme, u32 \<times> 'z kfs_scheme) res" where
  "balloc dev s =
     balloc_loop dev (map (\<lambda>g. g * BPB) [0..<(unat (sb_size (sb s)) + BPB - 1) div BPB]) s"

definition bfree :: "u32 \<Rightarrow> u32 \<Rightarrow> 'z kfs_scheme \<Rightarrow> ('z kfs_scheme, 'z kfs_scheme) res" where
  "bfree dev b s =
     andthen (bread dev (BBLOCK (unat b) (sb s)) s) (\<lambda>(bp, s).
     let bi = unat b mod BPB in
     if \<not> in_use (b_data (bufs s bp)) bi then Inl (Panic ''freeing free block'')
     else andthen (log_write bp (set_data bp (mark_free bi) s)) (brelse bp))"

subsection \<open>A transaction of one process\<close>

text \<open>
  What a file system operation changes besides its own fields: the cache, the disk, the list of
  logged blocks, and processes that it wakes.
\<close>

definition with_cache where
  "with_cache ps sl bf lr d tr n bk s = (s\<lparr>procs := ps, sleeplocks := sl, bufs := bf, lru := lr,
     disk := d, dtrace := tr, lh_n := n, lh_block := bk\<rparr> :: 'z klog_scheme)"

definition same_op :: "'z klog_scheme \<Rightarrow> 'z klog_scheme \<Rightarrow> bool" where
  "same_op s t \<longleftrightarrow>
     (\<forall>ps sl bf lr d tr n bk. with_cache ps sl bf lr d tr n bk s = with_cache ps sl bf lr d tr n bk t) \<and>
     (\<forall>q. procs t q = procs s q \<or> procs t q = (procs s q)\<lparr>p_state := RUNNABLE\<rparr>) \<and>
     (\<forall>i. sleeplocks t (InodeLock i) = sleeplocks s (InodeLock i))"

lemma same_op_refl [simp]: "same_op s s"
  by (simp add: same_op_def)

lemma same_op_trans [trans]:
  assumes "same_op s t" and "same_op t u"
  shows "same_op s u"
  unfolding same_op_def
proof (intro conjI allI)
  fix q
  have "procs t q = procs s q \<or> procs t q = (procs s q)\<lparr>p_state := RUNNABLE\<rparr>"
    "procs u q = procs t q \<or> procs u q = (procs t q)\<lparr>p_state := RUNNABLE\<rparr>"
    using assms unfolding same_op_def by blast+
  then show "procs u q = procs s q \<or> procs u q = (procs s q)\<lparr>p_state := RUNNABLE\<rparr>" by auto
qed (use assms in \<open>simp_all add: same_op_def\<close>)

lemma same_op_locks:
  assumes "same_op s t"
  shows "sleeplocks t (InodeLock i) = sleeplocks s (InodeLock i)" and "p_pid (procs t q) = p_pid (procs s q)"
proof -
  have "procs t q = procs s q \<or> procs t q = (procs s q)\<lparr>p_state := RUNNABLE\<rparr>" using assms by (simp add: same_op_def)
  then show "p_pid (procs t q) = p_pid (procs s q)" by auto
qed (use assms in \<open>simp add: same_op_def\<close>)

lemma same_kernel_same_op:
  fixes s t :: "'z klog_scheme"
  assumes "same_kernel s t"
  shows "same_op s t"
proof -
  have eq: "t = s\<lparr>procs := procs t, sleeplocks := sleeplocks t, bufs := bufs t, lru := lru t,
     disk := disk t, dtrace := dtrace t\<rparr>" using assms by (simp add: same_kernel_def)
  have "with_cache ps sl bf lr d tr n bk s = with_cache ps sl bf lr d tr n bk t" for ps sl bf lr d tr n bk
    by (subst eq, rule klog.equality) (simp_all add: with_cache_def)
  then show ?thesis using assms by (simp add: same_op_def same_kernel_def)
qed

lemma same_op_fields:
  fixes s t :: "'z klog_scheme"
  assumes "same_op s t"
  shows "log_start t = log_start s" "log_size t = log_size s" "log_outstanding t = log_outstanding s"
    "log_committing t = log_committing s" "log_dev t = log_dev s" "mem t = mem s"
proof -
  from assms have eq: "with_cache (procs s) (sleeplocks s) (bufs s) (lru s) (disk s) (dtrace s) (lh_n s) (lh_block s) t =
    with_cache (procs s) (sleeplocks s) (bufs s) (lru s) (disk s) (dtrace s) (lh_n s) (lh_block s) s"
    by (simp add: same_op_def)
  from arg_cong [OF eq, of log_start] arg_cong [OF eq, of log_size] arg_cong [OF eq, of log_outstanding]
    arg_cong [OF eq, of log_committing] arg_cong [OF eq, of log_dev] arg_cong [OF eq, of mem]
  show "log_start t = log_start s" "log_size t = log_size s" "log_outstanding t = log_outstanding s"
    "log_committing t = log_committing s" "log_dev t = log_dev s" "mem t = mem s"
    by (simp_all add: with_cache_def)
qed

lemma same_op_fs:
  fixes s t :: "'z kfs_scheme"
  assumes "same_op s t"
  shows "sb t = sb s" "itable t = itable s"
proof -
  from assms have eq: "with_cache (procs s) (sleeplocks s) (bufs s) (lru s) (disk s) (dtrace s) (lh_n s) (lh_block s) t =
    with_cache (procs s) (sleeplocks s) (bufs s) (lru s) (disk s) (dtrace s) (lh_n s) (lh_block s) s"
    by (simp add: same_op_def)
  from arg_cong [OF eq, of sb] arg_cong [OF eq, of itable]
  show "sb t = sb s" "itable t = itable s" by (simp_all add: with_cache_def)
qed

text \<open>
  Only this process uses the cache: the blocks of the transaction are referenced once, no other
  block is, and no buffer is locked.
\<close>

definition quiet :: "nat \<Rightarrow> 'z klog_scheme \<Rightarrow> bool" where
  "quiet p s \<longleftrightarrow> ready p s \<and> locked_blocks s = {} \<and> 0 \<le> lh_n s \<and> lh_n s \<le> int LOGSIZE \<and>
     refs s = (\<lambda>n. if n \<in> set (log_homes s) then 1 else 0)"

lemma quiet_room:
  assumes "quiet p s" and "lh_n s < int NBUF"
  shows "card (busy s) < NBUF" and "refs s n \<noteq> - 1" and "n \<notin> locked_blocks s"
proof -
  have "busy s = set (log_homes s)" using assms by (auto simp: busy_def quiet_def)
  then have "card (busy s) \<le> nat (lh_n s)" using card_length [of "log_homes s"] by (simp add: log_homes_def)
  then show "card (busy s) < NBUF" using assms by (simp add: NBUF_def MAXOPBLOCKS_def)
  show "refs s n \<noteq> - 1" "n \<notin> locked_blocks s" using assms by (simp_all add: quiet_def)
qed

text \<open>A block has been read and is held; nothing else has happened.\<close>

definition reading :: "nat \<Rightarrow> u32 \<Rightarrow> nat \<Rightarrow> 'z klog_scheme \<Rightarrow> 'z klog_scheme \<Rightarrow> bool" where
  "reading p n b s t \<longleftrightarrow> ready p t \<and> holding_buf p n b t \<and>
     cache_is t (dview s) (disk s) ((refs s)(n := refs s n + 1)) {n} \<and> log_homes t = log_homes s \<and> lh_n t = lh_n s"

lemma bread_quiet:
  fixes s :: "'z klog_scheme"
  assumes q: "quiet p s" and n: "lh_n s < int NBUF"
  obtains b t where "bread ROOTDEV n s = Inr (b, t)" and "reading p n b s t" and "same_op s t"
    and "b_data (bufs t b) = dview s n" and "dtrace t = dtrace s"
proof -
  note r = quiet_room [OF q n]
  have rd: "ready p s" "locked_blocks s = {}" using q by (simp_all add: quiet_def)
  obtain b t where t: "bread ROOTDEV n s = Inr (b, t)" "ready p t" "holding_buf p n b t"
    "cache_is t (dview s) (disk s) ((refs s)(n := refs s n + 1)) (insert n (locked_blocks s))"
    "b_data (bufs t b) = dview s n" "dtrace t = dtrace s" "same_kernel s t"
    by (rule bread_ok [OF rd(1) r(3,2) disjI2 [OF r(1)]], rule that)
  note k = same_kernel_log [OF t(7)]
  have "reading p n b s t"
    using t(2-4) rd(2) k same_kernel_shape(1) [OF t(7)] by (simp add: reading_def)
  then show ?thesis using that t same_kernel_same_op [OF t(7)] by blast
qed

lemma brelse_quiet:
  fixes s t :: "'z klog_scheme"
  assumes q: "quiet p s" and r: "reading p n b s t"
  obtains u where "brelse b t = Inr u" and "quiet p u" and "same_op t u" and "dview u = dview s" and "disk u = disk s"
    and "log_homes u = log_homes s" and "lh_n u = lh_n s" and "dtrace u = dtrace t"
proof -
  have t: "ready p t" "holding_buf p n b t" "log_homes t = log_homes s" "lh_n t = lh_n s"
    "cache_is t (dview s) (disk s) ((refs s)(n := refs s n + 1)) {n}" using r by (simp_all add: reading_def)
  have c: "dview t n = disk t n" if "refs t n = 1"
    using that t(5) refs_0_clean [of s n] q by (simp add: cache_is_def quiet_def ready_def)
  obtain u where u: "brelse b t = Inr u" "ready p u"
    "cache_is u (dview t) (disk t) ((refs t)(n := refs t n - 1)) (locked_blocks t - {n})"
    "dtrace u = dtrace t" "same_kernel t u"
    by (rule brelse_ok [OF t(1,2) c], assumption, rule that)
  have h: "log_homes u = log_homes s" "lh_n u = lh_n s"
    using same_kernel_shape(1) [OF u(5)] same_kernel_log(6) [OF u(5)] t by simp_all
  have "refs u = refs s" "locked_blocks u = {}" using u(3) t(5) by (simp_all add: cache_is_def)
  then have "quiet p u" using q u(2) h by (simp add: quiet_def)
  then show ?thesis using that [OF u(1)] same_kernel_same_op [OF u(5)] u(3,4) t(5) h
    by (simp add: cache_is_def)
qed

text \<open>There is room in the log for another block.\<close>

definition log_room :: "'z klog_scheme \<Rightarrow> bool" where
  "log_room s \<longleftrightarrow> lh_n s < int LOGSIZE \<and> lh_n s < log_size s - 1 \<and> 1 \<le> log_outstanding s"

lemma upd_buf_same_op:
  fixes s :: "'z klog_scheme"
  shows "same_op s (upd_buf b f s)" and "same_op s (s\<lparr>lh_n := n\<rparr>)" and "same_op s (s\<lparr>lh_block := bk\<rparr>)"
proof -
  have "with_cache ps sl bf lr d tr n' bk' (upd_buf b f s) = with_cache ps sl bf lr d tr n' bk' s"
    "with_cache ps sl bf lr d tr n' bk' (s\<lparr>lh_n := n\<rparr>) = with_cache ps sl bf lr d tr n' bk' s"
    "with_cache ps sl bf lr d tr n' bk' (s\<lparr>lh_block := bk\<rparr>) = with_cache ps sl bf lr d tr n' bk' s"
    for ps sl bf lr d tr n' bk'
    by (rule klog.equality; simp add: with_cache_def upd_buf_def)+
  then show "same_op s (upd_buf b f s)" "same_op s (s\<lparr>lh_n := n\<rparr>)" "same_op s (s\<lparr>lh_block := bk\<rparr>)"
    by (simp_all add: same_op_def)
qed

text \<open>The pattern of every logged update: change the data, \<^verbatim>\<open>log_write\<close>, \<^verbatim>\<open>brelse\<close>.\<close>

text \<open>What \<^verbatim>\<open>log_write\<close> does to the list of blocks in the transaction: a block is recorded once.\<close>

definition log_add :: "u32 \<Rightarrow> u32 list \<Rightarrow> u32 list" where
  "log_add n hs = (if n \<in> set hs then hs else hs @ [n])"

lemma length_log_add: "length (log_add n hs) \<le> Suc (length hs)"
  by (simp add: log_add_def)

lemma length_log_adds: "length (fold log_add ns hs) \<le> length hs + length ns"
proof (induction ns arbitrary: hs)
  case (Cons n ns)
  then show ?case using length_log_add [of n hs] by (fastforce intro: order_trans)
qed simp

lemma log_modify:
  fixes s t :: "'z kfs_scheme"
  assumes q: "quiet p s" and room: "log_room s" and r: "reading p n b s t" and st: "same_op s t"
  defines "hs \<equiv> log_add n (log_homes s)"
  obtains u v where "log_write b (set_data b f t) = Inr u" and "brelse b u = Inr v" and "quiet p v"
    and "same_op t v" and "dview v = (dview s)(n := f (dview s n))" and "disk v = disk s"
    and "log_homes v = hs" and "lh_n v = int (length hs)" and "dtrace v = dtrace t"
proof -
  have t: "ready p t" "holding_buf p n b t" "log_homes t = log_homes s" "lh_n t = lh_n s"
    "cache_is t (dview s) (disk s) ((refs s)(n := refs s n + 1)) {n}" using r by (simp_all add: reading_def)
  have rs: "refs s = (\<lambda>n. if n \<in> set (log_homes s) then 1 else 0)" "0 \<le> lh_n s" using q by (simp_all add: quiet_def)
  let ?t = "set_data b f t"
  have eqt: "?t = upd_buf b (\<lambda>q. q\<lparr>b_data := f (dview s n)\<rparr>) t"
    unfolding set_data_def by (rule upd_buf_cong) (use holding_bufD(10) [OF t(1,2)] t(5) in \<open>simp add: cache_is_def\<close>)
  note d = set_data_ok [OF t(1,2), where d = "f (dview s n)", folded eqt]
  have ht: "log_homes ?t = log_homes s" "lh_n ?t = lh_n s"
    using same_kernel_shape(1) [OF d(2)] same_kernel_log(6) [OF d(2)] t by simp_all
  have so: "same_op s ?t" using st same_kernel_same_op [OF d(2)] by (rule same_op_trans)
  note lf = same_op_fields [OF so]
  have pre: "0 \<le> lh_n ?t" "lh_n ?t < int LOGSIZE" "lh_n ?t < log_size ?t - 1" "log_outstanding ?t \<ge> 1"
    "refs ?t n \<noteq> - 1" using room rs ht lf d(4) t(5) by (auto simp: log_room_def cache_is_def)
  note w = log_write_ok [OF d(1) d(5) [OF t(2)] pre, unfolded ht]
  let ?u = "if n \<in> set (log_homes s) then ?t
    else (upd_buf b (\<lambda>q. q\<lparr>b_refcnt := refs ?t n + 1\<rparr>) ?t)\<lparr>lh_n := lh_n s + 1, lh_block := (lh_block ?t)(nat (lh_n s) := n)\<rparr>"
  have c: "dview ?u n = disk ?u n" if "refs ?u n = 1"
    using that w(5) d(4) t(5) rs by (auto simp: cache_is_def split: if_splits)
  obtain v where v: "brelse b ?u = Inr v" "ready p v"
    "cache_is v (dview ?u) (disk ?u) ((refs ?u)(n := refs ?u n - 1)) (locked_blocks ?u - {n})"
    "dtrace v = dtrace ?u" "same_kernel ?u v"
    by (rule brelse_ok [OF w(2,3) c], assumption, rule that)
  have hv: "log_homes v = hs" using same_kernel_shape(1) [OF v(5)] w(4) by (simp add: hs_def log_add_def)
  have nv: "lh_n v = int (length hs)"
    using same_kernel_log(6) [OF v(5)] ht rs(2) t(4) by (auto simp: hs_def log_add_def log_homes_def)
  have "same_op ?t ?u"
    using same_op_trans [OF same_op_trans [OF upd_buf_same_op(1) upd_buf_same_op(2)] upd_buf_same_op(3)] by auto
  then have "same_op t v"
    using same_op_trans [OF same_kernel_same_op [OF d(2)]] same_op_trans same_kernel_same_op [OF v(5)] by blast
  moreover have "refs v = (\<lambda>m. if m \<in> set hs then 1 else 0)" "locked_blocks v = {}"
    using v(3) w(5) d(4) t(5) rs by (auto simp: cache_is_def hs_def log_add_def fun_eq_iff)
  moreover have "dview v = (dview s)(n := f (dview s n))" "disk v = disk s"
    using v(3) w(5) d(4) t(5) by (simp_all add: cache_is_def)
  moreover have "dtrace v = dtrace t" using v(4) d(3) by (simp split: if_splits)
  moreover have "length hs \<le> LOGSIZE"
  proof -
    have "length (log_homes s) < LOGSIZE" using room rs(2) by (simp add: log_room_def log_homes_def nat_less_iff)
    then show ?thesis by (simp add: hs_def log_add_def)
  qed
  ultimately have "quiet p v" using v(2) hv nv by (simp add: quiet_def)
  then show ?thesis
    using that [OF w(1) v(1)] hv nv \<open>same_op t v\<close> \<open>dview v = _\<close> \<open>disk v = _\<close> \<open>dtrace v = dtrace t\<close> by blast
qed

subsection \<open>The free map\<close>

lemma in_use_bit: "in_use d bi \<longleftrightarrow> bit (d (bi div 8)) (bi mod 8)"
  by (simp only: in_use_def bmask_def and_push_bit_1_neq_0)

lemma same_bit: "i div 8 = j div 8 \<Longrightarrow> i mod 8 = j mod 8 \<Longrightarrow> i = j" for i j :: nat
  by (metis div_mult_mod_eq)

lemma bit_bmask: "bit (bmask bi) n \<longleftrightarrow> n = bi mod 8"
proof -
  have "bi mod 8 < 8" by simp
  then show ?thesis by (auto simp: bmask_def bit_exp_iff)
qed

lemma in_use_mark_used [simp]: "in_use (mark_used i d) j \<longleftrightarrow> j = i \<or> in_use d j"
  using same_bit [of j i] by (cases "j div 8 = i div 8") (auto simp: in_use_bit mark_used_def bit_or_iff bit_bmask)

lemma in_use_mark_free [simp]: "in_use (mark_free i d) j \<longleftrightarrow> j \<noteq> i \<and> in_use d j"
  using same_bit [of j i] mod_less_divisor [of 8 j]
  by (cases "j div 8 = i div 8") (auto simp: in_use_bit mark_free_def bit_and_iff bit_not_iff bit_bmask)

text \<open>Is block \<open>b\<close> in use, according to the free map?\<close>

definition used :: "'z kfs_scheme \<Rightarrow> nat \<Rightarrow> bool" where
  "used s b \<longleftrightarrow> in_use (dview s (BBLOCK b (sb s))) (b mod BPB)"

lemma bzero_ok:
  fixes s :: "'z kfs_scheme" and n :: u32
  assumes q: "quiet p s" and room: "log_room s"
  obtains t where "bzero ROOTDEV n s = Inr t" and "quiet p t" and "same_op s t"
    and "dview t = (dview s)(n := zero_block (dview s n))" and "disk t = disk s" 
    and "log_homes t = (if n \<in> set (log_homes s) then log_homes s else log_homes s @ [n])"
proof -
  have nb: "lh_n s < int NBUF" using room by (simp add: log_room_def NBUF_def LOGSIZE_def)
  obtain b t where t: "bread ROOTDEV n s = Inr (b, t)" "reading p n b s t" "same_op s t"
    by (rule bread_quiet [OF q nb], rule that)
  obtain u v where u: "log_write b (set_data b zero_block t) = Inr u" "brelse b u = Inr v" "quiet p v"
    "same_op t v" "dview v = (dview s)(n := zero_block (dview s n))" "disk v = disk s" 
    "log_homes v = (if n \<in> set (log_homes s) then log_homes s else log_homes s @ [n])"
    by (rule log_modify [OF q room t(2,3), unfolded log_add_def], rule that)
  show ?thesis
    using that [of v] t(1) u same_op_trans [OF t(3) u(4)] by (simp add: bzero_def)
qed

text \<open>What a search through the bitmap blocks \<open>bs\<close> finds, and what \<^verbatim>\<open>balloc\<close> makes of the disk.\<close>

definition free_in :: "'z kfs_scheme \<Rightarrow> nat \<Rightarrow> nat option" where
  "free_in s b = map_option (\<lambda>bi. b + bi)
     (find (\<lambda>bi. \<not> in_use (dview s (BBLOCK b (sb s))) bi) [0..<min BPB (unat (sb_size (sb s)) - b)])"

definition alloc_view :: "'z kfs_scheme \<Rightarrow> nat \<Rightarrow> u32 \<Rightarrow> block" where
  "alloc_view s b =
     (let V = (dview s)(BBLOCK b (sb s) := mark_used (b mod BPB) (dview s (BBLOCK b (sb s))))
      in V(of_nat b := zero_block (V (of_nat b))))"

lemma group_div: "b mod BPB = 0 \<Longrightarrow> bi < BPB \<Longrightarrow> (b + bi) div BPB = b div BPB \<and> (b + bi) mod BPB = bi"
  by (auto simp: mod_eq_0_iff_dvd elim!: dvdE)

lemma balloc_loop_ok:
  fixes s :: "'z kfs_scheme"
  assumes "quiet p s" and "lh_n s + 1 < int LOGSIZE" and "lh_n s + 1 < log_size s - 1" and "1 \<le> log_outstanding s"
    and "\<forall>b \<in> set bs. b mod BPB = 0"
  shows "case List.map_filter (free_in s) bs of
      [] \<Rightarrow> balloc_loop ROOTDEV bs s = Inl (Panic ''balloc: out of blocks'')
    | b # _ \<Rightarrow> \<exists>t. balloc_loop ROOTDEV bs s = Inr (of_nat b, t) \<and> quiet p t \<and> same_op s t \<and>
        dview t = alloc_view s b \<and> disk t = disk s \<and> lh_n t \<le> lh_n s + 2"
  using assms
proof (induction bs arbitrary: s)
  case Nil
  then show ?case by (simp add: List.map_filter_def)
next
  case (Cons b bs)
  have nb: "lh_n s < int NBUF" and room: "log_room s"
    using Cons.prems(2-4) by (simp_all add: log_room_def NBUF_def LOGSIZE_def)
  let ?B = "BBLOCK b (sb s)"
  obtain c t where t: "bread ROOTDEV ?B s = Inr (c, t)" "reading p ?B c s t" "same_op s t"
    "b_data (bufs t c) = dview s ?B" by (rule bread_quiet [OF Cons.prems(1) nb], rule that)
  note fs = same_op_fs [OF t(3)]
  show ?case
  proof (cases "find (\<lambda>bi. \<not> in_use (dview s ?B) bi) [0..<min BPB (unat (sb_size (sb s)) - b)]")
    case None
    obtain u where u: "brelse c t = Inr u" "quiet p u" "same_op t u" "dview u = dview s" "disk u = disk s"
      "log_homes u = log_homes s" "lh_n u = lh_n s"
      by (rule brelse_quiet [OF Cons.prems(1) t(2)], rule that)
    note su = same_op_trans [OF t(3) u(3)]
    note fu = same_op_fs [OF su] and lu = same_op_fields [OF su]
    have fr: "free_in u = free_in s" "alloc_view u = alloc_view s"
      unfolding free_in_def [abs_def] alloc_view_def [abs_def] fu u(4) by (rule refl)+
    have eq: "balloc_loop ROOTDEV (b # bs) s = balloc_loop ROOTDEV bs u"
      unfolding balloc_loop.simps t(1) andthen_simps prod.case t(4) fs None option.case u(1) ..
    have mf: "List.map_filter (free_in s) (b # bs) = List.map_filter (free_in s) bs"
      by (simp add: List.map_filter_def free_in_def None)
    have pr: "lh_n u + 1 < int LOGSIZE" "lh_n u + 1 < log_size u - 1" "1 \<le> log_outstanding u" "\<forall>b \<in> set bs. b mod BPB = 0"
      using Cons.prems(2-5) lu(2,3) u(7) by simp_all
    note ih = Cons.IH [OF u(2) pr, unfolded fr u(5,7)]
    show ?thesis
    proof (cases "List.map_filter (free_in s) bs")
      case Nil
      then show ?thesis using ih unfolding eq mf by simp
    next
      case (Cons a as)
      then obtain w where "balloc_loop ROOTDEV bs u = Inr (of_nat a, w)" "quiet p w" "same_op u w"
        "dview w = alloc_view s a" "disk w = disk s" "lh_n w \<le> lh_n s + 2"
        using ih unfolding Cons list.case by blast
      then show ?thesis using same_op_trans [OF su] unfolding eq mf Cons list.case by blast
    qed
  next
    case (Some bi)
    then have bi: "bi < BPB" and fi: "free_in s b = Some (b + bi)" by (auto simp: find_Some_iff free_in_def)
    note g = group_div [OF _ bi, of b]
    have B: "BBLOCK (b + bi) (sb s) = ?B" "(b + bi) mod BPB = bi"
      using g Cons.prems(5) by (simp_all add: BBLOCK_def del: upt_Suc)
    obtain u v where u: "log_write c (set_data c (mark_used bi) t) = Inr u" "brelse c u = Inr v" "quiet p v"
      "same_op t v" "dview v = (dview s)(?B := mark_used bi (dview s ?B))" "disk v = disk s"
      "log_homes v = (if ?B \<in> set (log_homes s) then log_homes s else log_homes s @ [?B])"
      "lh_n v = int (length (if ?B \<in> set (log_homes s) then log_homes s else log_homes s @ [?B]))"
      by (rule log_modify [OF Cons.prems(1) room t(2,3), unfolded log_add_def], rule that)
    note sv = same_op_trans [OF t(3) u(4)]
    note lv = same_op_fields [OF sv]
    have len: "lh_n v \<le> lh_n s + 1" 
      using u(8) Cons.prems(1) by (simp add: log_homes_def quiet_def)
    then have roomv: "log_room v" using Cons.prems(2-4) lv by (simp add: log_room_def)
    obtain w where w: "bzero ROOTDEV (of_nat (b + bi)) v = Inr w" "quiet p w" "same_op v w"
      "dview w = (dview v)(of_nat (b + bi) := zero_block (dview v (of_nat (b + bi))))" "disk w = disk v"
      "log_homes w = (if of_nat (b + bi) \<in> set (log_homes v) then log_homes v else log_homes v @ [of_nat (b + bi)])"
      by (rule bzero_ok [OF u(3) roomv], rule that)
    have "lh_n w \<le> lh_n v + 1"
    proof -
      have "nat (lh_n w) = length (log_homes w)" "nat (lh_n v) = length (log_homes v)" by (simp_all add: log_homes_def)
      moreover have "0 \<le> lh_n w" "0 \<le> lh_n v" using w(2) u(3) by (simp_all add: quiet_def)
      moreover have "length (log_homes w) \<le> length (log_homes v) + 1" using w(6) by simp
      ultimately show ?thesis by linarith
    qed
    then have "lh_n w \<le> lh_n s + 2" using len by simp
    moreover have "balloc_loop ROOTDEV (b # bs) s = Inr (of_nat (b + bi), w)"
      unfolding balloc_loop.simps t(1) andthen_simps prod.case t(4) fs Some option.case u(1,2) w(1) ..
    moreover have "dview w = alloc_view s (b + bi)"
      unfolding alloc_view_def Let_def B w(4) u(5) ..
    moreover have mf: "List.map_filter (free_in s) (b # bs) = (b + bi) # List.map_filter (free_in s) bs"
      by (simp add: List.map_filter_def fi)
    moreover have "disk w = disk s" using w(5) u(6) by simp
    ultimately show ?thesis using w(2) same_op_trans [OF sv w(3)] unfolding mf list.case by blast
  qed
qed

lemma map_filter_first:
  "case List.map_filter f (map g [0..<n]) of
     [] \<Rightarrow> \<forall>j<n. f (g j) = None
   | c # _ \<Rightarrow> \<exists>i<n. f (g i) = Some c \<and> (\<forall>j<i. f (g j) = None)"
proof (induction n)
  case (Suc n)
  have eq: "List.map_filter f (map g [0..<Suc n]) =
    List.map_filter f (map g [0..<n]) @ (case f (g n) of None \<Rightarrow> [] | Some c \<Rightarrow> [c])"
    by (simp add: List.map_filter_def split: option.split)
  show ?case
  proof (cases "List.map_filter f (map g [0..<n])")
    case Nil
    then have "\<forall>j<n. f (g j) = None" using Suc by simp
    then show ?thesis unfolding eq Nil by (cases "f (g n)") (auto simp: less_Suc_eq)
  next
    case (Cons c cs)
    then show ?thesis using Suc unfolding eq Cons by (auto intro: less_SucI)
  qed
qed (simp add: List.map_filter_def)

lemma free_in_None:
  assumes "b mod BPB = 0" and "free_in s b = None" and "b \<le> d" "d < b + BPB" "d < unat (sb_size (sb s))"
  shows "used s d"
proof -
  obtain i where i: "d = b + i" "i < BPB" using assms(3,4) by (metis le_Suc_ex add_less_cancel_left)
  have "find (\<lambda>bi. \<not> in_use (dview s (BBLOCK b (sb s))) bi) [0..<min BPB (unat (sb_size (sb s)) - b)] = None"
    using assms(2) by (simp add: free_in_def)
  then have "in_use (dview s (BBLOCK b (sb s))) i" using i assms(5) by (auto simp: find_None_iff)
  then show ?thesis using group_div [OF assms(1) i(2)] i(1) by (simp add: used_def BBLOCK_def)
qed

lemma free_in_Some:
  assumes "b mod BPB = 0" and "free_in s b = Some c"
  shows "b \<le> c" and "c < b + BPB" and "c < unat (sb_size (sb s))" and "\<not> used s c"
    and "b \<le> d \<Longrightarrow> d < c \<Longrightarrow> used s d"
proof -
  let ?P = "\<lambda>bi. \<not> in_use (dview s (BBLOCK b (sb s))) bi" and ?n = "min BPB (unat (sb_size (sb s)) - b)"
  obtain i where f: "find ?P [0..<?n] = Some i" and c: "c = b + i" using assms(2) by (auto simp: free_in_def)
  from f have i: "i < ?n" "?P i" "\<forall>j<i. \<not> ?P j" by (auto simp: find_Some_iff)
  have g: "used s (b + j) = in_use (dview s (BBLOCK b (sb s))) j" if "j < BPB" for j
    using group_div [OF assms(1) that] by (simp add: used_def BBLOCK_def)
  show "b \<le> c" "c < b + BPB" "c < unat (sb_size (sb s))" 
    using i(1) c unfolding min_less_iff_conj by linarith+
  show "\<not> used s c" using g [of i] i c by simp
  assume "b \<le> d" "d < c"
  then obtain j where "d = b + j" "j < i" using c by (metis le_Suc_ex add_less_cancel_left)
  then show "used s d" using g [of j] i by simp
qed

definition first_free :: "'z kfs_scheme \<Rightarrow> nat option" where
  "first_free s = find (\<lambda>b. \<not> used s b) [0..<unat (sb_size (sb s))]"

lemma first_free_groups:
  "case List.map_filter (free_in s) (map (\<lambda>g. g * BPB) [0..<(unat (sb_size (sb s)) + BPB - 1) div BPB]) of
     [] \<Rightarrow> first_free s = None | b # _ \<Rightarrow> first_free s = Some b"
proof -
  let ?N = "unat (sb_size (sb s))"
  let ?G = "(?N + BPB - 1) div BPB"
  have pos: "0 < BPB" by (simp add: BPB_def BSIZE_def)
  have grp: "d div BPB * BPB \<le> d" "d < d div BPB * BPB + BPB" for d
    using div_mult_mod_eq [of d BPB] mod_less_divisor [OF pos, of d] by linarith+
  have inG: "d div BPB < ?G" if "d < ?N" for d
  proof -
    have "(d + BPB) div BPB \<le> ?G" by (rule div_le_mono) (use that in simp)
    then show ?thesis using pos div_add_self2 [of BPB d] by simp
  qed
  show ?thesis
  proof (cases "List.map_filter (free_in s) (map (\<lambda>g. g * BPB) [0..<?G])")
    case Nil
    then have "\<forall>j<?G. free_in s (j * BPB) = None"
      using map_filter_first [where f = "free_in s" and g = "\<lambda>g. g * BPB" and n = ?G] by simp
    then have "used s d" if "d < ?N" for d
      using free_in_None [of "d div BPB * BPB" s d] grp [of d] inG [OF that] that by simp
    then show ?thesis unfolding Nil by (auto simp: first_free_def find_None_iff)
  next
    case (Cons c cs)
    then obtain i where i: "i < ?G" "free_in s (i * BPB) = Some c" "\<forall>j<i. free_in s (j * BPB) = None"
      using map_filter_first [where f = "free_in s" and g = "\<lambda>g. g * BPB" and n = ?G] by auto
    note c = free_in_Some [OF _ i(2), simplified]
    have "used s d" if "d < c" for d
    proof (cases "d div BPB < i")
      case True
      then show ?thesis using free_in_None [of "d div BPB * BPB" s d] grp [of d] i(3) that c(3) by simp
    next
      case False
      then have "i * BPB \<le> d" using grp(1) [of d] by (meson le_trans mult_le_mono1 not_less)
      then show ?thesis using c(5) that by simp
    qed
    then show ?thesis unfolding Cons using c(3,4) by (auto simp: first_free_def find_Some_iff)
  qed
qed

lemma balloc_ok:
  assumes "quiet p s" and "lh_n s + 1 < int LOGSIZE" and "lh_n s + 1 < log_size s - 1" and "1 \<le> log_outstanding s"
  shows "case first_free s of
      None \<Rightarrow> balloc ROOTDEV s = Inl (Panic ''balloc: out of blocks'')
    | Some b \<Rightarrow> \<exists>t. balloc ROOTDEV s = Inr (of_nat b, t) \<and> quiet p t \<and> same_op s t \<and>
        dview t = alloc_view s b \<and> disk t = disk s \<and> lh_n t \<le> lh_n s + 2"
proof -
  let ?bs = "map (\<lambda>g. g * BPB) [0..<(unat (sb_size (sb s)) + BPB - 1) div BPB]"
  have "\<forall>b \<in> set ?bs. b mod BPB = 0" by simp
  note l = balloc_loop_ok [OF assms this, folded balloc_def]
  show ?thesis
  proof (cases "List.map_filter (free_in s) ?bs")
    case Nil
    then show ?thesis using l first_free_groups [of s] by simp
  next
    case (Cons b bs)
    then have "first_free s = Some b" using first_free_groups [of s] by simp
    then show ?thesis using l unfolding Cons by simp
  qed
qed

lemma bfree_ok:
  fixes s :: "'z kfs_scheme" and b :: u32
  assumes q: "quiet p s" and room: "log_room s"
  defines "B \<equiv> BBLOCK (unat b) (sb s)"
  shows "if used s (unat b)
    then \<exists>t. bfree ROOTDEV b s = Inr t \<and> quiet p t \<and> same_op s t \<and> disk t = disk s \<and>
      dview t = (dview s)(B := mark_free (unat b mod BPB) (dview s B))
    else bfree ROOTDEV b s = Inl (Panic ''freeing free block'')"
proof -
  have nb: "lh_n s < int NBUF" using room by (simp add: log_room_def NBUF_def LOGSIZE_def)
  obtain c t where t: "bread ROOTDEV B s = Inr (c, t)" "reading p B c s t" "same_op s t"
    "b_data (bufs t c) = dview s B" by (rule bread_quiet [OF q nb], rule that)
  let ?bi = "unat b mod BPB"
  obtain u v where u: "log_write c (set_data c (mark_free ?bi) t) = Inr u" "brelse c u = Inr v" "quiet p v"
    "same_op t v" "dview v = (dview s)(B := mark_free ?bi (dview s B))" "disk v = disk s"
    by (rule log_modify [OF q room t(2,3), unfolded log_add_def], rule that)
  have "bfree ROOTDEV b s = (if used s (unat b) then Inr v else Inl (Panic ''freeing free block''))"
    unfolding bfree_def B_def [symmetric] t(1) andthen_simps prod.case Let_def t(4) u(1) u(2) used_def by simp
  then show ?thesis using u(3,5,6) same_op_trans [OF t(3) u(4)] by simp
qed

lemma BBLOCK_inj:
  assumes "BBLOCK b S = BBLOCK c S" and "b mod BPB = c mod BPB" and "b < 2 ^ 32" and "c < 2 ^ 32"
  shows "b = c"
proof -
  have lt: "b div BPB < 2 ^ 32" "c div BPB < 2 ^ 32"
    using div_le_dividend [of b BPB] div_le_dividend [of c BPB] assms(3,4) by linarith+
  have "(of_nat (b div BPB) :: u32) = of_nat (c div BPB)" using assms(1) by (simp add: BBLOCK_def)
  then have "unat (of_nat (b div BPB) :: u32) = unat (of_nat (c div BPB) :: u32)" by (rule arg_cong)
  then have "b div BPB = c div BPB" using lt by (simp add: unat_of_nat)
  then show ?thesis using assms(2) by (metis div_mult_mod_eq)
qed

lemma used_alloc_view:
  assumes "dview t = alloc_view s b" and "sb t = sb s" and "\<forall>c < unat (sb_size (sb s)). BBLOCK c (sb s) \<noteq> of_nat b"
    and "b < unat (sb_size (sb s))" and "c < unat (sb_size (sb s))"
  shows "used t c \<longleftrightarrow> c = b \<or> used s c"
proof -
  have sz: "unat (sb_size (sb s)) < 2 ^ 32" using unat_less_exp [of "sb_size (sb s)"] by simp
  have ne: "BBLOCK c (sb s) \<noteq> of_nat b" "BBLOCK b (sb s) \<noteq> of_nat b" using assms(3-5) by blast+
  have inj: "c = b" if "BBLOCK c (sb s) = BBLOCK b (sb s)" "c mod BPB = b mod BPB"
    by (rule BBLOCK_inj [OF that]) (use sz assms(4,5) in linarith)+
  have "used t c \<longleftrightarrow> in_use (if BBLOCK c (sb s) = BBLOCK b (sb s)
      then mark_used (b mod BPB) (dview s (BBLOCK b (sb s))) else dview s (BBLOCK c (sb s))) (c mod BPB)"
    unfolding used_def assms(1,2) alloc_view_def Let_def using ne by simp
  also have "\<dots> \<longleftrightarrow> c = b \<or> used s c"
    using inj by (cases "BBLOCK c (sb s) = BBLOCK b (sb s)") (auto simp: used_def)
  finally show ?thesis .
qed

text \<open>
  C3. Allocating a block and freeing it. When the file system has a free block and the current
  transaction room for three more blocks, \<^verbatim>\<open>balloc\<close> returns the lowest one, its bit is then set and its
  content zero, and no other bit of the free map has changed; \<^verbatim>\<open>bfree\<close> of that block makes the free map what
  it was, and a second \<^verbatim>\<open>bfree\<close> panics. Nothing reaches the disk in between: the changes are in the
  transaction. The layout keeps the bitmap itself out of the blocks to allocate.
\<close>

theorem balloc_bfree:
  fixes s :: "'z kfs_scheme"
  assumes q: "quiet p s" and room: "lh_n s + 2 < int LOGSIZE" "lh_n s + 2 < log_size s - 1" "1 \<le> log_outstanding s"
    and free: "first_free s = Some b"
    and layout: "\<forall>c < unat (sb_size (sb s)). BBLOCK c (sb s) \<noteq> of_nat b"
  shows "\<exists>t u. balloc ROOTDEV s = Inr (of_nat b, t) \<and> disk t = disk s \<and>
    (\<forall>c < unat (sb_size (sb s)). used t c \<longleftrightarrow> c = b \<or> used s c) \<and> (\<forall>i < BSIZE. dview t (of_nat b) i = 0) \<and>
    bfree ROOTDEV (of_nat b) t = Inr u \<and> disk u = disk s \<and> (\<forall>c < unat (sb_size (sb s)). used u c \<longleftrightarrow> used s c) \<and>
    (log_room u \<longrightarrow> bfree ROOTDEV (of_nat b) u = Inl (Panic ''freeing free block''))"
proof -
  obtain t where t: "balloc ROOTDEV s = Inr (of_nat b, t)" "quiet p t" "same_op s t" "dview t = alloc_view s b"
    "disk t = disk s" "lh_n t \<le> lh_n s + 2"
    using balloc_ok [OF q] room free by auto
  have lt: "b < unat (sb_size (sb s))" and nu: "\<not> used s b" using free by (auto simp: first_free_def find_Some_iff)
  have un: "unat (of_nat b :: u32) = b" using lt unat_less_exp [of "sb_size (sb s)"] by (simp add: unat_of_nat)
  note st = same_op_fs [OF t(3)] same_op_fields [OF t(3)]
  note ut = used_alloc_view [OF t(4) st(1) layout lt]
  have roomt: "log_room t" using room t(6) st by (simp add: log_room_def)
  let ?B = "BBLOCK b (sb s)"
  obtain u where u: "bfree ROOTDEV (of_nat b) t = Inr u" "quiet p u" "same_op t u" "disk u = disk s"
    "dview u = (dview t)(?B := mark_free (b mod BPB) (dview t ?B))"
    using bfree_ok [OF t(2) roomt, of "of_nat b"] ut [OF lt] t(5) st(1) un by auto
  note su = same_op_fs [OF u(3)]
  have uu: "used u c \<longleftrightarrow> used s c" if c: "c < unat (sb_size (sb s))" for c
  proof -
    have "used u c \<longleftrightarrow> c \<noteq> b \<and> used t c"
      using BBLOCK_inj [of b "sb s" c] lt c unat_less_exp [of "sb_size (sb s)"] su(1) st(1) u(5)
      by (auto simp: used_def)
    then show ?thesis using ut [OF c] nu by auto
  qed
  have "dview t (of_nat b) i = 0" if "i < BSIZE" for i
    using t(4) that by (simp add: alloc_view_def Let_def zero_block_def)
  moreover have "bfree ROOTDEV (of_nat b) u = Inl (Panic ''freeing free block'')" if "log_room u"
    using bfree_ok [OF u(2) that, of "of_nat b"] uu [OF lt] nu un by simp
  ultimately show ?thesis using t(1,5) ut u(1,4) uu by blast
qed

text \<open>The machine of \<open>klog_boot\<close> with superblock \<open>S\<close> and inode table \<open>I\<close>.\<close>

definition kfs_boot :: "superblock \<Rightarrow> (nat \<Rightarrow> inode) \<Rightarrow> (u32 \<Rightarrow> block) \<Rightarrow> kfs" where
  "kfs_boot S I D = klog.extend (klog_boot D) \<lparr>sb = S, itable = I\<rparr>"

lemma kfs_boot:
  "quiet 0 (kfs_boot S I D)" "dview (kfs_boot S I D) = D" "disk (kfs_boot S I D) = D"
  "lh_n (kfs_boot S I D) = 0" "log_size (kfs_boot S I D) = 30" "log_outstanding (kfs_boot S I D) = 1"
  "sb (kfs_boot S I D) = S" "itable (kfs_boot S I D) = I"
proof -
  let ?k = "kfs_boot S I D" and ?l = "klog_boot D"
  have f [simp]: "bufs ?k = bufs ?l" "lru ?k = lru ?l" "disk ?k = disk ?l" "sleeplocks ?k = sleeplocks ?l"
    "held ?k = held ?l" "curproc ?k = curproc ?l" 
    "lh_n ?k = lh_n ?l" "lh_block ?k = lh_block ?l"
    "log_size ?k = log_size ?l" "log_outstanding ?k = log_outstanding ?l"
    by (simp_all add: kfs_boot_def klog.extend_def)
  have v: "dview ?k = dview ?l" "refs ?k = refs ?l" "locked_blocks ?k = locked_blocks ?l"
    by (simp_all add: dview_def view_def refs_def locked_blocks_def cached_def fun_eq_iff cong: option.case_cong)
  show "dview ?k = D" using v klog_boot by simp
  have "ready 0 ?k = ready 0 ?l" by (simp add: ready_def calm_def bio_ok_def cached_def)
  then show "quiet 0 ?k" using v klog_boot by (simp add: quiet_def log_homes_def)
qed (simp_all add: kfs_boot_def klog.extend_def klog_boot)

text \<open>A disk of 100 blocks whose free map, in block 45, has the first 46 bits set.\<close>

definition fs_sb :: superblock where
  "fs_sb = \<lparr>sb_magic = FSMAGIC, sb_size = 100, sb_nblocks = 54, sb_ninodes = 200, sb_nlog = 30,
     sb_logstart = 2, sb_inodestart = 32, sb_bmapstart = 45\<rparr>"

definition fs_map :: block where
  "fs_map = (\<lambda>i. if i < 5 then 255 else if i = 5 then 63 else 0)"

lemma first_free_boot:
  assumes "D 45 = fs_map"
  shows "first_free (kfs_boot fs_sb I D) = Some 46"
proof -
  have u: "used (kfs_boot fs_sb I D) b = in_use fs_map b" if "b < 100" for b
    using that assms by (simp add: used_def kfs_boot BBLOCK_def fs_sb_def BPB_def BSIZE_def)
  have "list_all (in_use fs_map) [0..<46]" by code_simp
  moreover have "\<not> in_use fs_map 46" by code_simp
  ultimately show ?thesis
    using u unfolding first_free_def find_Some_iff
    by (auto simp: kfs_boot fs_sb_def list_all_iff intro!: exI [of _ 46])
qed

definition fs_inodes :: "nat \<Rightarrow> inode" where
  "fs_inodes = (\<lambda>_. \<lparr>i_dev = 0, i_inum = 0, i_ref = 0, i_valid = False, i_type = 0, i_major = 0, i_minor = 0,
     i_nlink = 0, i_size = 0, i_addrs = replicate (NDIRECT + 1) 0\<rparr>)"

theorem balloc_bfree_witness:
  "\<exists>t u. balloc ROOTDEV (kfs_boot fs_sb fs_inodes (\<lambda>_. fs_map)) = Inr (46, t) \<and> used t 46 \<and>
    bfree ROOTDEV 46 t = Inr u \<and> \<not> used u 46 \<and> used u 45"
proof -
  let ?s = "kfs_boot fs_sb fs_inodes (\<lambda>_. fs_map)"
  have "\<forall>c < unat (sb_size (sb ?s)). BBLOCK c (sb ?s) \<noteq> of_nat 46"
    by (auto simp: kfs_boot BBLOCK_def fs_sb_def BPB_def BSIZE_def)
  note b = balloc_bfree [OF kfs_boot(1) _ _ _ first_free_boot this, simplified kfs_boot]
  have u: "used ?s 45" "\<not> used ?s 46" using first_free_boot [of "\<lambda>_. fs_map" fs_inodes]
    by (auto simp: first_free_def find_Some_iff)
  show ?thesis using b u by (fastforce simp: LOGSIZE_def MAXOPBLOCKS_def fs_sb_def)
qed

end
