(* ===== verification/Inode.thy ===== *)
theory Inode
  imports Fs_Alloc
begin

section \<open>Inodes\<close>

text \<open>
  The inode layer of \<^verbatim>\<open>kernel/fs.c\<close>. A pointer to an in-memory inode is its index in \<^verbatim>\<open>itable\<close>. The
  on-disk inode \<^verbatim>\<open>inum\<close> is at byte \<^verbatim>\<open>64*(inum%IPB)\<close> of its block: type, major, minor and link count in 16
  bits each, the size in 32, then thirteen block addresses.

  \<^verbatim>\<open>readi\<close> returns the bytes it has copied besides its C result, for callers whose buffer is a local
  variable; \<^verbatim>\<open>writei\<close> takes the bytes of such a buffer.
\<close>

definition T_DIR :: u16 where "T_DIR = 1"
definition T_FILE :: u16 where "T_FILE = 2"
definition T_DEVICE :: u16 where "T_DEVICE = 3"

definition upd_inode :: "nat \<Rightarrow> (inode \<Rightarrow> inode) \<Rightarrow> 'z kfs_scheme \<Rightarrow> 'z kfs_scheme" where
  "upd_inode ip f s = s\<lparr>itable := (itable s)(ip := f (itable s ip))\<rparr>"

definition iinit :: "'z kfs_scheme \<Rightarrow> 'z kfs_scheme" where
  "iinit s = fold (\<lambda>i. initsleeplock (InodeLock i)) [0..<NINODE] s"

subsection \<open>The on-disk inode\<close>

definition dinode_off :: "u32 \<Rightarrow> nat" where
  "dinode_off inum = 64 * (unat inum mod IPB)"

text \<open>The assignments \<^verbatim>\<open>dip->type = ip->type\<close> and so on of \<^verbatim>\<open>iupdate\<close>, and those of \<^verbatim>\<open>ilock\<close>.\<close>

definition put_dinode :: "nat \<Rightarrow> inode \<Rightarrow> block \<Rightarrow> block" where
  "put_dinode off ip d =
     (let d = put16 off (i_type ip) d;
          d = put16 (off + 2) (i_major ip) d;
          d = put16 (off + 4) (i_minor ip) d;
          d = put16 (off + 6) (i_nlink ip) d;
          d = put32 (off + 8) (i_size ip) d
      in put_array (off + 12) (i_addrs ip) d)"

definition get_dinode :: "nat \<Rightarrow> block \<Rightarrow> inode \<Rightarrow> inode" where
  "get_dinode off d ip = ip\<lparr>i_type := get16 d off, i_major := get16 d (off + 2), i_minor := get16 d (off + 4),
     i_nlink := get16 d (off + 6), i_size := get32 d (off + 8), i_addrs := get_array d (off + 12) (NDIRECT + 1)\<rparr>"

definition iupdate :: "nat \<Rightarrow> 'z kfs_scheme \<Rightarrow> ('z kfs_scheme, 'z kfs_scheme) res" where
  "iupdate ip s =
     andthen (bread (i_dev (itable s ip)) (IBLOCK (i_inum (itable s ip)) (sb s)) s) (\<lambda>(bp, s).
     andthen (log_write bp (set_data bp
       (put_dinode (dinode_off (i_inum (itable s ip))) (itable s ip)) s)) (brelse bp))"

subsection \<open>The inode table\<close>

definition iget :: "u32 \<Rightarrow> u32 \<Rightarrow> 'z kfs_scheme \<Rightarrow> ('z kfs_scheme, nat \<times> 'z kfs_scheme) res" where
  "iget dev inum s =
     andthen (acquire_lk ItableLock s) (\<lambda>s.
     case find (\<lambda>ip. i_ref (itable s ip) > 0 \<and> i_dev (itable s ip) = dev \<and> i_inum (itable s ip) = inum)
         [0..<NINODE] of
       Some ip \<Rightarrow>
         andthen (release_lk ItableLock (upd_inode ip (\<lambda>q. q\<lparr>i_ref := i_ref q + 1\<rparr>) s)) (\<lambda>s. Inr (ip, s))
     | None \<Rightarrow>
         (case find (\<lambda>ip. i_ref (itable s ip) = 0) [0..<NINODE] of
            None \<Rightarrow> Inl (Panic ''iget: no inodes'')
          | Some ip \<Rightarrow>
              andthen (release_lk ItableLock
                (upd_inode ip (\<lambda>q. q\<lparr>i_dev := dev, i_inum := inum, i_ref := 1, i_valid := False\<rparr>) s)) (\<lambda>s.
              Inr (ip, s))))"

definition idup :: "nat \<Rightarrow> 'z kfs_scheme \<Rightarrow> ('z kfs_scheme, nat \<times> 'z kfs_scheme) res" where
  "idup ip s =
     andthen (acquire_lk ItableLock s) (\<lambda>s.
     andthen (release_lk ItableLock (upd_inode ip (\<lambda>q. q\<lparr>i_ref := i_ref q + 1\<rparr>) s)) (\<lambda>s.
     Inr (ip, s)))"

fun ialloc_loop :: "u32 \<Rightarrow> u16 \<Rightarrow> nat list \<Rightarrow> 'z kfs_scheme \<Rightarrow> ('z kfs_scheme, nat \<times> 'z kfs_scheme) res" where
  "ialloc_loop dev type [] s = Inl (Panic ''ialloc: no inodes'')"
| "ialloc_loop dev type (inum # inums) s =
     andthen (bread dev (IBLOCK (of_nat inum) (sb s)) s) (\<lambda>(bp, s).
     let off = dinode_off (of_nat inum) in
     if get16 (b_data (bufs s bp)) off = 0 then
       andthen (log_write bp (set_data bp (\<lambda>d. put16 off type (put_bytes off (replicate 64 0) d)) s)) (\<lambda>s.
       andthen (brelse bp s) (\<lambda>s.
       iget dev (of_nat inum) s))
     else andthen (brelse bp s) (ialloc_loop dev type inums))"

definition ialloc :: "u32 \<Rightarrow> u16 \<Rightarrow> 'z kfs_scheme \<Rightarrow> ('z kfs_scheme, nat \<times> 'z kfs_scheme) res" where
  "ialloc dev type s = ialloc_loop dev type [1..<unat (sb_ninodes (sb s))] s"

definition ilock :: "nat option \<Rightarrow> 'z kfs_scheme \<Rightarrow> ('z kfs_scheme, 'z kfs_scheme) res" where
  "ilock ipo s =
     (case ipo of
        None \<Rightarrow> Inl (Panic ''ilock'')
      | Some ip \<Rightarrow>
          if i_ref (itable s ip) < 1 then Inl (Panic ''ilock'')
          else
            andthen (acquiresleep (InodeLock ip) s) (\<lambda>s.
            if \<not> i_valid (itable s ip) then
              andthen (bread (i_dev (itable s ip)) (IBLOCK (i_inum (itable s ip)) (sb s)) s) (\<lambda>(bp, s).
              andthen (brelse bp (upd_inode ip
                (get_dinode (dinode_off (i_inum (itable s ip))) (b_data (bufs s bp))) s)) (\<lambda>s.
              let s = upd_inode ip (\<lambda>q. q\<lparr>i_valid := True\<rparr>) s in
              if i_type (itable s ip) = 0 then Inl (Panic ''ilock: no type'') else Inr s))
            else Inr s))"

definition iunlock :: "nat option \<Rightarrow> 'z kfs_scheme \<Rightarrow> ('z kfs_scheme, 'z kfs_scheme) res" where
  "iunlock ipo s =
     (case ipo of
        None \<Rightarrow> Inl (Panic ''iunlock'')
      | Some ip \<Rightarrow>
          andthen (holdingsleep (InodeLock ip) s) (\<lambda>(h, s).
          if \<not> h \<or> i_ref (itable s ip) < 1 then Inl (Panic ''iunlock'')
          else releasesleep (InodeLock ip) s))"

subsection \<open>Content\<close>

definition set_addr :: "nat \<Rightarrow> nat \<Rightarrow> u32 \<Rightarrow> 'z kfs_scheme \<Rightarrow> 'z kfs_scheme" where
  "set_addr ip i a s = upd_inode ip (\<lambda>q. q\<lparr>i_addrs := (i_addrs q)[i := a]\<rparr>) s"

text \<open>\<^verbatim>\<open>if((addr = ip->addrs[i]) == 0) ip->addrs[i] = addr = balloc(ip->dev)\<close>\<close>

definition bmap_slot :: "nat \<Rightarrow> nat \<Rightarrow> 'z kfs_scheme \<Rightarrow> ('z kfs_scheme, u32 \<times> 'z kfs_scheme) res" where
  "bmap_slot ip i s =
     (let addr = i_addrs (itable s ip) ! i in
      if addr = 0 then
        andthen (balloc (i_dev (itable s ip)) s) (\<lambda>(addr, s). Inr (addr, set_addr ip i addr s))
      else Inr (addr, s))"

definition bmap :: "nat \<Rightarrow> nat \<Rightarrow> 'z kfs_scheme \<Rightarrow> ('z kfs_scheme, u32 \<times> 'z kfs_scheme) res" where
  "bmap ip bn s =
     (if bn < NDIRECT then bmap_slot ip bn s
      else if bn - NDIRECT < NINDIRECT then
        andthen (bmap_slot ip NDIRECT s) (\<lambda>(addr, s).
        andthen (bread (i_dev (itable s ip)) addr s) (\<lambda>(bp, s).
        let addr = get32 (b_data (bufs s bp)) (4 * (bn - NDIRECT)) in
        if addr = 0 then
          andthen (balloc (i_dev (itable s ip)) s) (\<lambda>(addr, s).
          andthen (log_write bp (set_data bp (put32 (4 * (bn - NDIRECT)) addr) s)) (\<lambda>s.
          andthen (brelse bp s) (\<lambda>s. Inr (addr, s))))
        else andthen (brelse bp s) (\<lambda>s. Inr (addr, s))))
      else Inl (Panic ''bmap: out of range''))"

definition itrunc :: "nat \<Rightarrow> 'z kfs_scheme \<Rightarrow> ('z kfs_scheme, 'z kfs_scheme) res" where
  "itrunc ip s =
     andthen (for_each (\<lambda>i s.
       if i_addrs (itable s ip) ! i \<noteq> 0 then
         andthen (bfree (i_dev (itable s ip)) (i_addrs (itable s ip) ! i) s) (\<lambda>s. Inr (set_addr ip i 0 s))
       else Inr s) [0..<NDIRECT] s) (\<lambda>s.
     andthen
       (if i_addrs (itable s ip) ! NDIRECT \<noteq> 0 then
          andthen (bread (i_dev (itable s ip)) (i_addrs (itable s ip) ! NDIRECT) s) (\<lambda>(bp, s).
          andthen (for_each (\<lambda>j s.
            let a = get32 (b_data (bufs s bp)) (4 * j) in
            if a \<noteq> 0 then bfree (i_dev (itable s ip)) a s else Inr s) [0..<NINDIRECT] s) (\<lambda>s.
          andthen (brelse bp s) (\<lambda>s.
          andthen (bfree (i_dev (itable s ip)) (i_addrs (itable s ip) ! NDIRECT) s) (\<lambda>s.
          Inr (set_addr ip NDIRECT 0 s)))))
        else Inr s) (\<lambda>s.
     iupdate ip (upd_inode ip (\<lambda>q. q\<lparr>i_size := 0\<rparr>) s)))"

definition iput :: "nat \<Rightarrow> 'z kfs_scheme \<Rightarrow> ('z kfs_scheme, 'z kfs_scheme) res" where
  "iput ip s =
     andthen (acquire_lk ItableLock s) (\<lambda>s.
     andthen
       (if i_ref (itable s ip) = 1 \<and> i_valid (itable s ip) \<and> i_nlink (itable s ip) = 0 then
          andthen (acquiresleep (InodeLock ip) s) (\<lambda>s.
          andthen (release_lk ItableLock s) (\<lambda>s.
          andthen (itrunc ip s) (\<lambda>s.
          andthen (iupdate ip (upd_inode ip (\<lambda>q. q\<lparr>i_type := 0\<rparr>) s)) (\<lambda>s.
          andthen (releasesleep (InodeLock ip) (upd_inode ip (\<lambda>q. q\<lparr>i_valid := False\<rparr>) s)) (\<lambda>s.
          acquire_lk ItableLock s)))))
        else Inr s) (\<lambda>s.
     release_lk ItableLock (upd_inode ip (\<lambda>q. q\<lparr>i_ref := i_ref q - 1\<rparr>) s)))"

definition iunlockput :: "nat \<Rightarrow> 'z kfs_scheme \<Rightarrow> ('z kfs_scheme, 'z kfs_scheme) res" where
  "iunlockput ip s = andthen (iunlock (Some ip) s) (iput ip)"

record stat =
  st_dev :: u32
  st_ino :: u32
  st_type :: u16
  st_nlink :: u16
  st_size :: u64

definition stati :: "nat \<Rightarrow> 'z kfs_scheme \<Rightarrow> stat" where
  "stati ip s = (let q = itable s ip in
     \<lparr>st_dev = i_dev q, st_ino = i_inum q, st_type = i_type q, st_nlink = i_nlink q, st_size = ucast (i_size q)\<rparr>)"

text \<open>The number of bytes copied in one pass: \<^verbatim>\<open>min(n - tot, BSIZE - off%BSIZE)\<close>.\<close>

definition fs_chunk :: "nat \<Rightarrow> nat \<Rightarrow> nat" where
  "fs_chunk off left = min left (BSIZE - off mod BSIZE)"

lemma fs_chunk_pos: "0 < left \<Longrightarrow> 0 < fs_chunk off left" and fs_chunk_le: "fs_chunk off left \<le> left"
  by (simp_all add: fs_chunk_def BSIZE_def)

text \<open>The guards of \<^verbatim>\<open>readi\<close> and \<^verbatim>\<open>writei\<close> exclude wrap-around, so the loops count in naturals.\<close>

function readi_loop :: "nat \<Rightarrow> addr \<Rightarrow> nat \<Rightarrow> nat \<Rightarrow> nat \<Rightarrow> 'z kfs_scheme \<Rightarrow>
    ('z kfs_scheme, int \<times> u8 list \<times> 'z kfs_scheme) res" where
  "readi_loop ip dst off tot n s =
     (if tot < n then
        andthen (bmap ip (off div BSIZE) s) (\<lambda>(addr, s).
        andthen (bread (i_dev (itable s ip)) addr s) (\<lambda>(bp, s).
        let m = fs_chunk off (n - tot);
            bs = get_bytes (b_data (bufs s bp)) (off mod BSIZE) m in
        andthen (either_copyout dst bs s) (\<lambda>(r, s).
        if r = -1 then andthen (brelse bp s) (\<lambda>s. Inr (-1, [], s))
        else
          andthen (brelse bp s) (\<lambda>s.
          andthen (readi_loop ip (addr_plus dst (of_nat m)) (off + m) (tot + m) n s) (\<lambda>(r, bs', s).
          Inr (r, bs @ bs', s))))))
      else Inr (int tot, [], s))"
  by pat_completeness auto
termination
  by (relation "measure (\<lambda>(_, _, _, tot, n, _). n - tot)")
    (auto simp: fs_chunk_pos diff_less_mono2)

definition readi :: "nat \<Rightarrow> addr \<Rightarrow> u32 \<Rightarrow> u32 \<Rightarrow> 'z kfs_scheme \<Rightarrow>
    ('z kfs_scheme, int \<times> u8 list \<times> 'z kfs_scheme) res" where
  "readi ip dst off n s =
     (let sz = i_size (itable s ip) in
      if off > sz \<or> off + n < off then Inr (0, [], s)
      else readi_loop ip dst (unat off) 0 (unat (if off + n > sz then sz - off else n)) s)"

function writei_loop :: "nat \<Rightarrow> addr \<Rightarrow> u8 list \<Rightarrow> nat \<Rightarrow> nat \<Rightarrow> nat \<Rightarrow> 'z kfs_scheme \<Rightarrow>
    ('z kfs_scheme, nat \<times> nat \<times> 'z kfs_scheme) res" where
  "writei_loop ip src loc off tot n s =
     (if tot < n then
        andthen (bmap ip (off div BSIZE) s) (\<lambda>(addr, s).
        andthen (bread (i_dev (itable s ip)) addr s) (\<lambda>(bp, s).
        let m = fs_chunk off (n - tot) in
        andthen (either_copyin src loc m s) (\<lambda>(r, bs).
        let s = set_data bp (put_bytes (off mod BSIZE) bs) s in
        if r = -1 then andthen (brelse bp s) (\<lambda>s. Inr (tot, off, s))
        else
          andthen (log_write bp s) (\<lambda>s.
          andthen (brelse bp s) (\<lambda>s.
          writei_loop ip (addr_plus src (of_nat m)) (drop m loc) (off + m) (tot + m) n s)))))
      else Inr (tot, off, s))"
  by pat_completeness auto
termination
  by (relation "measure (\<lambda>(_, _, _, _, tot, n, _). n - tot)")
    (auto simp: fs_chunk_pos diff_less_mono2)

declare readi_loop.simps [simp del] writei_loop.simps [simp del]

definition writei :: "nat \<Rightarrow> addr \<Rightarrow> u8 list \<Rightarrow> u32 \<Rightarrow> u32 \<Rightarrow> 'z kfs_scheme \<Rightarrow>
    ('z kfs_scheme, int \<times> 'z kfs_scheme) res" where
  "writei ip src loc off n s =
     (if off > i_size (itable s ip) \<or> off + n < off then Inr (-1, s)
      else if unat (off + n) > MAXFILE * BSIZE then Inr (-1, s)
      else
        andthen (writei_loop ip src loc (unat off) 0 (unat n) s) (\<lambda>(tot, off, s).
        let s = (if off > unat (i_size (itable s ip)) then upd_inode ip (\<lambda>q. q\<lparr>i_size := of_nat off\<rparr>) s else s)
        in andthen (iupdate ip s) (\<lambda>s. Inr (int tot, s))))"

end
