(* ===== verification/Inode_Table.thy ===== *)
theory Inode_Table
  imports Inode
begin

section \<open>The inode table and the inodes on disk\<close>

text \<open>
  The table never has two entries for one inode, and what \<^verbatim>\<open>iupdate\<close> writes is what a later \<^verbatim>\<open>ilock\<close> reads.
\<close>

lemma upd_inode_fields [simp]:
  "held (upd_inode ip f s) = held s" "curproc (upd_inode ip f s) = curproc s" "procs (upd_inode ip f s) = procs s"
  "sleeplocks (upd_inode ip f s) = sleeplocks s" "bufs (upd_inode ip f s) = bufs s" "lru (upd_inode ip f s) = lru s"
  "disk (upd_inode ip f s) = disk s" "dtrace (upd_inode ip f s) = dtrace s" "lh_n (upd_inode ip f s) = lh_n s"
  "lh_block (upd_inode ip f s) = lh_block s" "log_size (upd_inode ip f s) = log_size s"
  "log_outstanding (upd_inode ip f s) = log_outstanding s" "sb (upd_inode ip f s) = sb s"
  "itable (upd_inode ip f s) = (itable s)(ip := f (itable s ip))" "mem (upd_inode ip f s) = mem s"
  by (simp_all add: upd_inode_def)

lemma upd_inode_cache [simp]:
  "dview (upd_inode ip f s) = dview s" "refs (upd_inode ip f s) = refs s" "quiet p (upd_inode ip f s) = quiet p s"
  "log_homes (upd_inode ip f s) = log_homes s" "log_room (upd_inode ip f s) = log_room s"
proof -
  note c = cache_cong [of "upd_inode ip f s" s, simplified]
  show "dview (upd_inode ip f s) = dview s" "refs (upd_inode ip f s) = refs s" by (fact c)+
  show "log_homes (upd_inode ip f s) = log_homes s" "log_room (upd_inode ip f s) = log_room s"
    by (simp_all add: log_homes_def log_room_def)
  then show "quiet p (upd_inode ip f s) = quiet p s" by (simp add: quiet_def c)
qed

subsection \<open>Layout\<close>

lemma put_array_outside: "i < off \<or> off + 4 * length vs \<le> i \<Longrightarrow> put_array off vs d i = d i"
  by (induction off vs d rule: put_array.induct) (auto simp: put32_def put_bytes_outside)

lemma get_bytes_cong: "(\<And>i. off \<le> i \<Longrightarrow> i < off + n \<Longrightarrow> d i = e i) \<Longrightarrow> get_bytes d off n = get_bytes e off n"
  by (simp add: get_bytes_def)

lemma put_dinode_outside:
  assumes "length (i_addrs q) = NDIRECT + 1" and "i < off \<or> off + 64 \<le> i"
  shows "put_dinode off q d i = d i"
  using assms by (auto simp: put_dinode_def Let_def put_array_outside put16_def put32_def put_bytes_outside NDIRECT_def)

lemma get_dinode_cong:
  assumes "\<And>i. off \<le> i \<Longrightarrow> i < off + 64 \<Longrightarrow> d i = e i"
  shows "get_dinode off d x = get_dinode off e x"
proof -
  have "get_bytes d (off + k) n = get_bytes e (off + k) n" if "k + n \<le> 64" for k n
    by (rule get_bytes_cong) (use assms that in simp)
  from this [of 0 2] this [of 2 2] this [of 4 2] this [of 6 2] this [of 8 4] this [of "12 + 4 * _" 4]
  show ?thesis
    by (auto simp: get_dinode_def get16_def get32_def get_array_def NDIRECT_def add.assoc)
qed

lemma get_put_dinode:
  assumes "length (i_addrs q) = NDIRECT + 1"
  shows "get_dinode off (put_dinode off q d) x = x\<lparr>i_type := i_type q, i_major := i_major q, i_minor := i_minor q,
    i_nlink := i_nlink q, i_size := i_size q, i_addrs := i_addrs q\<rparr>"
proof -
  let ?d = "put32 (off + 8) (i_size q) (put16 (off + 6) (i_nlink q) (put16 (off + 4) (i_minor q)
    (put16 (off + 2) (i_major q) (put16 off (i_type q) d))))"
  have arr: "get_array (put_array (off + 12) (i_addrs q) ?d) (off + 12) (NDIRECT + 1) = i_addrs q"
    using get_put_array [of "off + 12" "i_addrs q" ?d] assms by simp
  have low: "get_bytes (put_array (off + 12) (i_addrs q) ?d) (off + k) n = get_bytes ?d (off + k) n" if "k + n \<le> 12" for k n
    by (rule get_bytes_cong) (use that in \<open>simp add: put_array_outside\<close>)
  have g: "get16 (put_array (off + 12) (i_addrs q) ?d) (off + k) = get16 ?d (off + k)" if "k + 2 \<le> 12" for k
    using low [OF that] by (simp add: get16_def)
  have g4: "get32 (put_array (off + 12) (i_addrs q) ?d) (off + 8) = get32 ?d (off + 8)"
    using low [of 8 4] by (simp add: get32_def)
  show ?thesis unfolding get_dinode_def put_dinode_def Let_def arr g4
    using g [of 0] g [of 2] g [of 4] g [of 6] by (simp add: get_put_other)
qed

lemma dinode_off_apart:
  assumes "IBLOCK i S = IBLOCK j S" and "i \<noteq> j"
  shows "dinode_off i + 64 \<le> dinode_off j \<or> dinode_off j + 64 \<le> dinode_off i"
proof -
  have "i div 16 = j div 16" using assms(1) by (simp add: IBLOCK_def IPB_def BSIZE_def)
  then have "unat (i div 16) = unat (j div 16)" by simp
  then have "unat i div 16 = unat j div 16" by (simp add: unat_div)
  moreover have "unat i \<noteq> unat j" using assms(2) by (simp add: word_unat_eq_iff)
  ultimately have "unat i mod 16 \<noteq> unat j mod 16" by (metis div_mult_mod_eq)
  then show ?thesis by (auto simp: dinode_off_def IPB_def BSIZE_def)
qed

subsection \<open>Reading and writing an inode\<close>

definition lock_inode :: "nat \<Rightarrow> sleeplock \<Rightarrow> 'z kfs_scheme \<Rightarrow> 'z kfs_scheme" where
  "lock_inode ip l s = s\<lparr>sleeplocks := (sleeplocks s)(InodeLock ip := l)\<rparr>"

lemma lock_inode_fields [simp]:
  "held (lock_inode ip l s) = held s" "curproc (lock_inode ip l s) = curproc s" "procs (lock_inode ip l s) = procs s"
  "bufs (lock_inode ip l s) = bufs s" "lru (lock_inode ip l s) = lru s" "disk (lock_inode ip l s) = disk s"
  "lh_n (lock_inode ip l s) = lh_n s" "lh_block (lock_inode ip l s) = lh_block s" "sb (lock_inode ip l s) = sb s"
  "itable (lock_inode ip l s) = itable s" "log_size (lock_inode ip l s) = log_size s"
  "log_outstanding (lock_inode ip l s) = log_outstanding s"
  "sleeplocks (lock_inode ip l s) = (sleeplocks s)(InodeLock ip := l)"
  by (simp_all add: lock_inode_def)

lemma lock_inode_cache [simp]:
  "dview (lock_inode ip l s) = dview s" "quiet p (lock_inode ip l s) = quiet p s"
  "log_homes (lock_inode ip l s) = log_homes s" "log_room (lock_inode ip l s) = log_room s"
proof -
  show dv: "dview (lock_inode ip l s) = dview s"
    by (simp add: dview_def view_def fun_eq_iff cong: option.case_cong)
  have r: "refs (lock_inode ip l s) = refs s" by (simp add: refs_def fun_eq_iff cong: option.case_cong)
  show h: "log_homes (lock_inode ip l s) = log_homes s" "log_room (lock_inode ip l s) = log_room s"
    by (simp_all add: log_homes_def log_room_def)
  have "bio_ok (lock_inode ip l s) = bio_ok s" by (simp add: bio_ok_def)
  then show "quiet p (lock_inode ip l s) = quiet p s"
    by (simp add: quiet_def r h ready_def calm_def locked_blocks_def cached_def)
qed

lemma reading_upd_inode [simp]:
  "reading p n b s (upd_inode ip f t) = reading p n b s t"
proof -
  note c = cache_cong [of "upd_inode ip f t" t, simplified]
  show ?thesis by (simp add: reading_def c cache_is_def)
qed

lemma iupdate_ok:
  fixes s :: "'z kfs_scheme"
  assumes q: "quiet p s" and room: "log_room s" and dev: "i_dev (itable s ip) = ROOTDEV"
  obtains t where "iupdate ip s = Inr t" and "quiet p t" and "same_op s t" and "disk t = disk s"
    and "dview t = (dview s)(IBLOCK (i_inum (itable s ip)) (sb s) :=
      put_dinode (dinode_off (i_inum (itable s ip))) (itable s ip) (dview s (IBLOCK (i_inum (itable s ip)) (sb s))))"
    and "lh_n t \<le> lh_n s + 1" and "log_homes t = log_add (IBLOCK (i_inum (itable s ip)) (sb s)) (log_homes s)"
proof -
  let ?n = "IBLOCK (i_inum (itable s ip)) (sb s)" and ?q = "itable s ip"
  have nb: "lh_n s < int NBUF" using room by (simp add: log_room_def NBUF_def LOGSIZE_def)
  obtain b t where t: "bread ROOTDEV ?n s = Inr (b, t)" "reading p ?n b s t" "same_op s t"
    by (rule bread_quiet [OF q nb], rule that)
  note fs = same_op_fs [OF t(3)]
  obtain u v where u: "log_write b (set_data b (put_dinode (dinode_off (i_inum ?q)) ?q) t) = Inr u" "brelse b u = Inr v"
    "quiet p v" "same_op t v" "dview v = (dview s)(?n := put_dinode (dinode_off (i_inum ?q)) ?q (dview s ?n))"
    "disk v = disk s" "lh_n v = int (length (log_add ?n (log_homes s)))" "log_homes v = log_add ?n (log_homes s)"
    by (rule log_modify [OF q room t(2,3)], rule that)
  have "iupdate ip s = Inr v" unfolding iupdate_def dev t(1) andthen_simps prod.case fs u(1,2) ..
  moreover have "lh_n v \<le> lh_n s + 1" using u(7) q length_log_add [of ?n "log_homes s"] by (simp add: log_homes_def quiet_def) linarith
  ultimately show ?thesis using that u(3,5,6,8) same_op_trans [OF t(3) u(4)] by blast
qed

lemma ilock_valid:
  assumes "held s = {}" and "curproc s = Some p" and "1 \<le> i_ref (itable s ip)"
    and "\<not> slk_locked (sleeplocks s (InodeLock ip))" and "i_valid (itable s ip)"
  shows "ilock (Some ip) s = Inr (lock_inode ip \<lparr>slk_locked = True, slk_pid = p_pid (procs s p)\<rparr> s)"
  using assms by (simp add: ilock_def acquiresleep_free lock_inode_def)

lemma ilock_read:
  fixes s :: "'z kfs_scheme"
  assumes q: "quiet p s" and nb: "lh_n s < int NBUF" and dev: "i_dev (itable s ip) = ROOTDEV"
    and ref: "1 \<le> i_ref (itable s ip)" and free: "\<not> slk_locked (sleeplocks s (InodeLock ip))"
    and inv: "\<not> i_valid (itable s ip)"
  defines "d \<equiv> get_dinode (dinode_off (i_inum (itable s ip))) (dview s (IBLOCK (i_inum (itable s ip)) (sb s))) (itable s ip)"
  shows "if i_type d = 0 then ilock (Some ip) s = Inl (Panic ''ilock: no type'')
    else \<exists>t. ilock (Some ip) s = Inr t \<and> quiet p t \<and> dview t = dview s \<and> disk t = disk s \<and> lh_n t = lh_n s \<and> sb t = sb s \<and>
      log_homes t = log_homes s \<and>
      itable t = (itable s)(ip := d\<lparr>i_valid := True\<rparr>) \<and>
      sleeplocks t (InodeLock ip) = \<lparr>slk_locked = True, slk_pid = p_pid (procs s p)\<rparr>"
proof -
  let ?l = "\<lparr>slk_locked = True, slk_pid = p_pid (procs s p)\<rparr>"
  let ?s = "lock_inode ip ?l s" and ?n = "IBLOCK (i_inum (itable s ip)) (sb s)"
  have c: "held s = {}" "curproc s = Some p" using q by (simp_all add: quiet_def ready_def calm_def)
  have acq: "acquiresleep (InodeLock ip) s = Inr ?s" using c free by (simp add: acquiresleep_free lock_inode_def)
  have qs: "quiet p ?s" "lh_n ?s < int NBUF" using q nb by simp_all
  obtain b t where t: "bread ROOTDEV ?n ?s = Inr (b, t)" "reading p ?n b ?s t" "same_op ?s t"
    "b_data (bufs t b) = dview ?s ?n" by (rule bread_quiet [OF qs], rule that)
  note fs = same_op_fs [OF t(3), simplified]
  let ?t = "upd_inode ip (get_dinode (dinode_off (i_inum (itable s ip))) (dview s ?n)) t"
  have r: "reading p ?n b ?s ?t" using t(2) by simp
  obtain u where u: "brelse b ?t = Inr u" "quiet p u" "same_op ?t u" "dview u = dview ?s" "disk u = disk ?s"
    "log_homes u = log_homes ?s" "lh_n u = lh_n ?s" by (rule brelse_quiet [OF qs(1) r], rule that)
  note fu = same_op_fs [OF u(3), simplified]
  have iu: "itable u ip = d" "itable u = (itable s)(ip := d)" using fu fs by (simp_all add: d_def)
  have lk: "sleeplocks u (InodeLock ip) = ?l"
    using same_op_locks(1) [OF u(3), of ip] same_op_locks(1) [OF t(3), of ip] by simp
  have "ilock (Some ip) s = (let v = upd_inode ip (\<lambda>q. q\<lparr>i_valid := True\<rparr>) u in
    if i_type (itable v ip) = 0 then Inl (Panic ''ilock: no type'') else Inr v)"
    using ref inv dev acq t(1,4) u(1) fs by (simp add: ilock_def)
  then show ?thesis using u(2,4-7) iu lk fu fs by (simp add: Let_def)
qed

text \<open>
  C7. What \<^verbatim>\<open>iupdate\<close> stores in the transaction is what \<^verbatim>\<open>ilock\<close> loads. After \<^verbatim>\<open>iupdate(ip)\<close>, suppose that the
  inode has been unlocked and its table entry recycled, so that it holds no more than the same device and
  inode number; then \<^verbatim>\<open>ilock\<close> fills the entry with exactly the type, device numbers, link count, size and
  block addresses that \<^verbatim>\<open>ip\<close> had. Neither writes to the disk, and every other inode reads as before.
\<close>

theorem iupdate_ilock:
  fixes s :: "'z kfs_scheme"
  assumes q: "quiet p s" and room: "log_room s" "lh_n s + 1 < int NBUF" and dev: "i_dev (itable s ip) = ROOTDEV"
    and len: "length (i_addrs (itable s ip)) = NDIRECT + 1" and ty: "i_type (itable s ip) \<noteq> 0"
    and new: "i_dev r = ROOTDEV" "i_inum r = i_inum (itable s ip)" "1 \<le> i_ref r" "\<not> i_valid r"
    and free: "\<not> slk_locked l"
  shows "\<exists>t u. iupdate ip s = Inr t \<and> disk t = disk s \<and>
    (\<forall>i. i \<noteq> i_inum (itable s ip) \<longrightarrow>
      get_dinode (dinode_off i) (dview t (IBLOCK i (sb s))) r = get_dinode (dinode_off i) (dview s (IBLOCK i (sb s))) r) \<and>
    ilock (Some ip) (lock_inode ip l (upd_inode ip (\<lambda>_. r) t)) = Inr u \<and> disk u = disk s \<and>
    itable u ip = (itable s ip)\<lparr>i_ref := i_ref r, i_valid := True\<rparr>"
proof -
  let ?q = "itable s ip"
  let ?n = "IBLOCK (i_inum ?q) (sb s)" and ?o = "dinode_off (i_inum ?q)"
  obtain t where t: "iupdate ip s = Inr t" "quiet p t" "same_op s t" "disk t = disk s"
    "dview t = (dview s)(?n := put_dinode ?o ?q (dview s ?n))" "lh_n t \<le> lh_n s + 1"
    by (rule iupdate_ok [OF q room(1) dev], rule that)
  note fs = same_op_fs [OF t(3)]
  let ?t = "lock_inode ip l (upd_inode ip (\<lambda>_. r) t)"
  have nb: "lh_n ?t < int NBUF" using t(6) room(2) by simp
  have d: "get_dinode ?o (dview ?t ?n) r = ?q\<lparr>i_ref := i_ref r, i_valid := False\<rparr>"
    using t(5) get_put_dinode [OF len] new dev by (simp add: inode.equality)
  have "\<exists>u. ilock (Some ip) ?t = Inr u \<and> disk u = disk t \<and> itable u ip = ?q\<lparr>i_ref := i_ref r, i_valid := True\<rparr>"
    using ilock_read [of p ?t ip] t(2) nb new free fs d ty by (auto simp: fun_upd_def)
  moreover have "get_dinode (dinode_off i) (dview t (IBLOCK i (sb s))) r = get_dinode (dinode_off i) (dview s (IBLOCK i (sb s))) r"
    if "i \<noteq> i_inum ?q" for i
  proof (cases "IBLOCK i (sb s) = ?n")
    case True
    note a = dinode_off_apart [OF True that]
    show ?thesis by (rule get_dinode_cong) (use True t(5) a put_dinode_outside [OF len] in auto)
  qed (simp add: t(5))
  ultimately show ?thesis using t(1,4) by auto
qed

subsection \<open>One entry per inode\<close>

definition is_entry :: "u32 \<Rightarrow> u32 \<Rightarrow> inode \<Rightarrow> bool" where
  "is_entry dev inum q \<longleftrightarrow> 0 < i_ref q \<and> i_dev q = dev \<and> i_inum q = inum"

definition itable_ok :: "'z kfs_scheme \<Rightarrow> bool" where
  "itable_ok s \<longleftrightarrow> (\<forall>i < NINODE. 0 \<le> i_ref (itable s i)) \<and>
     (\<forall>dev inum. \<forall>i < NINODE. \<forall>j < NINODE.
       is_entry dev inum (itable s i) \<longrightarrow> is_entry dev inum (itable s j) \<longrightarrow> i = j)"

lemma itable_okD:
  "itable_ok s \<Longrightarrow> i < NINODE \<Longrightarrow> j < NINODE \<Longrightarrow> is_entry d n (itable s i) \<Longrightarrow> is_entry d n (itable s j) \<Longrightarrow> i = j"
  unfolding itable_ok_def by blast

definition iget_slot :: "u32 \<Rightarrow> u32 \<Rightarrow> 'z kfs_scheme \<Rightarrow> nat option" where
  "iget_slot dev inum s =
     (case find (\<lambda>ip. is_entry dev inum (itable s ip)) [0..<NINODE] of
        Some ip \<Rightarrow> Some ip
      | None \<Rightarrow> find (\<lambda>ip. i_ref (itable s ip) = 0) [0..<NINODE])"

definition iget_entry :: "u32 \<Rightarrow> u32 \<Rightarrow> inode \<Rightarrow> inode" where
  "iget_entry dev inum q = (if is_entry dev inum q then q\<lparr>i_ref := i_ref q + 1\<rparr>
     else q\<lparr>i_dev := dev, i_inum := inum, i_ref := 1, i_valid := False\<rparr>)"

lemma iget_eq:
  assumes "ItableLock \<notin> held s"
  shows "iget dev inum s = (case iget_slot dev inum s of
    None \<Rightarrow> Inl (Panic ''iget: no inodes'') | Some ip \<Rightarrow> Inr (ip, upd_inode ip (iget_entry dev inum) s))"
proof -
  let ?s = "s\<lparr>held := insert ItableLock (held s)\<rparr>"
  have rel: "release_lk ItableLock (upd_inode ip f ?s) = Inr (upd_inode ip f s)" for ip f
    using assms by (simp add: release_lk_def) (rule kfs.equality, simp_all add: upd_inode_def)
  have a: "acquire_lk ItableLock s = Inr ?s" using assms by (simp add: acquire_lk_def)
  have e: "upd_inode ip f s = upd_inode ip g s" if "f (itable s ip) = g (itable s ip)" for ip f g
    using that by (simp add: upd_inode_def)
  let ?P = "\<lambda>ip. is_entry dev inum (itable s ip)" and ?Z = "\<lambda>ip. i_ref (itable s ip) = 0"
  show ?thesis
  proof (cases "find ?P [0..<NINODE]")
    case None
    show ?thesis
    proof (cases "find ?Z [0..<NINODE]")
      case (Some ip)
      then have "\<not> ?P ip" by (auto simp: find_Some_iff is_entry_def)
      then show ?thesis using None Some
        by (simp add: iget_def a rel iget_slot_def is_entry_def) (rule e, auto simp: iget_entry_def is_entry_def)
    qed (use None in \<open>simp add: iget_def a rel iget_slot_def is_entry_def\<close>)
  next
    case (Some ip)
    then have "?P ip" by (auto simp: find_Some_iff)
    then show ?thesis using Some
      by (simp add: iget_def a rel iget_slot_def is_entry_def) (rule e, auto simp: iget_entry_def is_entry_def)
  qed
qed

lemma iget_slot_None:
  "iget_slot dev inum s = None \<longleftrightarrow> (\<forall>ip < NINODE. i_ref (itable s ip) \<noteq> 0 \<and> \<not> is_entry dev inum (itable s ip))"
  by (auto simp: iget_slot_def find_None_iff split: option.splits)
    (auto simp: find_Some_iff find_None_iff)

lemma iget_slot_Some:
  assumes "iget_slot dev inum s = Some ip"
  shows "ip < NINODE" and "is_entry dev inum (itable s ip) \<or> i_ref (itable s ip) = 0"
    and "\<not> is_entry dev inum (itable s ip) \<Longrightarrow> j < NINODE \<Longrightarrow> \<not> is_entry dev inum (itable s j)"
  using assms by (auto simp: iget_slot_def find_Some_iff find_None_iff split: option.splits)

lemma iget_entry_is: "0 \<le> i_ref q \<Longrightarrow> is_entry dev inum (iget_entry dev inum q)"
  by (simp add: iget_entry_def is_entry_def)

lemma iget_entry_ok:
  assumes ok: "itable_ok s" and slot: "iget_slot dev inum s = Some ip"
  shows "itable_ok (upd_inode ip (iget_entry dev inum) s)" (is "itable_ok ?t")
    and "is_entry dev inum (itable (upd_inode ip (iget_entry dev inum) s) ip)"
proof -
  note sl = iget_slot_Some [OF slot]
  have nonneg: "0 \<le> i_ref (itable s ip)" using ok sl(1) by (simp add: itable_ok_def)
  show ent: "is_entry dev inum (itable ?t ip)" using iget_entry_is [OF nonneg] by simp
  have uniq: "j = ip" if "j < NINODE" "is_entry dev inum (itable s j)" for j
    using itable_okD [OF ok that(1) sl(1) that(2)] sl(3) [OF _ that(1)] that(2) by blast
  have e: "i_dev (iget_entry dev inum q) = dev" "i_inum (iget_entry dev inum q) = inum" for q
    by (simp_all add: iget_entry_def is_entry_def)
  have same: "i = j" if "i < NINODE" "j < NINODE" "is_entry d n (itable ?t i)" "is_entry d n (itable ?t j)" for i j d n
  proof -
    have eip: "d = dev" "n = inum" if "is_entry d n (itable ?t ip)" using that e by (simp_all add: is_entry_def)
    consider "i = ip" "j = ip" | "i = ip" "j \<noteq> ip" | "i \<noteq> ip" "j = ip" | "i \<noteq> ip" "j \<noteq> ip" by blast
    then show ?thesis
    proof cases
      case 2
      then show ?thesis using eip uniq [OF that(2)] that(3,4) by simp
    next
      case 3
      then show ?thesis using eip uniq [OF that(1)] that(3,4) by simp
    next
      case 4
      then have "is_entry d n (itable s i)" "is_entry d n (itable s j)" using that(3,4) by simp_all
      then show ?thesis by (rule itable_okD [OF ok that(1,2)])
    qed simp
  qed
  have nonneg_t: "0 \<le> i_ref (itable ?t j)" if "j < NINODE" for j
    using ok that ent by (cases "j = ip") (simp_all add: itable_ok_def is_entry_def)
  show "itable_ok ?t" unfolding itable_ok_def using nonneg_t same by blast
qed

lemma iget_slot_again:
  assumes ok: "itable_ok s" and slot: "iget_slot dev inum s = Some ip"
  shows "iget_slot dev inum (upd_inode ip (iget_entry dev inum) s) = Some ip" (is "iget_slot _ _ ?t = _")
proof -
  note sl = iget_slot_Some [OF slot] and ok_t = iget_entry_ok(1) [OF assms] and ent = iget_entry_ok(2) [OF assms]
  have first_ip: "\<not> is_entry dev inum (itable ?t j)" if "j < ip" for j
  proof
    assume a: "is_entry dev inum (itable ?t j)"
    have "j < NINODE" using that sl(1) by simp
    then have "j = ip" by (rule itable_okD [OF ok_t _ sl(1) a ent])
    then show False using that by simp
  qed
  have "find (\<lambda>j. is_entry dev inum (itable ?t j)) [0..<NINODE] = Some ip"
    unfolding find_Some_iff using ent sl(1)
    by (intro exI [of _ ip]) (simp add: first_ip del: upd_inode_fields)
  then show ?thesis by (simp add: iget_slot_def)
qed

lemma iput_iget:
  assumes free: "ItableLock \<notin> held t" and ent: "is_entry dev inum (itable t ip)"
  shows "iput ip (upd_inode ip (iget_entry dev inum) t) = Inr t" (is "iput ip ?u = _")
proof -
  have u: "itable ?u ip = (itable t ip)\<lparr>i_ref := i_ref (itable t ip) + 1\<rparr>" using ent by (simp add: iget_entry_def)
  then have two: "i_ref (itable ?u ip) \<noteq> 1" using ent by (simp add: is_entry_def)
  let ?h = "\<lambda>s. s\<lparr>held := insert ItableLock (held s)\<rparr>"
  have "iput ip ?u = release_lk ItableLock (upd_inode ip (\<lambda>q. q\<lparr>i_ref := i_ref q - 1\<rparr>) (?h ?u))"
    using free two by (simp add: iput_def acquire_lk_def)
  also have "\<dots> = Inr (upd_inode ip (\<lambda>q. q\<lparr>i_ref := i_ref q - 1\<rparr>) ?u)"
    using free by (simp add: release_lk_def) (rule kfs.equality, simp_all add: upd_inode_def)
  also have "upd_inode ip (\<lambda>q. q\<lparr>i_ref := i_ref q - 1\<rparr>) ?u = t"
    by (rule kfs.equality) (use u in \<open>simp_all add: upd_inode_def fun_eq_iff\<close>)
  finally show ?thesis .
qed

text \<open>
  C10. There is one table entry per inode. If the table satisfies its invariant (no two entries in use
  for one inode, no negative count), then \<^verbatim>\<open>iget\<close> panics exactly when the inode has no entry and no entry is
  free; otherwise it returns the entry of that inode with one reference more, or a fresh entry with one
  reference that is not valid yet; it changes no other entry, keeps the invariant, and a second \<^verbatim>\<open>iget\<close> of the
  same inode returns the same entry. \<^verbatim>\<open>iput\<close> takes the second reference back.
\<close>

theorem iget_one_entry:
  assumes free: "ItableLock \<notin> held s" and ok: "itable_ok s"
  shows "if \<forall>ip < NINODE. i_ref (itable s ip) \<noteq> 0 \<and> \<not> is_entry dev inum (itable s ip)
    then iget dev inum s = Inl (Panic ''iget: no inodes'')
    else \<exists>ip t u. iget dev inum s = Inr (ip, t) \<and> ip < NINODE \<and> itable_ok t \<and>
      itable t ip = iget_entry dev inum (itable s ip) \<and> is_entry dev inum (itable t ip) \<and>
      (\<forall>j. j \<noteq> ip \<longrightarrow> itable t j = itable s j) \<and>
      iget dev inum t = Inr (ip, u) \<and> iput ip u = Inr t"
proof (cases "iget_slot dev inum s")
  case None
  then show ?thesis using iget_eq [OF free, of dev inum] iget_slot_None [of dev inum s] by auto
next
  case (Some ip)
  note sl = iget_slot_Some [OF Some]
  let ?t = "upd_inode ip (iget_entry dev inum) s"
  note e = iget_entry_ok [OF ok Some]
  let ?u = "upd_inode ip (iget_entry dev inum) ?t"
  have "iput ip ?u = Inr ?t" by (rule iput_iget [OF _ e(2)]) (simp add: free)
  moreover have "iget dev inum ?t = Inr (ip, ?u)" using iget_eq [of ?t dev inum] free iget_slot_again [OF ok Some] by simp
  moreover have "iget dev inum s = Inr (ip, ?t)" using iget_eq [OF free, of dev inum] Some by simp
  ultimately show ?thesis using sl e by auto
qed

subsection \<open>Examples\<close>

text \<open>A file of five bytes, inode 7, in the first table entry; the entry after it has been recycled.\<close>

definition fs_file :: inode where
  "fs_file = \<lparr>i_dev = ROOTDEV, i_inum = 7, i_ref = 1, i_valid = True, i_type = T_FILE, i_major = 0, i_minor = 0,
     i_nlink = 1, i_size = 5, i_addrs = 46 # replicate NDIRECT 0\<rparr>"

definition fs_recycled :: inode where
  "fs_recycled = fs_file\<lparr>i_valid := False, i_type := 0, i_nlink := 0, i_size := 0, i_addrs := []\<rparr>"

definition kfs_ex :: kfs where
  "kfs_ex = kfs_boot fs_sb (fs_inodes(0 := fs_file)) (\<lambda>_. fs_map)"

lemma kfs_ex:
  "quiet 0 kfs_ex" "log_room kfs_ex" "lh_n kfs_ex + 1 < int NBUF" "itable kfs_ex 0 = fs_file" "sb kfs_ex = fs_sb"
  "held kfs_ex = {}" "itable_ok kfs_ex"
proof -
  show q: "quiet 0 kfs_ex" by (simp add: kfs_ex_def kfs_boot)
  then show "held kfs_ex = {}" by (simp add: quiet_def ready_def calm_def)
  have "i = 0" if "is_entry d n (itable kfs_ex i)" for d n i
    using that by (cases "i = 0") (simp_all add: is_entry_def kfs_ex_def kfs_boot fs_inodes_def)
  moreover have "0 \<le> i_ref (itable kfs_ex i)" for i by (simp add: kfs_ex_def kfs_boot fs_inodes_def fs_file_def)
  ultimately show "itable_ok kfs_ex" unfolding itable_ok_def by blast
qed (simp_all add: kfs_ex_def kfs_boot log_room_def LOGSIZE_def NBUF_def MAXOPBLOCKS_def)

theorem iupdate_ilock_witness:
  "\<exists>t u. iupdate 0 kfs_ex = Inr t \<and>
    ilock (Some 0) (lock_inode 0 \<lparr>slk_locked = False, slk_pid = 0\<rparr> (upd_inode 0 (\<lambda>_. fs_recycled) t)) = Inr u \<and>
    itable u 0 = fs_file"
proof -
  have "i_ref fs_file = 1" "fs_file\<lparr>i_ref := 1, i_valid := True\<rparr> = fs_file" by (simp_all add: fs_file_def)
  then show ?thesis
    using iupdate_ilock [OF kfs_ex(1-3), of 0 fs_recycled "\<lparr>slk_locked = False, slk_pid = 0\<rparr>"]
    by (auto simp: kfs_ex fs_recycled_def fs_file_def T_FILE_def)
qed

theorem iget_one_entry_witness:
  "\<exists>ip t u. iget ROOTDEV 7 kfs_ex = Inr (ip, t) \<and> iget ROOTDEV 7 t = Inr (ip, u) \<and> iput ip u = Inr t"
proof -
  have "is_entry ROOTDEV 7 (itable kfs_ex 0)" "0 < NINODE" by (simp_all add: kfs_ex is_entry_def fs_file_def NINODE_def)
  then have n: "\<not> (\<forall>ip < NINODE. i_ref (itable kfs_ex ip) \<noteq> 0 \<and> \<not> is_entry ROOTDEV 7 (itable kfs_ex ip))" by blast
  have "ItableLock \<notin> held kfs_ex" by (simp add: kfs_ex)
  from iget_one_entry [OF this kfs_ex(7), of ROOTDEV 7, unfolded if_not_P [OF n]] show ?thesis by blast
qed

end
