(* ===== verification/Dir.thy ===== *)
theory Dir
  imports Inode
begin

section \<open>Directories and path names\<close>

text \<open>
  The last part of \<^verbatim>\<open>kernel/fs.c\<close>. A directory entry is 16 bytes: the inode number and a name of up to
  \<^verbatim>\<open>DIRSIZ\<close> bytes, padded with nuls. A path is the list of the bytes before its nul; a name buffer is a
  function from the index to the byte.
\<close>

definition namecmp :: "(nat \<Rightarrow> u8) \<Rightarrow> (nat \<Rightarrow> u8) \<Rightarrow> int" where
  "namecmp p q = strncmp p q DIRSIZ"

definition de_inum :: "u8 list \<Rightarrow> u16" where
  "de_inum de = le_word (take 2 de)"

definition de_name :: "u8 list \<Rightarrow> nat \<Rightarrow> u8" where
  "de_name de = (\<lambda>i. drop 2 de ! i)"

text \<open>The loop of \<^verbatim>\<open>dirlookup\<close> from \<open>off\<close>; \<open>sz\<close> is \<^verbatim>\<open>dp->size\<close>, which reading does not change.\<close>

function dirlookup_loop :: "nat \<Rightarrow> (nat \<Rightarrow> u8) \<Rightarrow> nat \<Rightarrow> nat \<Rightarrow> 'z kfs_scheme \<Rightarrow>
    ('z kfs_scheme, (nat \<times> nat) option \<times> 'z kfs_scheme) res" where
  "dirlookup_loop dp name off sz s =
     (if off < sz then
        andthen (readi dp Local (of_nat off) 16 s) (\<lambda>(r, de, s).
        if r \<noteq> 16 then Inl (Panic ''dirlookup read'')
        else if de_inum de = 0 then dirlookup_loop dp name (off + 16) sz s
        else if namecmp name (de_name de) = 0 then
          andthen (iget (i_dev (itable s dp)) (ucast (de_inum de)) s) (\<lambda>(ip, s).
          Inr (Some (ip, off), s))
        else dirlookup_loop dp name (off + 16) sz s)
      else Inr (None, s))"
  by pat_completeness auto
termination
  by (relation "measure (\<lambda>(_, _, off, sz, _). sz - off)") auto

definition dirlookup :: "nat \<Rightarrow> (nat \<Rightarrow> u8) \<Rightarrow> 'z kfs_scheme \<Rightarrow>
    ('z kfs_scheme, (nat \<times> nat) option \<times> 'z kfs_scheme) res" where
  "dirlookup dp name s =
     (if i_type (itable s dp) \<noteq> T_DIR then Inl (Panic ''dirlookup not DIR'')
      else dirlookup_loop dp name 0 (unat (i_size (itable s dp))) s)"

text \<open>The search of \<^verbatim>\<open>dirlink\<close> for an empty entry, or the end of the directory.\<close>

function dirlink_loop :: "nat \<Rightarrow> nat \<Rightarrow> nat \<Rightarrow> 'z kfs_scheme \<Rightarrow> ('z kfs_scheme, nat \<times> 'z kfs_scheme) res" where
  "dirlink_loop dp off sz s =
     (if off < sz then
        andthen (readi dp Local (of_nat off) 16 s) (\<lambda>(r, de, s).
        if r \<noteq> 16 then Inl (Panic ''dirlink read'')
        else if de_inum de = 0 then Inr (off, s)
        else dirlink_loop dp (off + 16) sz s)
      else Inr (off, s))"
  by pat_completeness auto
termination
  by (relation "measure (\<lambda>(_, off, sz, _). sz - off)") auto

declare dirlookup_loop.simps [simp del] dirlink_loop.simps [simp del]

text \<open>The entry that \<^verbatim>\<open>dirlink\<close> writes: \<^verbatim>\<open>de.inum\<close> is an \<^verbatim>\<open>ushort\<close>.\<close>

definition mk_dirent :: "(nat \<Rightarrow> u8) \<Rightarrow> u32 \<Rightarrow> u8 list" where
  "mk_dirent name inum =
     le_bytes 2 (ucast inum :: u16) @ map (strncpy (\<lambda>_. 0) name (int DIRSIZ)) [0..<DIRSIZ]"

definition dirlink :: "nat \<Rightarrow> (nat \<Rightarrow> u8) \<Rightarrow> u32 \<Rightarrow> 'z kfs_scheme \<Rightarrow> ('z kfs_scheme, int \<times> 'z kfs_scheme) res" where
  "dirlink dp name inum s =
     andthen (dirlookup dp name s) (\<lambda>(r, s).
     case r of
       Some (ip, _) \<Rightarrow> andthen (iput ip s) (\<lambda>s. Inr (-1, s))
     | None \<Rightarrow>
         andthen (dirlink_loop dp 0 (unat (i_size (itable s dp))) s) (\<lambda>(off, s).
         andthen (writei dp Local (mk_dirent name inum) (of_nat off) 16 s) (\<lambda>(r, s).
         if r \<noteq> 16 then Inl (Panic ''dirlink'') else Inr (0, s))))"

subsection \<open>Paths\<close>

definition slash :: u8 where "slash = 47"

definition skipelem :: "u8 list \<Rightarrow> (nat \<Rightarrow> u8) \<Rightarrow> (u8 list \<times> (nat \<Rightarrow> u8)) option" where
  "skipelem path name =
     (let path = dropWhile (\<lambda>c. c = slash) path in
      if path = [] then None
      else
        (let s = takeWhile (\<lambda>c. c \<noteq> slash) path;
             path = dropWhile (\<lambda>c. c \<noteq> slash) path;
             len = length s;
             name = (if len \<ge> DIRSIZ then (\<lambda>i. if i < DIRSIZ then s ! i else name i)
               else (\<lambda>i. if i < len then s ! i else if i = len then 0 else name i))
         in Some (dropWhile (\<lambda>c. c = slash) path, name)))"

lemma skipelem_shorter:
  assumes "skipelem path name = Some (path', name')"
  shows "length path' < length path"
proof -
  let ?p = "dropWhile (\<lambda>c. c = slash) path"
  let ?q = "dropWhile (\<lambda>c. c \<noteq> slash) ?p"
  have ne: "?p \<noteq> []" and p': "path' = dropWhile (\<lambda>c. c = slash) ?q"
    using assms by (auto simp: skipelem_def Let_def split: if_splits)
  from ne have "hd ?p \<noteq> slash" by (rule hd_dropWhile)
  then have "length ?q < length ?p" using ne by (cases ?p) (auto simp: less_Suc_eq_le length_dropWhile_le)
  moreover have "length path' \<le> length ?q" "length ?p \<le> length path" unfolding p' by (rule length_dropWhile_le)+
  ultimately show ?thesis by linarith
qed

function namex_loop :: "nat \<Rightarrow> u8 list \<Rightarrow> bool \<Rightarrow> (nat \<Rightarrow> u8) \<Rightarrow> 'z kfs_scheme \<Rightarrow>
    ('z kfs_scheme, nat option \<times> (nat \<Rightarrow> u8) \<times> 'z kfs_scheme) res" where
  "namex_loop ip path parent name s =
     (case skipelem path name of
        None \<Rightarrow>
          if parent then andthen (iput ip s) (\<lambda>s. Inr (None, name, s)) else Inr (Some ip, name, s)
      | Some (path, name) \<Rightarrow>
          andthen (ilock (Some ip) s) (\<lambda>s.
          if i_type (itable s ip) \<noteq> T_DIR then andthen (iunlockput ip s) (\<lambda>s. Inr (None, name, s))
          else if parent \<and> path = [] then andthen (iunlock (Some ip) s) (\<lambda>s. Inr (Some ip, name, s))
          else
            andthen (dirlookup ip name s) (\<lambda>(r, s).
            case r of
              None \<Rightarrow> andthen (iunlockput ip s) (\<lambda>s. Inr (None, name, s))
            | Some (next, _) \<Rightarrow>
                andthen (iunlockput ip s) (namex_loop next path parent name))))"
  by pat_completeness auto
termination
  by (relation "measure (\<lambda>(_, path, _). length path)") (auto dest: skipelem_shorter)

declare namex_loop.simps [simp del]

definition namex :: "u8 list \<Rightarrow> bool \<Rightarrow> (nat \<Rightarrow> u8) \<Rightarrow> 'z kfs_scheme \<Rightarrow>
    ('z kfs_scheme, nat option \<times> (nat \<Rightarrow> u8) \<times> 'z kfs_scheme) res" where
  "namex path parent name s =
     andthen
       (if path \<noteq> [] \<and> hd path = slash then iget ROOTDEV ROOTINO s
        else with_proc s (\<lambda>p. case p_cwd (procs s p) of None \<Rightarrow> Inl Fault | Some ip \<Rightarrow> idup ip s)) (\<lambda>(ip, s).
     namex_loop ip path parent name s)"

definition namei :: "u8 list \<Rightarrow> 'z kfs_scheme \<Rightarrow> ('z kfs_scheme, nat option \<times> 'z kfs_scheme) res" where
  "namei path s = andthen (namex path False (\<lambda>_. 0) s) (\<lambda>(ip, _, s). Inr (ip, s))"

definition nameiparent :: "u8 list \<Rightarrow> (nat \<Rightarrow> u8) \<Rightarrow> 'z kfs_scheme \<Rightarrow>
    ('z kfs_scheme, nat option \<times> (nat \<Rightarrow> u8) \<times> 'z kfs_scheme) res" where
  "nameiparent path name s = namex path True name s"

end
