(* ===== verification/File_Content.thy ===== *)
theory File_Content
  imports Inode_Table Dir
begin

section \<open>File content\<close>

text \<open>
  What \<^verbatim>\<open>readi\<close>, \<^verbatim>\<open>writei\<close> and the directory operations do, in terms of the bytes of a file. The content of
  a block is what the buffer cache holds for it (\<open>dview\<close>), so the statements are about the file as the
  current transaction sees it.
\<close>

subsection \<open>The bytes of a file\<close>

definition file_block :: "'z kfs_scheme \<Rightarrow> nat \<Rightarrow> nat \<Rightarrow> u32" where
  "file_block s ip bn = (if bn < NDIRECT then i_addrs (itable s ip) ! bn
     else get32 (dview s (i_addrs (itable s ip) ! NDIRECT)) (4 * (bn - NDIRECT)))"

definition mapped :: "'z kfs_scheme \<Rightarrow> nat \<Rightarrow> nat \<Rightarrow> bool" where
  "mapped s ip bn \<longleftrightarrow> bn < MAXFILE \<and> file_block s ip bn \<noteq> 0 \<and>
     (NDIRECT \<le> bn \<longrightarrow> i_addrs (itable s ip) ! NDIRECT \<noteq> 0)"

definition file_byte :: "'z kfs_scheme \<Rightarrow> nat \<Rightarrow> nat \<Rightarrow> u8" where
  "file_byte s ip off = dview s (file_block s ip (off div BSIZE)) (off mod BSIZE)"

definition file_slice :: "'z kfs_scheme \<Rightarrow> nat \<Rightarrow> nat \<Rightarrow> nat \<Rightarrow> u8 list" where
  "file_slice s ip off n = map (file_byte s ip) [off..<off + n]"

text \<open>Every byte of the file is in a block.\<close>

definition whole :: "'z kfs_scheme \<Rightarrow> nat \<Rightarrow> bool" where
  "whole s ip \<longleftrightarrow> i_dev (itable s ip) = ROOTDEV \<and> (\<forall>off < unat (i_size (itable s ip)). mapped s ip (off div BSIZE))"

text \<open>Reading leaves the file system as it was.\<close>

definition unread :: "nat \<Rightarrow> 'z kfs_scheme \<Rightarrow> 'z kfs_scheme \<Rightarrow> bool" where
  "unread p s t \<longleftrightarrow> quiet p t \<and> same_op s t \<and> dview t = dview s \<and> disk t = disk s \<and> lh_n t = lh_n s \<and>
     log_homes t = log_homes s"

lemma unread_refl: "quiet p s \<Longrightarrow> unread p s s"
  by (simp add: unread_def)

lemma unread_trans: "unread p s t \<Longrightarrow> unread p t u \<Longrightarrow> unread p s u"
  unfolding unread_def using same_op_trans by auto

lemma unread_file:
  assumes "unread p s t"
  shows "file_block t = file_block s" "file_byte t = file_byte s" "mapped t = mapped s" "whole t = whole s"
    "file_slice t = file_slice s"
proof -
  have v: "dview t = dview s" "itable t = itable s" using assms same_op_fs [of s t] by (simp_all add: unread_def)
  show b: "file_block t = file_block s" by (simp add: file_block_def fun_eq_iff v)
  show "file_byte t = file_byte s" "mapped t = mapped s" by (simp_all add: file_byte_def mapped_def fun_eq_iff b v)
  then show "whole t = whole s" "file_slice t = file_slice s" by (simp_all add: whole_def file_slice_def fun_eq_iff v)
qed

lemma bread_brelse:
  fixes s :: "'z kfs_scheme"
  assumes q: "quiet p s" and nb: "lh_n s < int NBUF"
  obtains b t u where "bread ROOTDEV n s = Inr (b, t)" and "b_data (bufs t b) = dview s n" and "same_op s t"
    and "brelse b t = Inr u" and "unread p s u"
proof -
  obtain b t where t: "bread ROOTDEV n s = Inr (b, t)" "reading p n b s t" "same_op s t" "b_data (bufs t b) = dview s n"
    by (rule bread_quiet [OF q nb], rule that)
  obtain u where u: "brelse b t = Inr u" "quiet p u" "same_op t u" "dview u = dview s" "disk u = disk s"
    "log_homes u = log_homes s" "lh_n u = lh_n s" by (rule brelse_quiet [OF q t(2)], rule that)
  have "unread p s u" using u(2,4-7) same_op_trans [OF t(3) u(3)] by (simp add: unread_def)
  then show ?thesis by (rule that [OF t(1,4,3) u(1)])
qed

lemma bmap_mapped:
  fixes s :: "'z kfs_scheme"
  assumes q: "quiet p s" and nb: "lh_n s < int NBUF" and dev: "i_dev (itable s ip) = ROOTDEV" and m: "mapped s ip bn"
  obtains t where "bmap ip bn s = Inr (file_block s ip bn, t)" and "unread p s t"
proof (cases "bn < NDIRECT")
  case True
  then have "bmap ip bn s = Inr (file_block s ip bn, s)"
    using m by (simp add: bmap_def bmap_slot_def mapped_def file_block_def Let_def)
  then show ?thesis by (rule that [OF _ unread_refl [OF q]])
next
  case False
  then have ind: "bn - NDIRECT < NINDIRECT" and nz: "i_addrs (itable s ip) ! NDIRECT \<noteq> 0"
    and fb: "get32 (dview s (i_addrs (itable s ip) ! NDIRECT)) (4 * (bn - NDIRECT)) = file_block s ip bn" "file_block s ip bn \<noteq> 0"
    using m by (auto simp: mapped_def MAXFILE_def file_block_def)
  obtain b t u where t: "bread ROOTDEV (i_addrs (itable s ip) ! NDIRECT) s = Inr (b, t)"
    "b_data (bufs t b) = dview s (i_addrs (itable s ip) ! NDIRECT)" "same_op s t" "brelse b t = Inr u" "unread p s u"
    by (rule bread_brelse [OF q nb], rule that)
  have sl: "bmap_slot ip NDIRECT s = Inr (i_addrs (itable s ip) ! NDIRECT, s)" using nz by (simp add: bmap_slot_def Let_def)
  have "bmap ip bn s = Inr (file_block s ip bn, u)"
    using False ind fb t(1,2,4) by (simp add: bmap_def sl dev Let_def)
  then show ?thesis using t(5) by (rule that)
qed

subsection \<open>Reading\<close>

lemma chunk_split:
  assumes "off mod BSIZE + i < BSIZE"
  shows "(off + i) div BSIZE = off div BSIZE" and "(off + i) mod BSIZE = off mod BSIZE + i"
proof -
  have "off + i = off div BSIZE * BSIZE + (off mod BSIZE + i)" by simp
  then show "(off + i) div BSIZE = off div BSIZE" "(off + i) mod BSIZE = off mod BSIZE + i"
    using assms div_mult_self3 [of BSIZE "off div BSIZE" "off mod BSIZE + i"] mod_mult_self3 [of "off div BSIZE" BSIZE "off mod BSIZE + i"]
    by (simp_all add: BSIZE_def)
qed

lemma slice_chunk:
  assumes "off mod BSIZE + m \<le> BSIZE"
  shows "get_bytes (dview s (file_block s ip (off div BSIZE))) (off mod BSIZE) m = file_slice s ip off m"
proof (rule nth_equalityI)
  fix i assume "i < length (get_bytes (dview s (file_block s ip (off div BSIZE))) (off mod BSIZE) m)"
  then have i: "i < m" by simp
  then have "off mod BSIZE + i < BSIZE" using assms by simp
  then show "get_bytes (dview s (file_block s ip (off div BSIZE))) (off mod BSIZE) m ! i = file_slice s ip off m ! i"
    using i chunk_split [of off i] by (simp add: get_bytes_def file_slice_def file_byte_def)
qed (simp add: file_slice_def)

lemma slice_append: "file_slice s ip off m @ file_slice s ip (off + m) k = file_slice s ip off (m + k)"
  using upt_add_eq_append [of off "off + m" k] by (simp add: file_slice_def add.assoc flip: map_append)

lemma length_file_slice [simp]: "length (file_slice s ip off n) = n"
  by (simp add: file_slice_def)

lemma fs_chunk_fits: "off mod BSIZE + fs_chunk off n \<le> BSIZE"
proof -
  have "off mod BSIZE < BSIZE" by (simp add: BSIZE_def)
  then show ?thesis by (simp add: fs_chunk_def)
qed

lemma readi_loop_ok:
  fixes s :: "'z kfs_scheme"
  assumes "quiet p s" and "lh_n s < int NBUF" and "i_dev (itable s ip) = ROOTDEV" and "tot \<le> n"
    and "\<And>i. i < n - tot \<Longrightarrow> mapped s ip ((off + i) div BSIZE)"
  shows "\<exists>t. readi_loop ip Local off tot n s = Inr (int n, file_slice s ip off (n - tot), t) \<and> unread p s t"
  using assms
proof (induction "n - tot" arbitrary: off tot s rule: less_induct)
  case less
  show ?case
  proof (cases "tot < n")
    case False
    then show ?thesis using less.prems unread_refl by (simp add: readi_loop.simps [of ip Local] file_slice_def)
  next
    case True
    let ?m = "fs_chunk off (n - tot)"
    have m: "0 < ?m" "?m \<le> n - tot" using True fs_chunk_pos fs_chunk_le by simp_all
    have map: "mapped s ip (off div BSIZE)" using less.prems(5) [of 0] True by simp
    obtain t where t: "bmap ip (off div BSIZE) s = Inr (file_block s ip (off div BSIZE), t)" "unread p s t"
      by (rule bmap_mapped [OF less.prems(1-3) map], rule that)
    note vt = t(2) [unfolded unread_def]
    have pt: "quiet p t" "lh_n t < int NBUF" "i_dev (itable t ip) = ROOTDEV"
      using vt less.prems(2,3) same_op_fs(2) [of s t] by simp_all
    obtain b u v where u: "bread ROOTDEV (file_block s ip (off div BSIZE)) t = Inr (b, u)"
      "b_data (bufs u b) = dview t (file_block s ip (off div BSIZE))" "same_op t u" "brelse b u = Inr v" "unread p t v"
      by (rule bread_brelse [OF pt(1,2)], rule that)
    note sv = unread_trans [OF t(2) u(5)]
    note fv = unread_file [OF sv]
    have pv: "quiet p v" "lh_n v < int NBUF" "i_dev (itable v ip) = ROOTDEV"
      using sv less.prems(2,3) same_op_fs(2) [of s v] by (simp_all add: unread_def)
    have bs: "get_bytes (b_data (bufs u b)) (off mod BSIZE) ?m = file_slice s ip off ?m"
      using slice_chunk [OF fs_chunk_fits] u(2) vt by simp
    have "\<exists>w. readi_loop ip Local (off + ?m) (tot + ?m) n v = Inr (int n, file_slice v ip (off + ?m) (n - (tot + ?m)), w) \<and> unread p v w"
    proof (rule less.hyps [OF _ pv])
      show "n - (tot + ?m) < n - tot" "tot + ?m \<le> n" using m by simp_all
      fix i assume "i < n - (tot + ?m)"
      then show "mapped v ip ((off + ?m + i) div BSIZE)" using less.prems(5) [of "?m + i"] fv(3) by (simp add: add.assoc)
    qed
    then obtain w where w: "readi_loop ip Local (off + ?m) (tot + ?m) n v =
      Inr (int n, file_slice s ip (off + ?m) (n - (tot + ?m)), w)" "unread p v w" using fv(5) by auto
    have "readi_loop ip Local off tot n s = Inr (int n, file_slice s ip off ?m @ file_slice s ip (off + ?m) (n - (tot + ?m)), w)"
      using True t(1) u(1,4) pt(3) w(1) bs by (subst readi_loop.simps) (simp add: Let_def)
    moreover have "file_slice s ip off ?m @ file_slice s ip (off + ?m) (n - (tot + ?m)) = file_slice s ip off (n - tot)"
      using slice_append [of s ip off ?m "n - (tot + ?m)"] m by simp
    ultimately show ?thesis using unread_trans [OF sv w(2)] by auto
  qed
qed

lemma add_wraps: "(a :: u32) + b < a \<longleftrightarrow> \<not> unat a + unat b < 2 ^ 32"
proof (cases "unat a + unat b < 2 ^ 32")
  case True
  then show ?thesis by (simp add: word_less_nat_alt unat_plus_le)
next
  case False
  have "unat a < 2 ^ 32" "unat b < 2 ^ 32" using unat_less_exp [of a] unat_less_exp [of b] by simp_all
  then have "(unat a + unat b) mod 2 ^ 32 = unat a + unat b - 2 ^ 32" using False by (simp add: mod_if)
  then have "unat (a + b) = unat a + unat b - 2 ^ 32" by (simp add: unat_word_ariths)
  then show ?thesis using False \<open>unat b < 2 ^ 32\<close> by (simp add: word_less_nat_alt)
qed

lemma readi_ok:
  fixes s :: "'z kfs_scheme"
  assumes q: "quiet p s" and nb: "lh_n s < int NBUF" and w: "whole s ip"
    and le: "unat off \<le> unat (i_size (itable s ip))" and ov: "unat off + unat n < 2 ^ 32"
  obtains t where "readi ip Local off n s = Inr (int (min (unat n) (unat (i_size (itable s ip)) - unat off)),
      file_slice s ip (unat off) (min (unat n) (unat (i_size (itable s ip)) - unat off)), t)" and "unread p s t"
proof -
  let ?k = "min (unat n) (unat (i_size (itable s ip)) - unat off)"
  have add: "unat (off + n) = unat off + unat n" using ov by (simp add: unat_plus_le)
  have k: "unat (if off + n > i_size (itable s ip) then i_size (itable s ip) - off else n) = ?k"
    using le add by (auto simp: word_less_nat_alt unat_minus_le word_le_nat_alt)
  have "\<exists>t. readi_loop ip Local (unat off) 0 ?k s = Inr (int ?k, file_slice s ip (unat off) (?k - 0), t) \<and> unread p s t"
    by (rule readi_loop_ok [OF q nb]) (use w in \<open>auto simp: whole_def\<close>)
  then obtain t where t: "readi_loop ip Local (unat off) 0 ?k s = Inr (int ?k, file_slice s ip (unat off) ?k, t)" "unread p s t"
    by auto
  have "\<not> (off > i_size (itable s ip) \<or> off + n < off)" using le ov add_wraps by (simp add: word_less_nat_alt)
  then show ?thesis using k t by (intro that [of t]) (simp_all add: readi_def Let_def)
qed

text \<open>
  C4. \<^verbatim>\<open>readi\<close> into a kernel buffer returns exactly the bytes of the file from the offset on, as many as were
  asked for or as there are up to the end of the file; it returns nothing when the offset is past the end or the
  request overflows 32 bits. The file may use direct and indirect blocks. Reading changes neither the disk nor the
  transaction nor the file system.
\<close>

theorem readi_exact:
  fixes s :: "'z kfs_scheme"
  assumes q: "quiet p s" and nb: "lh_n s < int NBUF" and w: "whole s ip"
  defines "sz \<equiv> unat (i_size (itable s ip))"
  shows "\<exists>bs t. readi ip Local off n s = Inr (int (length bs), bs, t) \<and> unread p s t \<and>
    bs = (if unat off \<le> sz \<and> unat off + unat n < 2 ^ 32 then file_slice s ip (unat off) (min (unat n) (sz - unat off)) else [])"
proof (cases "unat off \<le> sz \<and> unat off + unat n < 2 ^ 32")
  case False
  then have "readi ip Local off n s = Inr (0, [], s)"
    using add_wraps [of off n] by (auto simp: readi_def Let_def sz_def word_less_nat_alt)
  then show ?thesis using False unread_refl [OF q] by auto
next
  case True
  then obtain t where "readi ip Local off n s = Inr (int (min (unat n) (sz - unat off)),
      file_slice s ip (unat off) (min (unat n) (sz - unat off)), t)" "unread p s t"
    using readi_ok [OF q nb w] unfolding sz_def by blast
  then show ?thesis using True by auto
qed

subsection \<open>An example\<close>

lemma kfs_ex_whole: "whole kfs_ex 0"
  by (auto simp: whole_def mapped_def file_block_def kfs_ex fs_file_def BSIZE_def NDIRECT_def MAXFILE_def)

theorem readi_exact_witness:
  "\<exists>t. readi 0 Local 2 10 kfs_ex = Inr (3, file_slice kfs_ex 0 2 3, t) \<and> disk t = disk kfs_ex"
proof -
  have "lh_n kfs_ex < int NBUF" using kfs_ex(3) by simp
  from readi_exact [OF kfs_ex(1) this kfs_ex_whole, of 2 10] show ?thesis
    by (auto simp: kfs_ex fs_file_def unread_def)
qed

end
