(* ===== verification/File_Write.thy ===== *)
theory File_Write
  imports File_Content
begin

section \<open>Writing a file\<close>

text \<open>
  \<^verbatim>\<open>writei\<close> over blocks that the file already has: the bytes it changes, the blocks it leaves alone and the
  logged blocks it needs.
\<close>

subsection \<open>Files whose blocks do not overlap\<close>

text \<open>The blocks of a file are different from each other, from its indirect block and from the block of its inode.\<close>

definition separate :: "'z kfs_scheme \<Rightarrow> nat \<Rightarrow> bool" where
  "separate s ip \<longleftrightarrow> inj_on (file_block s ip) {bn. mapped s ip bn} \<and>
     (\<forall>bn. mapped s ip bn \<longrightarrow> file_block s ip bn \<noteq> i_addrs (itable s ip) ! NDIRECT \<and>
        file_block s ip bn \<noteq> IBLOCK (i_inum (itable s ip)) (sb s)) \<and>
     i_addrs (itable s ip) ! NDIRECT \<noteq> IBLOCK (i_inum (itable s ip)) (sb s)"

text \<open>\<open>written s t ip off bs\<close>: the file at \<open>t\<close> is the one at \<open>s\<close> with \<open>bs\<close> at offset \<open>off\<close>.\<close>

definition written :: "'z kfs_scheme \<Rightarrow> 'z kfs_scheme \<Rightarrow> nat \<Rightarrow> nat \<Rightarrow> u8 list \<Rightarrow> bool" where
  "written s t ip off bs \<longleftrightarrow> file_block t ip = file_block s ip \<and>
     (\<forall>a. mapped s ip (a div BSIZE) \<longrightarrow>
        file_byte t ip a = (if off \<le> a \<and> a < off + length bs then bs ! (a - off) else file_byte s ip a))"

lemma written_refl: "written s s ip off []"
  by (auto simp: written_def)

lemma written_mapped: "written s t ip off bs \<Longrightarrow> itable t = itable s \<Longrightarrow> mapped t ip = mapped s ip"
  by (simp add: written_def mapped_def fun_eq_iff)

lemma written_separate:
  "written s t ip off bs \<Longrightarrow> itable t = itable s \<Longrightarrow> sb t = sb s \<Longrightarrow> separate t ip \<longleftrightarrow> separate s ip"
  using written_mapped [of s t ip off bs] by (simp add: separate_def written_def)

lemma written_trans:
  assumes "written s t ip off bs" and "written t u ip (off + length bs) cs" and "itable t = itable s"
  shows "written s u ip off (bs @ cs)"
  using assms written_mapped [OF assms(1,3)] by (auto simp: written_def nth_append)

lemma written_chunk:
  fixes s t :: "'z kfs_scheme"
  assumes v: "dview t = (dview s)(file_block s ip (off div BSIZE) := put_bytes (off mod BSIZE) bs (dview s (file_block s ip (off div BSIZE))))"
    and i: "itable t = itable s" and sep: "separate s ip" and m: "mapped s ip (off div BSIZE)"
    and fit: "off mod BSIZE + length bs \<le> BSIZE"
  shows "written s t ip off bs"
proof -
  let ?B = "file_block s ip (off div BSIZE)"
  have ne: "?B \<noteq> i_addrs (itable s ip) ! NDIRECT" using sep m by (auto simp: separate_def)
  then have "dview t (i_addrs (itable s ip) ! NDIRECT) = dview s (i_addrs (itable s ip) ! NDIRECT)" using v by simp
  then have fb: "file_block t ip = file_block s ip" using i by (intro ext) (simp add: file_block_def)
  have "file_byte t ip a = (if off \<le> a \<and> a < off + length bs then bs ! (a - off) else file_byte s ip a)"
    if a: "mapped s ip (a div BSIZE)" for a
  proof (cases "a div BSIZE = off div BSIZE")
    case True
    have e: "a = off div BSIZE * BSIZE + a mod BSIZE" "off = off div BSIZE * BSIZE + off mod BSIZE"
      using True div_mult_mod_eq [of a BSIZE] div_mult_mod_eq [of off BSIZE] by simp_all
    then have "off \<le> a \<longleftrightarrow> off mod BSIZE \<le> a mod BSIZE" "a < off + length bs \<longleftrightarrow> a mod BSIZE < off mod BSIZE + length bs"
      "a - off = a mod BSIZE - off mod BSIZE" by linarith+
    then show ?thesis using True v by (simp add: file_byte_def fb put_bytes_def)
  next
    case False
    then have "file_block s ip (a div BSIZE) \<noteq> ?B" using sep a m by (auto simp: separate_def inj_on_def)
    moreover have "\<not> (off \<le> a \<and> a < off + length bs)"
    proof
      assume "off \<le> a \<and> a < off + length bs"
      then have "off + (a - off) = a" "a - off < length bs" by auto
      moreover from this(2) have "off mod BSIZE + (a - off) < BSIZE" using fit by linarith
      ultimately show False using False chunk_split(1) [of off "a - off"] by simp
    qed
    ultimately show ?thesis using v by (auto simp: file_byte_def fb)
  qed
  then show ?thesis using fb by (simp add: written_def)
qed

subsection \<open>The loop\<close>

text \<open>Room in the log for \<open>k\<close> more blocks.\<close>

definition log_rooms :: "nat \<Rightarrow> 'z klog_scheme \<Rightarrow> bool" where
  "log_rooms k s \<longleftrightarrow> lh_n s + int k < int LOGSIZE \<and> lh_n s + int k < log_size s - 1 \<and> 1 \<le> log_outstanding s"

lemma log_rooms_room: "log_rooms k s \<Longrightarrow> log_room s" and log_rooms_NBUF: "log_rooms k s \<Longrightarrow> lh_n s < int NBUF"
  by (auto simp: log_rooms_def log_room_def NBUF_def LOGSIZE_def)

lemma log_rooms_step: "log_rooms (Suc k) s \<Longrightarrow> same_op s t \<Longrightarrow> lh_n t \<le> lh_n s + 1 \<Longrightarrow> log_rooms k t"
  using same_op_fields [of s t] by (simp add: log_rooms_def)

lemma write_block:
  fixes s :: "'z kfs_scheme"
  assumes q: "quiet p s" and room: "log_room s" and dev: "i_dev (itable s ip) = ROOTDEV" and m: "mapped s ip bn"
  obtains t b u v w where "bmap ip bn s = Inr (file_block s ip bn, t)" and "i_dev (itable t ip) = ROOTDEV"
    and "bread ROOTDEV (file_block s ip bn) t = Inr (b, u)"
    and "log_write b (set_data b f u) = Inr v" and "brelse b v = Inr w" and "quiet p w" and "same_op s w"
    and "dview w = (dview s)(file_block s ip bn := f (dview s (file_block s ip bn)))" and "disk w = disk s"
    and "lh_n w \<le> lh_n s + 1" and "log_homes w = log_add (file_block s ip bn) (log_homes s)"
proof -
  let ?B = "file_block s ip bn"
  have nb: "lh_n s < int NBUF" using room by (simp add: log_room_def NBUF_def LOGSIZE_def)
  obtain t where t: "bmap ip bn s = Inr (?B, t)" "unread p s t" by (rule bmap_mapped [OF q nb dev m], rule that)
  have st: "quiet p t" "same_op s t" "dview t = dview s" "disk t = disk s" "lh_n t = lh_n s" "log_homes t = log_homes s"
    using t(2) by (simp_all add: unread_def)
  have rt: "log_room t" "lh_n t < int NBUF" using room nb st(5) same_op_fields [OF st(2)] by (simp_all add: log_room_def)
  obtain b u where u: "bread ROOTDEV ?B t = Inr (b, u)" "reading p ?B b t u" "same_op t u"
    by (rule bread_quiet [OF st(1) rt(2), of ?B], rule that)
  obtain v w where w: "log_write b (set_data b f u) = Inr v" "brelse b v = Inr w" "quiet p w" "same_op u w"
    "dview w = (dview t)(?B := f (dview t ?B))" "disk w = disk t"
    "lh_n w = int (length (log_add ?B (log_homes t)))" "log_homes w = log_add ?B (log_homes t)"
    by (rule log_modify [OF st(1) rt(1) u(2,3)], rule that)
  have "0 \<le> lh_n t" using st(1) by (simp add: quiet_def)
  then have "lh_n w \<le> lh_n s + 1" using w(7) st(5) length_log_add [of ?B "log_homes t"] by (simp add: log_homes_def)
  then show ?thesis
    using that [OF t(1) _ u(1) w(1-3)] same_op_trans [OF same_op_trans [OF st(2) u(3)] w(4)] w(5,6,8) st(3,4,6) dev same_op_fs(2) [OF st(2)]
    by simp
qed

text \<open>The number of blocks that \<open>n\<close> bytes at offset \<open>off\<close> touch.\<close>

definition touched :: "nat \<Rightarrow> nat \<Rightarrow> nat" where
  "touched off n = (if n = 0 then 0 else (off mod BSIZE + n + BSIZE - 1) div BSIZE)"

lemma touched_step:
  assumes "0 < n"
  shows "touched off n = Suc (touched (off + fs_chunk off n) (n - fs_chunk off n))"
proof -
  have lt: "off mod BSIZE < BSIZE" by (simp add: BSIZE_def)
  show ?thesis
  proof (cases "off mod BSIZE + n \<le> BSIZE")
    case True
    then have "fs_chunk off n = n" by (simp add: fs_chunk_def)
    moreover have "(off mod BSIZE + n + BSIZE - 1) div BSIZE = 1"
      using True assms by (intro div_nat_eqI) (simp_all add: BSIZE_def)
    ultimately show ?thesis using assms by (simp add: touched_def)
  next
    case False
    then have c: "fs_chunk off n = BSIZE - off mod BSIZE" by (simp add: fs_chunk_def)
    have "off + fs_chunk off n = off div BSIZE * BSIZE + BSIZE"
      using lt div_mult_mod_eq [of off BSIZE] unfolding c by linarith
    then have "(off + fs_chunk off n) mod BSIZE = 0" by simp
    moreover have "off mod BSIZE + n + BSIZE - 1 = (n - fs_chunk off n + BSIZE - 1) + BSIZE" using False lt c by simp
    then have "(off mod BSIZE + n + BSIZE - 1) div BSIZE = Suc ((n - fs_chunk off n + BSIZE - 1) div BSIZE)"
      by (simp add: BSIZE_def)
    ultimately show ?thesis using False lt c assms by (simp add: touched_def)
  qed
qed

text \<open>Those blocks, in order.\<close>

definition touched_blocks :: "'z kfs_scheme \<Rightarrow> nat \<Rightarrow> nat \<Rightarrow> nat \<Rightarrow> u32 list" where
  "touched_blocks s ip off n = map (\<lambda>i. file_block s ip (off div BSIZE + i)) [0..<touched off n]"

lemma touched_blocks_step:
  assumes "0 < n" and "file_block t ip = file_block s ip"
  shows "touched_blocks s ip off n = file_block s ip (off div BSIZE) # touched_blocks t ip (off + fs_chunk off n) (n - fs_chunk off n)"
proof (cases "n = fs_chunk off n")
  case True
  then have "touched off n = 1" using touched_step [OF assms(1), of off] by (simp add: touched_def)
  then show ?thesis unfolding True [symmetric] by (simp add: touched_blocks_def touched_def)
next
  case False
  then have c: "fs_chunk off n = BSIZE - off mod BSIZE" by (auto simp: fs_chunk_def)
  have "off mod BSIZE < BSIZE" by (simp add: BSIZE_def)
  then have "off + fs_chunk off n = Suc (off div BSIZE) * BSIZE" using div_mult_mod_eq [of off BSIZE] unfolding c mult_Suc by linarith
  then have d: "(off + fs_chunk off n) div BSIZE = Suc (off div BSIZE)" by (simp add: BSIZE_def)
  show ?thesis unfolding touched_blocks_def touched_step [OF assms(1)] d assms(2)
    by (simp add: upt_conv_Cons map_Suc_upt [symmetric] del: upt_Suc)
qed

lemma writei_loop_ok:
  fixes s :: "'z kfs_scheme"
  assumes "quiet p s" and "log_rooms (touched off (n - tot)) s" and "i_dev (itable s ip) = ROOTDEV" and "separate s ip"
    and "tot \<le> n" and "n - tot \<le> length loc" and "\<And>i. i < n - tot \<Longrightarrow> mapped s ip ((off + i) div BSIZE)"
  shows "\<exists>t. writei_loop ip Local loc off tot n s = Inr (n, off + (n - tot), t) \<and> quiet p t \<and> same_op s t \<and>
    disk t = disk s \<and> lh_n t \<le> lh_n s + int (touched off (n - tot)) \<and> written s t ip off (take (n - tot) loc) \<and>
    log_homes t = fold log_add (touched_blocks s ip off (n - tot)) (log_homes s)"
  using assms
proof (induction "n - tot" arbitrary: off tot loc s rule: less_induct)
  case less
  show ?case
  proof (cases "tot < n")
    case False
    then show ?thesis using less.prems written_refl by (subst writei_loop.simps) (simp add: touched_def touched_blocks_def)
  next
    case True
    let ?m = "fs_chunk off (n - tot)" and ?B = "file_block s ip (off div BSIZE)"
    have m: "0 < ?m" "?m \<le> n - tot" using True fs_chunk_pos fs_chunk_le by simp_all
    have map: "mapped s ip (off div BSIZE)" using less.prems(7) [of 0] True by simp
    have k: "touched off (n - tot) = Suc (touched (off + ?m) (n - (tot + ?m)))" using touched_step [of "n - tot" off] True by simp
    obtain t b u v w where t: "bmap ip (off div BSIZE) s = Inr (?B, t)" "i_dev (itable t ip) = ROOTDEV" "bread ROOTDEV ?B t = Inr (b, u)"
      "log_write b (set_data b (put_bytes (off mod BSIZE) (take ?m loc)) u) = Inr v" "brelse b v = Inr w" "quiet p w" "same_op s w"
      "dview w = (dview s)(?B := put_bytes (off mod BSIZE) (take ?m loc) (dview s ?B))" "disk w = disk s" "lh_n w \<le> lh_n s + 1"
      "log_homes w = log_add ?B (log_homes s)"
      by (rule write_block [OF less.prems(1) log_rooms_room [OF less.prems(2)] less.prems(3) map], rule that)
    note fs = same_op_fs [OF t(7)]
    have len: "length (take ?m loc) = ?m" using m less.prems(6) by simp
    have wr: "written s w ip off (take ?m loc)"
      by (rule written_chunk [OF t(8) fs(2) less.prems(4) map]) (use len fs_chunk_fits in simp)
    have "\<exists>x. writei_loop ip Local (drop ?m loc) (off + ?m) (tot + ?m) n w = Inr (n, off + ?m + (n - (tot + ?m)), x) \<and>
      quiet p x \<and> same_op w x \<and> disk x = disk w \<and> lh_n x \<le> lh_n w + int (touched (off + ?m) (n - (tot + ?m))) \<and>
      written w x ip (off + ?m) (take (n - (tot + ?m)) (drop ?m loc)) \<and>
      log_homes x = fold log_add (touched_blocks w ip (off + ?m) (n - (tot + ?m))) (log_homes w)"
    proof (rule less.hyps)
      show "n - (tot + ?m) < n - tot" "tot + ?m \<le> n" "n - (tot + ?m) \<le> length (drop ?m loc)" using m less.prems(6) by simp_all
      show "quiet p w" by (rule t(6))
      show "log_rooms (touched (off + ?m) (n - (tot + ?m))) w" using log_rooms_step [OF _ t(7,10)] less.prems(2) k by simp
      show "i_dev (itable w ip) = ROOTDEV" using fs(2) less.prems(3) by simp
      show "separate w ip" using written_separate [OF wr fs(2,1)] less.prems(4) by simp
      fix i assume "i < n - (tot + ?m)"
      then show "mapped w ip ((off + ?m + i) div BSIZE)"
        using less.prems(7) [of "?m + i"] written_mapped [OF wr fs(2)] by (simp add: add.assoc)
    qed
    then obtain x where x: "writei_loop ip Local (drop ?m loc) (off + ?m) (tot + ?m) n w = Inr (n, off + ?m + (n - (tot + ?m)), x)"
      "quiet p x" "same_op w x" "disk x = disk w" "lh_n x \<le> lh_n w + int (touched (off + ?m) (n - (tot + ?m)))"
      "written w x ip (off + ?m) (take (n - (tot + ?m)) (drop ?m loc))"
      "log_homes x = fold log_add (touched_blocks w ip (off + ?m) (n - (tot + ?m))) (log_homes w)" by auto
    have lg: "log_homes x = fold log_add (touched_blocks s ip off (n - tot)) (log_homes s)"
      using touched_blocks_step [of "n - tot" w ip s off] True wr x(7) t(11) by (simp add: written_def)
    have tk: "take ?m loc @ take (n - (tot + ?m)) (drop ?m loc) = take (n - tot) loc"
      using m by (simp add: take_add [symmetric])
    have "written s x ip off (take ?m loc @ take (n - (tot + ?m)) (drop ?m loc))"
      by (rule written_trans [OF wr _ fs(2)]) (use x(6) in \<open>simp only: len\<close>)
    then have "written s x ip off (take (n - tot) loc)" unfolding tk .
    moreover have "writei_loop ip Local loc off tot n s = Inr (n, off + (n - tot), x)"
      using True t(1-5) x(1) m by (subst writei_loop.simps) (simp add: Let_def)
    moreover have "same_op s x" by (rule same_op_trans [OF t(7) x(3)])
    ultimately show ?thesis using x(2,4,5) t(9,10) k lg by simp
  qed
qed

subsection \<open>\<^verbatim>\<open>writei\<close>\<close>

lemma unat_u32_max: "m < 2 ^ 32 \<Longrightarrow> unat (of_nat m :: u32) = m"
  by (rule unat_of_nat_32) simp

text \<open>After the loop: the size grows to the end of what was written, and \<^verbatim>\<open>iupdate\<close> does not touch the file's blocks.\<close>

lemma writei_ok:
  fixes s :: "'z kfs_scheme"
  assumes q: "quiet p s" and room: "log_rooms (Suc (touched (unat off) (length loc))) s" and dev: "i_dev (itable s ip) = ROOTDEV"
    and sep: "separate s ip" and n: "unat n = length loc" and off: "off \<le> i_size (itable s ip)"
    and fits: "unat off + length loc \<le> MAXFILE * BSIZE"
    and blocks: "\<And>a. a < unat off + length loc \<Longrightarrow> mapped s ip (a div BSIZE)"
  obtains t where "writei ip Local loc off n s = Inr (int (length loc), t)" and "quiet p t" and "disk t = disk s"
    and "written s t ip (unat off) loc" and "lh_n t < int NBUF"
    and "log_homes t = fold log_add (touched_blocks s ip (unat off) (length loc) @ [IBLOCK (i_inum (itable s ip)) (sb s)]) (log_homes s)"
    and "itable t = (itable s)(ip := (itable s ip)\<lparr>i_size := of_nat (max (unat (i_size (itable s ip))) (unat off + length loc))\<rparr>)"
proof -
  let ?q = "itable s ip" and ?e = "unat off + length loc" and ?K = "touched (unat off) (length loc)"
  let ?N = "of_nat (max (unat (i_size ?q)) ?e) :: u32"
  have e32: "?e < 2 ^ 32" using fits by (simp add: MAXFILE_def NDIRECT_def NINDIRECT_def BSIZE_def)
  have on: "unat (off + n) = ?e" using n e32 by (simp add: unat_plus_le)
  have g: "\<not> off > i_size ?q" "\<not> off + n < off" using off n e32 add_wraps [of off n] by simp_all
  have K: "log_rooms ?K s" using room by (simp add: log_rooms_def)
  have "\<exists>t. writei_loop ip Local loc (unat off) 0 (length loc) s = Inr (length loc, unat off + (length loc - 0), t) \<and> quiet p t \<and>
    same_op s t \<and> disk t = disk s \<and> lh_n t \<le> lh_n s + int (touched (unat off) (length loc - 0)) \<and>
    written s t ip (unat off) (take (length loc - 0) loc) \<and>
    log_homes t = fold log_add (touched_blocks s ip (unat off) (length loc - 0)) (log_homes s)"
    by (rule writei_loop_ok [OF q _ dev sep]) (use K blocks in simp_all)
  then obtain t where t: "writei_loop ip Local loc (unat off) 0 (length loc) s = Inr (length loc, ?e, t)" "quiet p t" "same_op s t"
    "disk t = disk s" "lh_n t \<le> lh_n s + int ?K" "written s t ip (unat off) loc"
    "log_homes t = fold log_add (touched_blocks s ip (unat off) (length loc)) (log_homes s)" by auto
  note fs = same_op_fs [OF t(3)] same_op_fields [OF t(3)]
  let ?t = "upd_inode ip (\<lambda>q. q\<lparr>i_size := ?N\<rparr>) t"
  have st: "(if ?e > unat (i_size (itable t ip)) then upd_inode ip (\<lambda>q. q\<lparr>i_size := of_nat ?e\<rparr>) t else t) = ?t"
    using fs(2) by (auto simp: max_def upd_inode_def)
  have "quiet p ?t" "log_room ?t" "i_dev (itable ?t ip) = ROOTDEV"
    using t(2,5) room fs dev by (simp_all add: log_rooms_def log_room_def)
  from iupdate_ok [OF this] obtain u where u: "iupdate ip ?t = Inr u" "quiet p u" "same_op ?t u" "disk u = disk ?t"
    "dview u = (dview ?t)(IBLOCK (i_inum ?q) (sb s) := put_dinode (dinode_off (i_inum ?q)) (itable ?t ip) (dview ?t (IBLOCK (i_inum ?q) (sb s))))"
    "lh_n u \<le> lh_n ?t + 1" "log_homes u = log_add (IBLOCK (i_inum ?q) (sb s)) (log_homes t)" using fs by (auto simp: fun_upd_def)
  note fu = same_op_fs [OF u(3)]
  have wr: "written s u ip (unat off) loc"
  proof -
    have keep: "dview u b = dview t b" if "b \<noteq> IBLOCK (i_inum ?q) (sb s)" for b using that u(5) by simp
    have "dview u (i_addrs ?q ! NDIRECT) = dview t (i_addrs ?q ! NDIRECT)" using sep keep by (simp add: separate_def)
    then have fb: "file_block u ip = file_block t ip" using fs(2) fu(2) by (intro ext) (simp add: file_block_def)
    have "file_byte u ip a = file_byte t ip a" if "mapped s ip (a div BSIZE)" for a
      using that sep keep t(6) by (auto simp: file_byte_def fb separate_def written_def)
    then show ?thesis using t(6) fb by (simp add: written_def)
  qed
  have "writei ip Local loc off n s = Inr (int (length loc), u)"
    using g on fits n t(1) st u(1) by (simp add: writei_def Let_def)
  moreover have "lh_n u < int NBUF" using u(6) t(5) room by (simp add: log_rooms_def NBUF_def LOGSIZE_def)
  moreover have "itable u = (itable s)(ip := ?q\<lparr>i_size := ?N\<rparr>)" using fu(2) fs(2) by (simp add: fun_upd_def upd_inode_def)
  ultimately show ?thesis using u(2,4,7) t(4,7) wr by (intro that [of u]) simp_all
qed

text \<open>
  C5. What \<^verbatim>\<open>writei\<close> wrote, \<^verbatim>\<open>readi\<close> reads. On a file whose blocks are allocated and do not overlap, and with room in the
  log for the blocks it touches and that of the inode, \<^verbatim>\<open>writei\<close> of \<open>loc\<close> at \<open>off\<close> writes it all, sets the size to the
  greater of the old size and the end of the write, and a \<^verbatim>\<open>readi\<close> of the same range returns \<open>loc\<close>; every other byte of
  the file keeps its value. Nothing reaches the disk before the transaction commits; the transaction has, after the blocks it had,
  exactly the blocks that the range touches in order and the block of the inode, each of them once. So the log is charged at most
  one block for each block touched and one for the inode.
\<close>

theorem writei_readi:
  fixes s :: "'z kfs_scheme"
  assumes q: "quiet p s" and room: "log_rooms (Suc (touched (unat off) (length loc))) s" and dev: "i_dev (itable s ip) = ROOTDEV"
    and sep: "separate s ip" and n: "unat n = length loc" and off: "off \<le> i_size (itable s ip)"
    and fits: "unat off + length loc \<le> MAXFILE * BSIZE"
    and blocks: "\<forall>a < max (unat (i_size (itable s ip))) (unat off + length loc). mapped s ip (a div BSIZE)"
  shows "\<exists>t u. writei ip Local loc off n s = Inr (int (length loc), t) \<and> disk t = disk s \<and>
    unat (i_size (itable t ip)) = max (unat (i_size (itable s ip))) (unat off + length loc) \<and>
    readi ip Local off n t = Inr (int (length loc), loc, u) \<and>
    (\<forall>a < unat (i_size (itable s ip)). \<not> (unat off \<le> a \<and> a < unat off + length loc) \<longrightarrow> file_byte t ip a = file_byte s ip a) \<and>
    log_homes t = fold log_add (touched_blocks s ip (unat off) (length loc) @ [IBLOCK (i_inum (itable s ip)) (sb s)]) (log_homes s) \<and>
    lh_n t \<le> lh_n s + int (touched (unat off) (length loc)) + 1"
proof -
  let ?M = "max (unat (i_size (itable s ip))) (unat off + length loc)"
  obtain t where t: "writei ip Local loc off n s = Inr (int (length loc), t)" "quiet p t" "disk t = disk s"
    "written s t ip (unat off) loc" "lh_n t < int NBUF" "itable t = (itable s)(ip := (itable s ip)\<lparr>i_size := of_nat ?M\<rparr>)"
    "log_homes t = fold log_add (touched_blocks s ip (unat off) (length loc) @ [IBLOCK (i_inum (itable s ip)) (sb s)]) (log_homes s)"
    using writei_ok [OF q room dev sep n off fits] blocks by (metis less_max_iff_disj)
  have e32: "unat off + length loc < 2 ^ 32" using fits by (simp add: MAXFILE_def NDIRECT_def NINDIRECT_def BSIZE_def)
  have "?M < 2 ^ 32" using e32 unat_less_exp [of "i_size (itable s ip)"] by simp
  then have sz: "unat (i_size (itable t ip)) = ?M" using t(6) unat_u32_max by simp
  have map: "mapped t ip = mapped s ip" using t(4,6) by (auto simp: mapped_def written_def fun_eq_iff)
  have wh: "whole t ip" using blocks map sz t(6) dev by (simp add: whole_def)
  obtain u where u: "readi ip Local off n t = Inr (int (min (unat n) (unat (i_size (itable t ip)) - unat off)),
      file_slice t ip (unat off) (min (unat n) (unat (i_size (itable t ip)) - unat off)), u)"
    by (rule readi_ok [OF t(2,5) wh, of off n]) (use n sz e32 in simp_all)
  have "min (unat n) (unat (i_size (itable t ip)) - unat off) = length loc" using n sz by simp
  moreover have byte: "file_byte t ip a = (if unat off \<le> a \<and> a < unat off + length loc then loc ! (a - unat off) else file_byte s ip a)"
    if "a < ?M" for a using t(4) blocks that unfolding written_def by blast
  have "file_slice t ip (unat off) (length loc) = loc" by (rule nth_equalityI) (simp_all add: file_slice_def byte)
  ultimately have "readi ip Local off n t = Inr (int (length loc), loc, u)" using u by simp
  moreover have "file_byte t ip a = file_byte s ip a"
    if "a < unat (i_size (itable s ip))" "\<not> (unat off \<le> a \<and> a < unat off + length loc)" for a
    using byte [of a] that by auto
  moreover have "lh_n t \<le> lh_n s + int (touched (unat off) (length loc)) + 1"
    using length_log_adds [of "touched_blocks s ip (unat off) (length loc) @ [IBLOCK (i_inum (itable s ip)) (sb s)]" "log_homes s"]
      t(2) q unfolding t(7) [symmetric] by (simp add: log_homes_def touched_blocks_def quiet_def) linarith
  ultimately show ?thesis using t(1,3,7) sz by blast
qed

subsection \<open>An example\<close>

lemma kfs_ex_mapped: "mapped kfs_ex 0 bn \<longleftrightarrow> bn = 0"
  by (auto simp: mapped_def file_block_def kfs_ex fs_file_def NDIRECT_def MAXFILE_def NINDIRECT_def nth_Cons nth_replicate split: nat.splits)

lemma kfs_ex_separate: "separate kfs_ex 0"
  by (auto simp: separate_def kfs_ex_mapped) (simp_all add: file_block_def kfs_ex fs_file_def NDIRECT_def IBLOCK_def IPB_def fs_sb_def BSIZE_def)

theorem writei_readi_witness:
  "\<exists>t u. writei 0 Local [104, 105, 33] 4 3 kfs_ex = Inr (3, t) \<and> unat (i_size (itable t 0)) = 7 \<and>
    readi 0 Local 4 3 t = Inr (3, [104, 105, 33], u) \<and> lh_n t \<le> lh_n kfs_ex + 2"
proof -
  have "log_rooms (Suc (touched (unat (4 :: u32)) (length [104 :: u8, 105, 33]))) kfs_ex"
    by (simp add: log_rooms_def touched_def BSIZE_def kfs_ex_def kfs_boot LOGSIZE_def MAXOPBLOCKS_def)
  moreover have "\<forall>a < max (unat (i_size (itable kfs_ex 0))) (unat (4 :: u32) + length [104 :: u8, 105, 33]). mapped kfs_ex 0 (a div BSIZE)"
    by (simp add: kfs_ex_mapped kfs_ex fs_file_def BSIZE_def)
  moreover have "i_dev (itable kfs_ex 0) = ROOTDEV" "i_size (itable kfs_ex 0) = 5" by (simp_all add: kfs_ex fs_file_def)
  ultimately show ?thesis
    using writei_readi [OF kfs_ex(1) _ _ kfs_ex_separate, of 4 "[104, 105, 33]" 3] by (auto simp: MAXFILE_def BSIZE_def NDIRECT_def touched_def)
qed

end
