(* ===== verification/Dir_Lookup.thy ===== *)
theory Dir_Lookup
  imports File_Content
begin

section \<open>Looking up names\<close>

text \<open>
  What \<^verbatim>\<open>dirlookup\<close> finds, in terms of the entries of the directory, and what the elements of a path are.
\<close>

subsection \<open>\<^verbatim>\<open>dirlookup\<close>\<close>

definition dirent_at :: "'z kfs_scheme \<Rightarrow> nat \<Rightarrow> nat \<Rightarrow> u8 list" where
  "dirent_at s dp k = file_slice s dp (16 * k) 16"

definition dir_inum :: "'z kfs_scheme \<Rightarrow> nat \<Rightarrow> nat \<Rightarrow> u32" where
  "dir_inum s dp k = ucast (de_inum (dirent_at s dp k))"

definition dir_name :: "'z kfs_scheme \<Rightarrow> nat \<Rightarrow> nat \<Rightarrow> u8 list" where
  "dir_name s dp k = cstr (de_name (dirent_at s dp k)) DIRSIZ"

definition names :: "'z kfs_scheme \<Rightarrow> nat \<Rightarrow> (nat \<Rightarrow> u8) \<Rightarrow> nat \<Rightarrow> bool" where
  "names s dp name k \<longleftrightarrow> de_inum (dirent_at s dp k) \<noteq> 0 \<and> dir_name s dp k = cstr name DIRSIZ"

lemma unread_dir:
  assumes "unread p s t"
  shows "dirent_at t = dirent_at s" "names t = names s" "dir_inum t = dir_inum s"
  using unread_file(5) [OF assms] by (simp_all add: dirent_at_def names_def dir_name_def dir_inum_def fun_eq_iff)

lemma readi_dirent:
  fixes s :: "'z kfs_scheme"
  assumes q: "quiet p s" and nb: "lh_n s < int NBUF" and w: "whole s dp" and k: "16 * k + 16 \<le> unat (i_size (itable s dp))"
  obtains t where "readi dp Local (of_nat (16 * k)) 16 s = Inr (16, dirent_at s dp k, t)" and "unread p s t"
proof -
  let ?o = "of_nat (16 * k) :: u32"
  have lt: "unat (i_size (itable s dp)) < 2 ^ 32" using unat_less_exp [of "i_size (itable s dp)"] by simp
  have o: "unat ?o = 16 * k" using k lt by (intro unat_of_nat_32) simp
  have le: "unat ?o \<le> unat (i_size (itable s dp))" "unat ?o + unat (16 :: u32) < 2 ^ 32" using o k lt by simp_all
  obtain t where t: "readi dp Local ?o 16 s = Inr (int (min (unat (16 :: u32)) (unat (i_size (itable s dp)) - unat ?o)),
      file_slice s dp (unat ?o) (min (unat (16 :: u32)) (unat (i_size (itable s dp)) - unat ?o)), t)" "unread p s t"
    by (rule readi_ok [OF q nb w le], rule that)
  moreover have "min (unat (16 :: u32)) (unat (i_size (itable s dp)) - unat ?o) = 16" using o k by simp
  ultimately show ?thesis using o by (intro that [of t]) (simp_all add: dirent_at_def)
qed

lemma dirlookup_loop_ok:
  fixes s :: "'z kfs_scheme"
  assumes "quiet p s" and "lh_n s < int NBUF" and "whole s dp" and "16 * n \<le> unat (i_size (itable s dp))" and "k \<le> n"
  shows "case find (names s dp name) [k..<n] of
      None \<Rightarrow> \<exists>t. dirlookup_loop dp name (16 * k) (16 * n) s = Inr (None, t) \<and> unread p s t
    | Some j \<Rightarrow> \<exists>t. unread p s t \<and> dirlookup_loop dp name (16 * k) (16 * n) s =
        andthen (iget ROOTDEV (dir_inum s dp j) t) (\<lambda>(ip, u). Inr (Some (ip, 16 * j), u))"
  using assms
proof (induction "n - k" arbitrary: k s)
  case 0
  then show ?case using unread_refl by (auto simp: dirlookup_loop.simps [of dp name])
next
  case (Suc m)
  have kn: "k < n" using Suc.hyps(2) by simp
  obtain t where t: "readi dp Local (of_nat (16 * k)) 16 s = Inr (16, dirent_at s dp k, t)" "unread p s t"
    by (rule readi_dirent [OF Suc.prems(1-3), of k]) (use kn Suc.prems(4) in \<open>auto intro: that\<close>)
  note d = unread_dir [OF t(2)]
  have pt: "quiet p t" "lh_n t < int NBUF" "whole t dp" "i_size (itable t dp) = i_size (itable s dp)" "i_dev (itable t dp) = ROOTDEV"
    using t(2) Suc.prems(2,3) unread_file(4) [OF t(2)] same_op_fs(2) [of s t] by (simp_all add: unread_def whole_def)
  have up: "[k..<n] = k # [Suc k..<n]" using kn by (rule upt_conv_Cons)
  have cmp: "namecmp name (de_name (dirent_at s dp k)) = 0 \<longleftrightarrow> dir_name s dp k = cstr name DIRSIZ"
    by (auto simp: namecmp_def strncmp_eq_0_iff dir_name_def)
  show ?case
  proof (cases "names s dp name k")
    case True
    have "dirlookup_loop dp name (16 * k) (16 * n) s = andthen (iget ROOTDEV (dir_inum s dp k) t) (\<lambda>(ip, u). Inr (Some (ip, 16 * k), u))"
      using True kn t(1) cmp pt(5) by (subst dirlookup_loop.simps) (simp add: names_def dir_inum_def)
    then show ?thesis using True t(2) by (auto simp: up)
  next
    case False
    have "dirlookup_loop dp name (16 * k) (16 * n) s = dirlookup_loop dp name (16 * Suc k) (16 * n) t"
      using False kn t(1) cmp by (subst dirlookup_loop.simps) (auto simp: names_def add.commute)
    moreover have "case find (names t dp name) [Suc k..<n] of
      None \<Rightarrow> \<exists>u. dirlookup_loop dp name (16 * Suc k) (16 * n) t = Inr (None, u) \<and> unread p t u
    | Some j \<Rightarrow> \<exists>u. unread p t u \<and> dirlookup_loop dp name (16 * Suc k) (16 * n) t =
        andthen (iget ROOTDEV (dir_inum t dp j) u) (\<lambda>(ip, u). Inr (Some (ip, 16 * j), u))"
      using Suc.hyps(1) [of "Suc k" t] Suc.hyps(2) Suc.prems(4) pt kn by simp
    ultimately show ?thesis using False unread_trans [OF t(2)] by (auto simp: up d split: option.splits)
  qed
qed

text \<open>
  C6. \<^verbatim>\<open>dirlookup\<close> searches the whole directory in order: it returns nothing exactly when no entry in use has the
  name, compared up to its nul and to \<^verbatim>\<open>DIRSIZ\<close> bytes, and otherwise the byte offset of the first such entry and
  what \<^verbatim>\<open>iget\<close> returns for its inode number. The search changes neither the disk nor the transaction.
\<close>

theorem dirlookup_exact:
  fixes s :: "'z kfs_scheme"
  assumes "quiet p s" and "lh_n s < int NBUF" and "whole s dp" and "i_type (itable s dp) = T_DIR"
    and "unat (i_size (itable s dp)) = 16 * n"
  shows "case find (names s dp name) [0..<n] of
      None \<Rightarrow> \<exists>t. dirlookup dp name s = Inr (None, t) \<and> unread p s t
    | Some k \<Rightarrow> \<exists>t. unread p s t \<and>
        dirlookup dp name s = andthen (iget ROOTDEV (dir_inum s dp k) t) (\<lambda>(ip, u). Inr (Some (ip, 16 * k), u))"
proof -
  have e: "dirlookup dp name s = dirlookup_loop dp name (16 * 0) (16 * n) s" using assms(4,5) by (simp add: dirlookup_def)
  show ?thesis unfolding e by (rule dirlookup_loop_ok [OF assms(1-3)]) (simp_all add: assms(5))
qed

subsection \<open>An example\<close>

text \<open>A directory of two entries in block 46: the first is free, the second is the file \<open>a\<close>, inode 7.\<close>

definition dir_block :: block where
  "dir_block = (\<lambda>i. if i = 16 then 7 else if i = 18 then 97 else 0)"

definition kfs_dir :: kfs where
  "kfs_dir = kfs_boot fs_sb (fs_inodes(0 := fs_file\<lparr>i_type := T_DIR, i_size := 32\<rparr>)) (\<lambda>_. dir_block)"

lemma kfs_dir_entry: "k < 2 \<Longrightarrow> dirent_at kfs_dir 0 k = map dir_block [16 * k..<16 * k + 16]"
  by (auto simp: dirent_at_def file_slice_def file_byte_def kfs_dir_def kfs_boot BSIZE_def)

lemma kfs_dir_entries: "dirent_at kfs_dir 0 0 = replicate 16 0" "dirent_at kfs_dir 0 (Suc 0) = [7, 0, 97] @ replicate 13 0"
  using kfs_dir_entry [of 0] kfs_dir_entry [of 1] by (simp_all add: dir_block_def upt_rec numeral_eq_Suc)

theorem dirlookup_exact_witness:
  "\<exists>t. dirlookup 0 (\<lambda>i. if i = 0 then 97 else 0) kfs_dir =
    andthen (iget ROOTDEV 7 t) (\<lambda>(ip, u). Inr (Some (ip, 16), u)) \<and> disk t = disk kfs_dir"
proof -
  let ?n = "\<lambda>i. if i = 0 then 97 else 0 :: u8"
  have "de_inum (dirent_at kfs_dir 0 0) = 0" by (simp add: kfs_dir_entries de_inum_def numeral_eq_Suc)
  moreover have "de_inum (dirent_at kfs_dir 0 (Suc 0)) = 7" by (simp add: kfs_dir_entries de_inum_def)
  moreover have "dir_name kfs_dir 0 (Suc 0) = cstr ?n DIRSIZ"
    by (simp add: dir_name_def kfs_dir_entries de_name_def DIRSIZ_def numeral_eq_Suc)
  ultimately have "find (names kfs_dir 0 ?n) [0..<2] = Some (Suc 0)" "dir_inum kfs_dir 0 (Suc 0) = 7"
    by (simp_all add: names_def dir_inum_def upt_rec)
  moreover have "whole kfs_dir 0"
    by (auto simp: whole_def mapped_def file_block_def kfs_dir_def kfs_boot fs_file_def BSIZE_def NDIRECT_def MAXFILE_def)
  moreover have "quiet 0 kfs_dir" "lh_n kfs_dir < int NBUF" "i_type (itable kfs_dir 0) = T_DIR" "unat (i_size (itable kfs_dir 0)) = 16 * 2"
    by (simp_all add: kfs_dir_def kfs_boot NBUF_def MAXOPBLOCKS_def)
  ultimately show ?thesis using dirlookup_exact [of 0 kfs_dir 0 2 ?n] by (auto simp: unread_def)
qed

end
