(* ===== verification/File.thy ===== *)
theory File
  imports Dir
begin

section \<open>Open files\<close>

text \<open>
  \<^verbatim>\<open>kernel/file.c\<close>, \<^verbatim>\<open>struct file\<close> of \<^verbatim>\<open>kernel/file.h\<close>, and \<^verbatim>\<open>pipealloc\<close> of \<^verbatim>\<open>kernel/pipe.c\<close>. A
  pointer to a file is its index in \<^verbatim>\<open>ftable\<close>. The calls through \<^verbatim>\<open>devsw\<close> go to the console, the only
  driver. A null inode pointer stops in \<^verbatim>\<open>ilock\<close>. \<open>stack_pad\<close> is what the kernel stack holds in the bytes of a local structure that no
  assignment sets (the compiler's padding).
\<close>

datatype ftype = FD_NONE | FD_PIPE | FD_INODE | FD_DEVICE

record open_file =
  f_type :: ftype
  f_ref :: int
  f_readable :: bool
  f_writable :: bool
  f_pipe :: u64
  f_ip :: "nat option"
  f_off :: u32
  f_major :: u16

record kfile = kfs +
  ftable :: "nat \<Rightarrow> open_file"
  stack_pad :: "u8 list"

definition upd_file :: "nat \<Rightarrow> (open_file \<Rightarrow> open_file) \<Rightarrow> 'z kfile_scheme \<Rightarrow> 'z kfile_scheme" where
  "upd_file f g s = s\<lparr>ftable := (ftable s)(f := g (ftable s f))\<rparr>"

definition filealloc :: "'z kfile_scheme \<Rightarrow> ('z kfile_scheme, nat option \<times> 'z kfile_scheme) res" where
  "filealloc s =
     andthen (acquire_lk FtableLock s) (\<lambda>s.
     case find (\<lambda>f. f_ref (ftable s f) = 0) [0..<NFILE] of
       Some f \<Rightarrow>
         andthen (release_lk FtableLock (upd_file f (\<lambda>q. q\<lparr>f_ref := 1\<rparr>) s)) (\<lambda>s. Inr (Some f, s))
     | None \<Rightarrow> andthen (release_lk FtableLock s) (\<lambda>s. Inr (None, s)))"

definition filedup :: "nat \<Rightarrow> 'z kfile_scheme \<Rightarrow> ('z kfile_scheme, nat \<times> 'z kfile_scheme) res" where
  "filedup f s =
     andthen (acquire_lk FtableLock s) (\<lambda>s.
     if f_ref (ftable s f) < 1 then Inl (Panic ''filedup'')
     else andthen (release_lk FtableLock (upd_file f (\<lambda>q. q\<lparr>f_ref := f_ref q + 1\<rparr>) s)) (\<lambda>s. Inr (f, s)))"

text \<open>\<^verbatim>\<open>iput(ip)\<close> in a transaction of its own; a null pointer faults.\<close>

definition iput_op :: "nat option \<Rightarrow> 'z kfile_scheme \<Rightarrow> ('z kfile_scheme, 'z kfile_scheme) res" where
  "iput_op ip s =
     andthen (begin_op s) (\<lambda>s.
     andthen (case ip of None \<Rightarrow> Inl Fault | Some ip \<Rightarrow> iput ip s) end_op)"

definition fileclose :: "nat \<Rightarrow> 'z kfile_scheme \<Rightarrow> ('z kfile_scheme, 'z kfile_scheme) res" where
  "fileclose f s =
     andthen (acquire_lk FtableLock s) (\<lambda>s.
     if f_ref (ftable s f) < 1 then Inl (Panic ''fileclose'')
     else
       (let s = upd_file f (\<lambda>q. q\<lparr>f_ref := f_ref q - 1\<rparr>) s in
        if f_ref (ftable s f) > 0 then release_lk FtableLock s
        else
          (let ff = ftable s f in
           andthen (release_lk FtableLock (upd_file f (\<lambda>q. q\<lparr>f_ref := 0, f_type := FD_NONE\<rparr>) s)) (\<lambda>s.
           if f_type ff = FD_PIPE then pipeclose (f_pipe ff) (f_writable ff) s
           else if f_type ff = FD_INODE \<or> f_type ff = FD_DEVICE then iput_op (f_ip ff) s
           else Inr s))))"

text \<open>\<^verbatim>\<open>struct stat\<close> in memory: four bytes of padding come before the size.\<close>

definition stat_bytes :: "u8 list \<Rightarrow> stat \<Rightarrow> u8 list" where
  "stat_bytes pad st = le_bytes 4 (st_dev st) @ le_bytes 4 (st_ino st) @ le_bytes 2 (st_type st) @
     le_bytes 2 (st_nlink st) @ take 4 pad @ le_bytes 8 (st_size st)"

definition filestat :: "nat \<Rightarrow> u64 \<Rightarrow> 'z kfile_scheme \<Rightarrow> ('z kfile_scheme, int \<times> 'z kfile_scheme) res" where
  "filestat f addr s = with_proc s (\<lambda>p.
     if f_type (ftable s f) = FD_INODE \<or> f_type (ftable s f) = FD_DEVICE then
       (let ip = f_ip (ftable s f) in
        andthen (ilock ip s) (\<lambda>s.
        let st = stati (the ip) s in
        andthen (iunlock ip s) (\<lambda>s.
        andthen (copyout (p_pagetable (procs s p)) addr (stat_bytes (stack_pad s) st) s) (\<lambda>(r, s).
        if r < 0 then Inr (-1, s) else Inr (0, s)))))
     else Inr (-1, s))"

definition has_driver :: "u16 \<Rightarrow> 'z kfile_scheme \<Rightarrow> bool" where
  "has_driver major s \<longleftrightarrow> 0 \<le> sint major \<and> sint major < int NDEV \<and> devsw s (unat major) \<noteq> None"

text \<open>\<^verbatim>\<open>readi(f->ip, 1, addr, f->off, n)\<close> and the advance of the offset; \<^verbatim>\<open>n\<close> becomes a \<^verbatim>\<open>uint\<close>.\<close>

definition fileread :: "nat \<Rightarrow> u64 \<Rightarrow> int \<Rightarrow> 'z kfile_scheme \<Rightarrow> ('z kfile_scheme, int \<times> 'z kfile_scheme) res" where
  "fileread f addr n s =
     (let q = ftable s f in
      if \<not> f_readable q then Inr (-1, s)
      else case f_type q of
        FD_PIPE \<Rightarrow> piperead (f_pipe q) addr n s
      | FD_DEVICE \<Rightarrow>
          if \<not> has_driver (f_major q) s then Inr (-1, s)
          else consoleread (UserAddr addr) n s
      | FD_INODE \<Rightarrow>
          andthen (ilock (f_ip q) s) (\<lambda>s.
          andthen (readi (the (f_ip q)) (UserAddr addr) (f_off (ftable s f)) (of_int n) s) (\<lambda>(r, _, s).
          let s = (if r > 0 then upd_file f (\<lambda>q. q\<lparr>f_off := f_off q + of_int r\<rparr>) s else s) in
          andthen (iunlock (f_ip q) s) (\<lambda>s. Inr (r, s))))
      | FD_NONE \<Rightarrow> Inl (Panic ''fileread''))"

text \<open>
  The loop of \<^verbatim>\<open>filewrite\<close>: each pass is a transaction of its own, of at most \<^verbatim>\<open>max\<close> bytes. The result
  is \<^verbatim>\<open>i\<close> at the end of the loop.
\<close>

definition filewrite_max :: int where
  "filewrite_max = int ((MAXOPBLOCKS - 1 - 1 - 2) div 2 * BSIZE)"

lemma filewrite_max_pos: "0 < filewrite_max"
  by (simp add: filewrite_max_def MAXOPBLOCKS_def BSIZE_def)

function filewrite_loop ::
    "nat \<Rightarrow> nat option \<Rightarrow> u64 \<Rightarrow> int \<Rightarrow> int \<Rightarrow> 'z kfile_scheme \<Rightarrow> ('z kfile_scheme, int \<times> 'z kfile_scheme) res" where
  "filewrite_loop f ip addr n i s =
     (if i < n then
        (let n1 = min (n - i) filewrite_max in
         andthen (begin_op s) (\<lambda>s.
         andthen (ilock ip s) (\<lambda>s.
         andthen (writei (the ip) (UserAddr (addr + of_int i)) [] (f_off (ftable s f)) (of_int n1) s) (\<lambda>(r, s).
         let s = (if r > 0 then upd_file f (\<lambda>q. q\<lparr>f_off := f_off q + of_int r\<rparr>) s else s) in
         andthen (iunlock ip s) (\<lambda>s.
         andthen (end_op s) (\<lambda>s.
         if r \<noteq> n1 then Inr (i, s) else filewrite_loop f ip addr n (i + r) s))))))
      else Inr (i, s))"
  by pat_completeness auto
termination
  by (relation "measure (\<lambda>(_, _, _, n, i, _). nat (n - i))") (use filewrite_max_pos in auto)

declare filewrite_loop.simps [simp del]

definition filewrite :: "nat \<Rightarrow> u64 \<Rightarrow> int \<Rightarrow> 'z kfile_scheme \<Rightarrow> ('z kfile_scheme, int \<times> 'z kfile_scheme) res" where
  "filewrite f addr n s =
     (let q = ftable s f in
      if \<not> f_writable q then Inr (-1, s)
      else case f_type q of
        FD_PIPE \<Rightarrow> pipewrite (f_pipe q) addr n s
      | FD_DEVICE \<Rightarrow>
          if \<not> has_driver (f_major q) s then Inr (-1, s)
          else consolewrite (UserAddr addr) n s
      | FD_INODE \<Rightarrow>
          andthen (filewrite_loop f (f_ip q) addr n 0 s) (\<lambda>(i, s). Inr (if i = n then n else -1, s))
      | FD_NONE \<Rightarrow> Inl (Panic ''filewrite''))"

subsection \<open>Pipes as files\<close>

definition close_opt :: "nat option \<Rightarrow> 'z kfile_scheme \<Rightarrow> ('z kfile_scheme, 'z kfile_scheme) res" where
  "close_opt f s = (case f of None \<Rightarrow> Inr s | Some f \<Rightarrow> fileclose f s)"

definition pipealloc :: "'z kfile_scheme \<Rightarrow> ('z kfile_scheme, (nat \<times> nat) option \<times> 'z kfile_scheme) res" where
  "pipealloc s =
     andthen (filealloc s) (\<lambda>(f0, s).
     case f0 of
       None \<Rightarrow> Inr (None, s)
     | Some a \<Rightarrow>
         andthen (filealloc s) (\<lambda>(f1, s).
         case f1 of
           None \<Rightarrow> andthen (close_opt f0 s) (\<lambda>s. Inr (None, s))
         | Some b \<Rightarrow>
             andthen (kalloc s) (\<lambda>(pi, s).
             if pi = 0 then
               andthen (close_opt f0 s) (\<lambda>s. andthen (close_opt f1 s) (\<lambda>s. Inr (None, s)))
             else
               (let s = upd_pipe pi (\<lambda>p. p\<lparr>pi_readopen := True, pi_writeopen := True, pi_nwrite := 0, pi_nread := 0\<rparr>) s;
                    s = upd_file a (\<lambda>q. q\<lparr>f_type := FD_PIPE, f_readable := True, f_writable := False, f_pipe := pi\<rparr>) s;
                    s = upd_file b (\<lambda>q. q\<lparr>f_type := FD_PIPE, f_readable := False, f_writable := True, f_pipe := pi\<rparr>) s
                in Inr (Some (a, b), s)))))"

end
