(* ===== verification/Proc_Life.thy ===== *)
theory Proc_Life
  imports File
begin

section \<open>The life of a process\<close>

text \<open>
  The rest of \<^verbatim>\<open>kernel/proc.c\<close>: creating, growing, copying, ending and collecting processes, and the
  process listing for \<^verbatim>\<open>getprocs\<close>. The trap frame is a page of physical memory at \<^verbatim>\<open>p->trapframe\<close>; its
  fields are at the offsets that \<^verbatim>\<open>kernel/proc.h\<close> gives.

  The new fields of the kernel state are the addresses of assembly and C code that the kernel stores in
  registers (the linker fixes them) and the flag \<^verbatim>\<open>first\<close> of \<^verbatim>\<open>forkret\<close>.
\<close>

record kproc = kfile +
  sym_forkret :: u64
  sym_usertrap :: u64
  sym_uservec :: u64
  sym_userret :: u64
  sym_kernelvec :: u64
  ret_first :: bool

subsection \<open>Trap frames and names\<close>

definition tf_kernel_satp :: u64 where "tf_kernel_satp = 0"
definition tf_kernel_sp :: u64 where "tf_kernel_sp = 8"
definition tf_kernel_trap :: u64 where "tf_kernel_trap = 16"
definition tf_epc :: u64 where "tf_epc = 24"
definition tf_kernel_hartid :: u64 where "tf_kernel_hartid = 32"
definition tf_sp :: u64 where "tf_sp = 48"
definition tf_a :: "nat \<Rightarrow> u64" where "tf_a n = 112 + 8 * of_nat n"
definition tf_size :: u32 where "tf_size = 288"

lemmas tf_defs = tf_kernel_satp_def tf_kernel_sp_def tf_kernel_trap_def tf_epc_def tf_kernel_hartid_def
  tf_sp_def tf_a_def tf_size_def

definition get_tf :: "nat \<Rightarrow> u64 \<Rightarrow> 'z kproc_scheme \<Rightarrow> u64" where
  "get_tf p off s = load64 (mem s) (p_trapframe (procs s p) + off)"

definition set_tf :: "nat \<Rightarrow> u64 \<Rightarrow> u64 \<Rightarrow> 'z kproc_scheme \<Rightarrow> 'z kproc_scheme" where
  "set_tf p off v s = set_mem (store64 (mem s) (p_trapframe (procs s p) + off) v) s"

text \<open>A C string or array of bytes, read by index; and \<^verbatim>\<open>safestrcpy(p->name, src, sizeof(p->name))\<close>.\<close>

definition arr :: "u8 list \<Rightarrow> nat \<Rightarrow> u8" where
  "arr bs i = (if i < length bs then bs ! i else 0)"

definition set_name :: "u8 list \<Rightarrow> proc \<Rightarrow> proc" where
  "set_name src q = q\<lparr>p_name := map (safestrcpy (arr (p_name q)) (arr src) 16) [0..<16]\<rparr>"

subsection \<open>Creation\<close>

definition procinit :: "'z kproc_scheme \<Rightarrow> 'z kproc_scheme" where
  "procinit s = fold (\<lambda>p. upd_proc p (\<lambda>q. q\<lparr>p_kstack := KSTACK (of_nat p)\<rparr>)) [0..<NPROC] s"

definition proc_pagetable :: "nat \<Rightarrow> 'z kproc_scheme \<Rightarrow> ('z kproc_scheme, u64 \<times> 'z kproc_scheme) res" where
  "proc_pagetable p s =
     andthen (uvmcreate s) (\<lambda>(pagetable, s).
     if pagetable = 0 then Inr (0, s)
     else
       andthen (mappages pagetable TRAMPOLINE PGSIZE (ktrampoline s) (PTE_R OR PTE_X) s) (\<lambda>(r, s).
       if r < 0 then andthen (uvmfree pagetable 0 s) (\<lambda>s. Inr (0, s))
       else
         andthen (mappages pagetable TRAPFRAME PGSIZE (p_trapframe (procs s p)) (PTE_R OR PTE_W) s) (\<lambda>(r, s).
         if r < 0 then
           andthen (uvmunmap pagetable TRAMPOLINE 1 False s) (\<lambda>s.
           andthen (uvmfree pagetable 0 s) (\<lambda>s. Inr (0, s)))
         else Inr (pagetable, s))))"

definition proc_freepagetable :: "u64 \<Rightarrow> u64 \<Rightarrow> 'z kproc_scheme \<Rightarrow> ('z kproc_scheme, 'z kproc_scheme) res" where
  "proc_freepagetable pagetable sz s =
     andthen (uvmunmap pagetable TRAMPOLINE 1 False s) (\<lambda>s.
     andthen (uvmunmap pagetable TRAPFRAME 1 False s) (\<lambda>s.
     uvmfree pagetable sz s))"

definition freeproc :: "nat \<Rightarrow> 'z kproc_scheme \<Rightarrow> ('z kproc_scheme, 'z kproc_scheme) res" where
  "freeproc p s =
     andthen (if p_trapframe (procs s p) \<noteq> 0 then kfree (p_trapframe (procs s p)) s else Inr s) (\<lambda>s.
     let s = upd_proc p (\<lambda>q. q\<lparr>p_trapframe := 0\<rparr>) s in
     andthen
       (if p_pagetable (procs s p) \<noteq> 0
        then proc_freepagetable (p_pagetable (procs s p)) (p_sz (procs s p)) s else Inr s) (\<lambda>s.
     Inr (upd_proc p (\<lambda>q. q\<lparr>p_pagetable := 0, p_sz := 0, p_pid := 0, p_parent := None,
       p_name := (p_name q)[0 := 0], p_chan := None, p_killed := False, p_xstate := 0, p_state := UNUSED\<rparr>) s)))"

text \<open>The search of \<^verbatim>\<open>allocproc\<close>: the first unused slot, with its lock held.\<close>

fun find_unused :: "nat list \<Rightarrow> 'z kproc_scheme \<Rightarrow> ('z kproc_scheme, nat option \<times> 'z kproc_scheme) res" where
  "find_unused [] s = Inr (None, s)"
| "find_unused (p # ps) s =
     andthen (acquire_lk (ProcLock p) s) (\<lambda>s.
     if p_state (procs s p) = UNUSED then Inr (Some p, s)
     else andthen (release_lk (ProcLock p) s) (find_unused ps))"

definition allocproc_fail :: "nat \<Rightarrow> 'z kproc_scheme \<Rightarrow> ('z kproc_scheme, nat option \<times> 'z kproc_scheme) res" where
  "allocproc_fail p s =
     andthen (freeproc p s) (\<lambda>s.
     andthen (release_lk (ProcLock p) s) (\<lambda>s. Inr (None, s)))"

definition allocproc :: "'z kproc_scheme \<Rightarrow> ('z kproc_scheme, nat option \<times> 'z kproc_scheme) res" where
  "allocproc s =
     andthen (find_unused [0..<NPROC] s) (\<lambda>(r, s).
     case r of
       None \<Rightarrow> Inr (None, s)
     | Some p \<Rightarrow>
         andthen (allocpid s) (\<lambda>(pid, s).
         let s = upd_proc p (\<lambda>q. q\<lparr>p_pid := pid, p_state := USED\<rparr>) s in
         andthen (kalloc s) (\<lambda>(tf, s).
         let s = upd_proc p (\<lambda>q. q\<lparr>p_trapframe := tf\<rparr>) s in
         if tf = 0 then allocproc_fail p s
         else
           andthen (proc_pagetable p s) (\<lambda>(pt, s).
           let s = upd_proc p (\<lambda>q. q\<lparr>p_pagetable := pt\<rparr>) s in
           if pt = 0 then allocproc_fail p s
           else Inr (Some p, upd_proc p (\<lambda>q. q\<lparr>p_context :=
             \<lparr>ctx_ra = sym_forkret s, ctx_sp = p_kstack q + PGSIZE, ctx_s = (\<lambda>_. 0)\<rparr>\<rparr>) s)))))"

definition initcode :: "u8 list" where
  "initcode = [
     0x17, 0x05, 0x00, 0x00, 0x13, 0x05, 0x45, 0x02,
     0x97, 0x05, 0x00, 0x00, 0x93, 0x85, 0x35, 0x02,
     0x93, 0x08, 0x70, 0x00, 0x73, 0x00, 0x00, 0x00,
     0x93, 0x08, 0x20, 0x00, 0x73, 0x00, 0x00, 0x00,
     0xef, 0xf0, 0x9f, 0xff, 0x2f, 0x69, 0x6e, 0x69,
     0x74, 0x00, 0x00, 0x24, 0x00, 0x00, 0x00, 0x00,
     0x00, 0x00, 0x00, 0x00]"

definition ascii :: "string \<Rightarrow> u8 list" where
  "ascii cs = map (\<lambda>c. of_nat (of_char c)) cs"

definition userinit :: "'z kproc_scheme \<Rightarrow> ('z kproc_scheme, 'z kproc_scheme) res" where
  "userinit s =
     andthen (allocproc s) (\<lambda>(r, s).
     case r of
       None \<Rightarrow> Inl Fault
     | Some p \<Rightarrow>
         (let s = s\<lparr>initproc := Some p\<rparr> in
          andthen (uvminit (p_pagetable (procs s p)) initcode s) (\<lambda>s.
          let s = upd_proc p (\<lambda>q. q\<lparr>p_sz := PGSIZE\<rparr>) s;
              s = set_tf p tf_epc 0 s;
              s = set_tf p tf_sp PGSIZE s;
              s = upd_proc p (set_name (ascii ''initcode'')) s in
          andthen (namei [slash] s) (\<lambda>(cwd, s).
          release_lk (ProcLock p) (upd_proc p (\<lambda>q. q\<lparr>p_cwd := cwd, p_state := RUNNABLE\<rparr>) s)))))"

text \<open>\<^verbatim>\<open>uint sz\<close>: sizes are cut to 32 bits, and \<^verbatim>\<open>sz + n\<close> wraps there.\<close>

definition growproc :: "int \<Rightarrow> 'z kproc_scheme \<Rightarrow> ('z kproc_scheme, int \<times> 'z kproc_scheme) res" where
  "growproc n s = with_proc s (\<lambda>p.
     let sz = ucast (p_sz (procs s p)) :: u32; pt = p_pagetable (procs s p) in
     if n > 0 then
       andthen (uvmalloc pt (ucast sz) (ucast (sz + of_int n)) s) (\<lambda>(r, s).
       let sz = ucast r :: u32 in
       if sz = 0 then Inr (-1, s)
       else Inr (0, upd_proc p (\<lambda>q. q\<lparr>p_sz := ucast sz\<rparr>) s))
     else if n < 0 then
       andthen (uvmdealloc pt (ucast sz) (ucast (sz + of_int n)) s) (\<lambda>(r, s).
       Inr (0, upd_proc p (\<lambda>q. q\<lparr>p_sz := ucast (ucast r :: u32)\<rparr>) s))
     else Inr (0, upd_proc p (\<lambda>q. q\<lparr>p_sz := ucast sz\<rparr>) s))"

subsection \<open>Fork\<close>

definition dup_files :: "nat \<Rightarrow> nat \<Rightarrow> 'z kproc_scheme \<Rightarrow> ('z kproc_scheme, 'z kproc_scheme) res" where
  "dup_files p np s = for_each (\<lambda>i s.
     case p_ofile (procs s p) i of
       None \<Rightarrow> Inr s
     | Some f \<Rightarrow>
         andthen (filedup f s) (\<lambda>(f, s).
         Inr (upd_proc np (\<lambda>q. q\<lparr>p_ofile := (p_ofile q)(i := Some f)\<rparr>) s))) [0..<NOFILE] s"

definition fork :: "'z kproc_scheme \<Rightarrow> ('z kproc_scheme, int \<times> 'z kproc_scheme) res" where
  "fork s = with_proc s (\<lambda>p.
     andthen (allocproc s) (\<lambda>(r, s).
     case r of
       None \<Rightarrow> Inr (-1, s)
     | Some np \<Rightarrow>
         andthen (uvmcopy (p_pagetable (procs s p)) (p_pagetable (procs s np)) (p_sz (procs s p)) s) (\<lambda>(r, s).
         if r < 0 then
           andthen (freeproc np s) (\<lambda>s.
           andthen (release_lk (ProcLock np) s) (\<lambda>s. Inr (-1, s)))
         else
           (let s = upd_proc np (\<lambda>q. q\<lparr>p_sz := p_sz (procs s p)\<rparr>) s;
                s = set_mem (memmove (mem s) (p_trapframe (procs s np)) (p_trapframe (procs s p)) tf_size) s;
                s = set_tf np (tf_a 0) 0 s in
            andthen (dup_files p np s) (\<lambda>s.
            andthen (case p_cwd (procs s p) of None \<Rightarrow> Inl Fault | Some cwd \<Rightarrow> idup cwd s) (\<lambda>(cwd, s).
            let s = upd_proc np (\<lambda>q. q\<lparr>p_cwd := Some cwd\<rparr>) s;
                s = upd_proc np (set_name (p_name (procs s p))) s;
                pid = p_pid (procs s np) in
            andthen (release_lk (ProcLock np) s) (\<lambda>s.
            andthen (acquire_lk WaitLock s) (\<lambda>s.
            andthen (release_lk WaitLock (upd_proc np (\<lambda>q. q\<lparr>p_parent := Some p\<rparr>) s)) (\<lambda>s.
            andthen (acquire_lk (ProcLock np) s) (\<lambda>s.
            andthen (release_lk (ProcLock np) (upd_proc np (\<lambda>q. q\<lparr>p_state := RUNNABLE\<rparr>) s)) (\<lambda>s.
            Inr (pid, s)))))))))))) "

subsection \<open>Exit and wait\<close>

definition close_files :: "nat \<Rightarrow> 'z kproc_scheme \<Rightarrow> ('z kproc_scheme, 'z kproc_scheme) res" where
  "close_files p s = for_each (\<lambda>fd s.
     case p_ofile (procs s p) fd of
       None \<Rightarrow> Inr s
     | Some f \<Rightarrow>
         andthen (fileclose f s) (\<lambda>s.
         Inr (upd_proc p (\<lambda>q. q\<lparr>p_ofile := (p_ofile q)(fd := None)\<rparr>) s))) [0..<NOFILE] s"

definition exit :: "int \<Rightarrow> 'z kproc_scheme \<Rightarrow> ('z kproc_scheme, 'a) res" where
  "exit status s = with_proc s (\<lambda>p.
     if initproc s = Some p then Inl (Panic ''init exiting'')
     else
       andthen (close_files p s) (\<lambda>s.
       andthen (iput_op (p_cwd (procs s p)) s) (\<lambda>s.
       let s = upd_proc p (\<lambda>q. q\<lparr>p_cwd := None\<rparr>) s in
       andthen (acquire_lk WaitLock s) (\<lambda>s.
       andthen (reparent p s) (\<lambda>s.
       andthen (case p_parent (procs s p) of None \<Rightarrow> Inr s | Some pp \<Rightarrow> wakeup (ProcChan pp) s) (\<lambda>s.
       andthen (acquire_lk (ProcLock p) s) (\<lambda>s.
       andthen (release_lk WaitLock (upd_proc p (\<lambda>q. q\<lparr>p_xstate := status, p_state := ZOMBIE\<rparr>) s)) (\<lambda>s.
       andthen (sched s) (\<lambda>s. Inl (Exited s))))))))))"

text \<open>The scan of \<^verbatim>\<open>wait\<close>: what it returns if it returns from the scan, and \<^verbatim>\<open>havekids\<close>.\<close>

fun wait_scan :: "nat \<Rightarrow> u64 \<Rightarrow> nat list \<Rightarrow> bool \<Rightarrow> 'z kproc_scheme \<Rightarrow>
    ('z kproc_scheme, int option \<times> bool \<times> 'z kproc_scheme) res" where
  "wait_scan p addr [] havekids s = Inr (None, havekids, s)"
| "wait_scan p addr (np # nps) havekids s =
     (if p_parent (procs s np) = Some p then
        andthen (acquire_lk (ProcLock np) s) (\<lambda>s.
        if p_state (procs s np) = ZOMBIE then
          (let pid = p_pid (procs s np) in
           andthen
             (if addr \<noteq> 0
              then copyout (p_pagetable (procs s p)) addr (le_bytes 4 (of_int (p_xstate (procs s np)) :: u32)) s
              else Inr (0, s)) (\<lambda>(r, s).
           if r < 0 then
             andthen (release_lk (ProcLock np) s) (\<lambda>s.
             andthen (release_lk WaitLock s) (\<lambda>s. Inr (Some (-1), True, s)))
           else
             andthen (freeproc np s) (\<lambda>s.
             andthen (release_lk (ProcLock np) s) (\<lambda>s.
             andthen (release_lk WaitLock s) (\<lambda>s. Inr (Some pid, True, s))))))
        else andthen (release_lk (ProcLock np) s) (wait_scan p addr nps True))
      else wait_scan p addr nps havekids s)"

definition wait_loop :: "nat \<Rightarrow> u64 \<Rightarrow> 'z kproc_scheme \<Rightarrow> ('z kproc_scheme, int \<times> 'z kproc_scheme) res" where
  "wait_loop p addr s =
     andthen (wait_scan p addr [0..<NPROC] False s) (\<lambda>(r, havekids, s).
     case r of
       Some v \<Rightarrow> Inr (v, s)
     | None \<Rightarrow>
         if \<not> havekids \<or> p_killed (procs s p) then andthen (release_lk WaitLock s) (\<lambda>s. Inr (-1, s))
         else sleep (ProcChan p) WaitLock s)"

definition wait :: "u64 \<Rightarrow> 'z kproc_scheme \<Rightarrow> ('z kproc_scheme, int \<times> 'z kproc_scheme) res" where
  "wait addr s = with_proc s (\<lambda>p. andthen (acquire_lk WaitLock s) (wait_loop p addr))"

definition wait_resume :: "u64 \<Rightarrow> 'z kproc_scheme \<Rightarrow> ('z kproc_scheme, int \<times> 'z kproc_scheme) res" where
  "wait_resume addr s = with_proc s (\<lambda>p. andthen (sleep_resume WaitLock s) (wait_loop p addr))"

subsection \<open>The process listing\<close>

fun procstate_num :: "procstate \<Rightarrow> u32" where
  "procstate_num UNUSED = 0" | "procstate_num USED = 1" | "procstate_num SLEEPING = 2"
| "procstate_num RUNNABLE = 3" | "procstate_num RUNNING = 4" | "procstate_num ZOMBIE = 5"

text \<open>\<^verbatim>\<open>struct pstat\<close> in memory: 36 bytes of fields and four of padding.\<close>

definition pstat_bytes :: "u8 list \<Rightarrow> proc \<Rightarrow> int \<Rightarrow> u8 list" where
  "pstat_bytes pad q ppid = le_bytes 4 (of_int (p_pid q) :: u32) @ le_bytes 4 (procstate_num (p_state q)) @
     le_bytes 8 (p_sz q) @ le_bytes 4 (of_int ppid :: u32) @ map (arr (p_name q)) [0..<16] @ take 4 pad"

fun procinfo_loop :: "nat \<Rightarrow> u64 \<Rightarrow> nat list \<Rightarrow> int \<Rightarrow> 'z kproc_scheme \<Rightarrow>
    ('z kproc_scheme, int \<times> 'z kproc_scheme) res" where
  "procinfo_loop me addr [] nprocs s = Inr (nprocs, s)"
| "procinfo_loop me addr (p # ps) nprocs s =
     (if p_state (procs s p) = UNUSED then procinfo_loop me addr ps nprocs s
      else
        (let ppid = (case p_parent (procs s p) of None \<Rightarrow> 0 | Some pp \<Rightarrow> p_pid (procs s pp)) in
         andthen (copyout (p_pagetable (procs s me)) addr (pstat_bytes (stack_pad s) (procs s p) ppid) s) (\<lambda>(r, s).
         if r < 0 then Inr (-1, s)
         else procinfo_loop me (addr + 40) ps (nprocs + 1) s)))"

definition procinfo :: "u64 \<Rightarrow> 'z kproc_scheme \<Rightarrow> ('z kproc_scheme, int \<times> 'z kproc_scheme) res" where
  "procinfo addr s = with_proc s (\<lambda>p. procinfo_loop p addr [0..<NPROC] 0 s)"

end
