(* ===== verification/Exec.thy ===== *)
theory Exec
  imports Proc_Life
begin

section \<open>Loading a program\<close>

text \<open>
  \<^verbatim>\<open>kernel/exec.c\<close> with the file formats of \<^verbatim>\<open>kernel/elf.h\<close>. \<^verbatim>\<open>argv\<close> is the list of the pointers before the
  null; each points at a nul-terminated string in kernel memory. The fields of the ELF headers are read
  from the bytes that \<^verbatim>\<open>readi\<close> has copied.
\<close>

definition ELF_MAGIC :: u32 where "ELF_MAGIC = 0x464C457F"
definition ELF_PROG_LOAD :: u32 where "ELF_PROG_LOAD = 1"

definition field16 :: "u8 list \<Rightarrow> nat \<Rightarrow> u16" where "field16 bs off = le_word (take 2 (drop off bs))"
definition field32 :: "u8 list \<Rightarrow> nat \<Rightarrow> u32" where "field32 bs off = le_word (take 4 (drop off bs))"
definition field64 :: "u8 list \<Rightarrow> nat \<Rightarrow> u64" where "field64 bs off = le_word (take 8 (drop off bs))"

record elfhdr =
  elf_magic :: u32
  elf_entry :: u64
  elf_phoff :: u64
  elf_phnum :: u16

definition get_elfhdr :: "u8 list \<Rightarrow> elfhdr" where
  "get_elfhdr bs = \<lparr>elf_magic = field32 bs 0, elf_entry = field64 bs 24, elf_phoff = field64 bs 32,
     elf_phnum = field16 bs 56\<rparr>"

record proghdr =
  ph_type :: u32
  ph_off :: u64
  ph_vaddr :: u64
  ph_filesz :: u64
  ph_memsz :: u64

definition get_proghdr :: "u8 list \<Rightarrow> proghdr" where
  "get_proghdr bs = \<lparr>ph_type = field32 bs 0, ph_off = field64 bs 8, ph_vaddr = field64 bs 16,
     ph_filesz = field64 bs 32, ph_memsz = field64 bs 40\<rparr>"

text \<open>
  The loop of \<^verbatim>\<open>loadseg\<close>. Its counter cannot wrap: \<^verbatim>\<open>readi\<close> comes back short, or \<^verbatim>\<open>bmap\<close> panics, at the end
  of the largest file, far below \<open>2 ^ 32\<close>.
\<close>

function loadseg_loop :: "u64 \<Rightarrow> u64 \<Rightarrow> nat \<Rightarrow> u32 \<Rightarrow> nat \<Rightarrow> nat \<Rightarrow> 'z kproc_scheme \<Rightarrow>
    ('z kproc_scheme, int \<times> 'z kproc_scheme) res" where
  "loadseg_loop pagetable va ip offset sz i s =
     (if i < sz then
        andthen (walkaddr pagetable (va + of_nat i) s) (\<lambda>pa.
        if pa = 0 then Inl (Panic ''loadseg: address should exist'')
        else
          (let n = min (sz - i) 4096 in
           andthen (readi ip (KernAddr pa) (offset + of_nat i) (of_nat n) s) (\<lambda>(r, _, s).
           if r \<noteq> int n then Inr (-1, s)
           else loadseg_loop pagetable va ip offset sz (i + 4096) s)))
      else Inr (0, s))"
  by pat_completeness auto
termination
  by (relation "measure (\<lambda>(_, _, _, _, sz, i, _). sz - i)") auto

declare loadseg_loop.simps [simp del]

definition loadseg :: "u64 \<Rightarrow> u64 \<Rightarrow> nat \<Rightarrow> u32 \<Rightarrow> u32 \<Rightarrow> 'z kproc_scheme \<Rightarrow>
    ('z kproc_scheme, int \<times> 'z kproc_scheme) res" where
  "loadseg pagetable va ip offset sz s = loadseg_loop pagetable va ip offset (unat sz) 0 s"

text \<open>
  The loop over the program headers, with the number of headers left: whether it reaches its end (it
  leaves to \<^verbatim>\<open>bad\<close> otherwise), and \<^verbatim>\<open>sz\<close>.
\<close>

fun load_segments :: "nat \<Rightarrow> u64 \<Rightarrow> nat \<Rightarrow> u32 \<Rightarrow> u64 \<Rightarrow> 'z kproc_scheme \<Rightarrow>
    ('z kproc_scheme, bool \<times> u64 \<times> 'z kproc_scheme) res" where
  "load_segments ip pagetable 0 off sz s = Inr (True, sz, s)"
| "load_segments ip pagetable (Suc k) off sz s =
     andthen (readi ip Local off 56 s) (\<lambda>(r, bs, s).
     if r \<noteq> 56 then Inr (False, sz, s)
     else
       (let ph = get_proghdr bs in
        if ph_type ph \<noteq> ELF_PROG_LOAD then load_segments ip pagetable k (off + 56) sz s
        else if ph_memsz ph < ph_filesz ph then Inr (False, sz, s)
        else if ph_vaddr ph + ph_memsz ph < ph_vaddr ph then Inr (False, sz, s)
        else
          andthen (uvmalloc pagetable sz (ph_vaddr ph + ph_memsz ph) s) (\<lambda>(sz1, s).
          if sz1 = 0 then Inr (False, sz, s)
          else if ph_vaddr ph mod PGSIZE \<noteq> 0 then Inr (False, sz1, s)
          else
            andthen (loadseg pagetable (ph_vaddr ph) ip (ucast (ph_off ph)) (ucast (ph_filesz ph)) s) (\<lambda>(r, s).
            if r < 0 then Inr (False, sz1, s)
            else load_segments ip pagetable k (off + 56) sz1 s))))"

text \<open>
  Pushing the argument strings: the stack pointer and the addresses of the strings, or \<open>None\<close> when the
  loop leaves to \<^verbatim>\<open>bad\<close>.
\<close>

fun push_args :: "u64 \<Rightarrow> u64 \<Rightarrow> u64 list \<Rightarrow> u64 \<Rightarrow> u64 list \<Rightarrow> 'z kproc_scheme \<Rightarrow>
    ('z kproc_scheme, (u64 \<times> u64 list) option \<times> 'z kproc_scheme) res" where
  "push_args pagetable stackbase [] sp ustack s = Inr (Some (sp, ustack), s)"
| "push_args pagetable stackbase (a # argv) sp ustack s =
     (if length ustack \<ge> MAXARG then Inr (None, s)
      else
        (case strlen (\<lambda>i. mem s (a + of_nat i)) of
           None \<Rightarrow> Inl Hang
         | Some n \<Rightarrow>
             (let sp = sp - (of_nat n + 1); sp = sp - sp mod 16 in
              if sp < stackbase then Inr (None, s)
              else
                andthen (copyout pagetable sp (read_bytes (mem s) a (n + 1)) s) (\<lambda>(r, s).
                if r < 0 then Inr (None, s)
                else push_args pagetable stackbase argv sp (ustack @ [sp]) s))))"

text \<open>\<^verbatim>\<open>for(last=s=path; *s; s++) if(*s == '/') last = s+1\<close>\<close>

fun exec_last :: "u8 list \<Rightarrow> u8 list \<Rightarrow> u8 list" where
  "exec_last lst [] = lst"
| "exec_last lst (c # s) = exec_last (if c = slash then s else lst) s"

definition exec_bad :: "nat option \<Rightarrow> u64 \<Rightarrow> u64 \<Rightarrow> 'z kproc_scheme \<Rightarrow> ('z kproc_scheme, int \<times> 'z kproc_scheme) res" where
  "exec_bad ip pagetable sz s =
     andthen (if pagetable \<noteq> 0 then proc_freepagetable pagetable sz s else Inr s) (\<lambda>s.
     andthen (case ip of None \<Rightarrow> Inr s | Some ip \<Rightarrow> andthen (iunlockput ip s) end_op) (\<lambda>s.
     Inr (-1, s)))"

text \<open>The second half of \<^verbatim>\<open>exec\<close>, after the file has been closed. \<^verbatim>\<open>ustack\<close> has room for \<^verbatim>\<open>MAXARG\<close> words.\<close>

definition exec_stack :: "nat \<Rightarrow> u8 list \<Rightarrow> u64 list \<Rightarrow> u64 \<Rightarrow> u64 \<Rightarrow> u64 \<Rightarrow> 'z kproc_scheme \<Rightarrow>
    ('z kproc_scheme, int \<times> 'z kproc_scheme) res" where
  "exec_stack p path argv entry pagetable sz s =
     (let oldsz = p_sz (procs s p); sz = PGROUNDUP sz in
      andthen (uvmalloc pagetable sz (sz + 2 * PGSIZE) s) (\<lambda>(sz1, s).
      if sz1 = 0 then exec_bad None pagetable sz s
      else
        (let sz = sz1 in
         andthen (uvmclear pagetable (sz - 2 * PGSIZE) s) (\<lambda>s.
         let stackbase = sz - PGSIZE in
         andthen (push_args pagetable stackbase argv sz [] s) (\<lambda>(r, s).
         case r of
           None \<Rightarrow> exec_bad None pagetable sz s
         | Some (sp, ustack) \<Rightarrow>
             (let argc = length ustack; ustack = ustack @ [0];
                  sp = sp - of_nat (argc + 1) * 8; sp = sp - sp mod 16 in
              if argc \<ge> MAXARG then Inl Fault
              else if sp < stackbase then exec_bad None pagetable sz s
              else
                andthen (copyout pagetable sp (concat (map (le_bytes 8) ustack)) s) (\<lambda>(r, s).
                if r < 0 then exec_bad None pagetable sz s
                else
                  (let s = set_tf p (tf_a 1) sp s;
                       s = upd_proc p (set_name (exec_last path path)) s;
                       oldpagetable = p_pagetable (procs s p);
                       s = upd_proc p (\<lambda>q. q\<lparr>p_pagetable := pagetable, p_sz := sz\<rparr>) s;
                       s = set_tf p tf_epc entry s;
                       s = set_tf p tf_sp sp s in
                   andthen (proc_freepagetable oldpagetable oldsz s) (\<lambda>s.
                   Inr (int argc, s))))))))))"

definition exec :: "u8 list \<Rightarrow> u64 list \<Rightarrow> 'z kproc_scheme \<Rightarrow> ('z kproc_scheme, int \<times> 'z kproc_scheme) res" where
  "exec path argv s = with_proc s (\<lambda>p.
     andthen (begin_op s) (\<lambda>s.
     andthen (namei path s) (\<lambda>(ip, s).
     case ip of
       None \<Rightarrow> andthen (end_op s) (\<lambda>s. Inr (-1, s))
     | Some ip \<Rightarrow>
         andthen (ilock (Some ip) s) (\<lambda>s.
         andthen (readi ip Local 0 64 s) (\<lambda>(r, bs, s).
         let elf = get_elfhdr bs in
         if r \<noteq> 64 then exec_bad (Some ip) 0 0 s
         else if elf_magic elf \<noteq> ELF_MAGIC then exec_bad (Some ip) 0 0 s
         else
           andthen (proc_pagetable p s) (\<lambda>(pagetable, s).
           if pagetable = 0 then exec_bad (Some ip) 0 0 s
           else
             andthen (load_segments ip pagetable (unat (elf_phnum elf)) (ucast (elf_phoff elf)) 0 s) (\<lambda>(ok, sz, s).
             if \<not> ok then exec_bad (Some ip) pagetable sz s
             else
               andthen (iunlockput ip s) (\<lambda>s.
               andthen (end_op s) (\<lambda>s.
               exec_stack p path argv (elf_entry elf) pagetable sz s)))))))))"

end
