(* ===== verification/Sysarg.thy ===== *)
theory Sysarg
  imports Exec
begin

section \<open>System call arguments and the process system calls\<close>

text \<open>
  The argument functions of \<^verbatim>\<open>kernel/syscall.c\<close> and all of \<^verbatim>\<open>kernel/sysproc.c\<close>. A function that fills a
  buffer of its caller returns the bytes it has stored besides its C result. The result of a system call
  is a \<^verbatim>\<open>uint64\<close>, to which C converts negative integers by sign extension.
\<close>

definition fetchaddr :: "u64 \<Rightarrow> 'z kproc_scheme \<Rightarrow> ('z kproc_scheme, int \<times> u64) res" where
  "fetchaddr addr s = with_proc s (\<lambda>p.
     if addr \<ge> p_sz (procs s p) \<or> addr + 8 > p_sz (procs s p) then Inr (-1, 0)
     else
       andthen (copyin (p_pagetable (procs s p)) addr 8 s) (\<lambda>(r, bs).
       if r \<noteq> 0 then Inr (-1, le_word bs) else Inr (0, le_word bs)))"

definition fetchstr :: "u64 \<Rightarrow> nat \<Rightarrow> 'z kproc_scheme \<Rightarrow> ('z kproc_scheme, int \<times> u8 list) res" where
  "fetchstr addr maxlen s = with_proc s (\<lambda>p.
     andthen (copyinstr (p_pagetable (procs s p)) addr maxlen s) (\<lambda>(err, buf).
     if err < 0 then Inr (err, buf)
     else case strlen (arr buf) of None \<Rightarrow> Inl Hang | Some n \<Rightarrow> Inr (int n, buf)))"

definition argraw :: "nat \<Rightarrow> 'z kproc_scheme \<Rightarrow> ('z kproc_scheme, u64) res" where
  "argraw n s = with_proc s (\<lambda>p.
     if n < 6 then Inr (get_tf p (tf_a n) s) else Inl (Panic ''argraw''))"

definition argint :: "nat \<Rightarrow> 'z kproc_scheme \<Rightarrow> ('z kproc_scheme, int) res" where
  "argint n s = andthen (argraw n s) (\<lambda>v. Inr (sint (ucast v :: u32)))"

definition argaddr :: "nat \<Rightarrow> 'z kproc_scheme \<Rightarrow> ('z kproc_scheme, u64) res" where
  "argaddr n s = argraw n s"

definition argstr :: "nat \<Rightarrow> nat \<Rightarrow> 'z kproc_scheme \<Rightarrow> ('z kproc_scheme, int \<times> u8 list) res" where
  "argstr n maxlen s = andthen (argaddr n s) (\<lambda>addr. fetchstr addr maxlen s)"

subsection \<open>Processes\<close>

definition ret_int :: "('s, int \<times> 's) res \<Rightarrow> ('s, u64 \<times> 's) res" where
  "ret_int r = andthen r (\<lambda>(v, s). Inr (of_int v, s))"

definition sys_exit :: "'z kproc_scheme \<Rightarrow> ('z kproc_scheme, u64 \<times> 'z kproc_scheme) res" where
  "sys_exit s = andthen (argint 0 s) (\<lambda>n. exit n s)"

definition sys_getpid :: "'z kproc_scheme \<Rightarrow> ('z kproc_scheme, u64 \<times> 'z kproc_scheme) res" where
  "sys_getpid s = with_proc s (\<lambda>p. Inr (of_int (p_pid (procs s p)), s))"

definition sys_fork :: "'z kproc_scheme \<Rightarrow> ('z kproc_scheme, u64 \<times> 'z kproc_scheme) res" where
  "sys_fork s = ret_int (fork s)"

definition sys_wait :: "'z kproc_scheme \<Rightarrow> ('z kproc_scheme, u64 \<times> 'z kproc_scheme) res" where
  "sys_wait s = andthen (argaddr 0 s) (\<lambda>p. ret_int (wait p s))"

definition sys_sbrk :: "'z kproc_scheme \<Rightarrow> ('z kproc_scheme, u64 \<times> 'z kproc_scheme) res" where
  "sys_sbrk s =
     andthen (argint 0 s) (\<lambda>n. with_proc s (\<lambda>p.
     let addr = sint (ucast (p_sz (procs s p)) :: u32) in
     andthen (growproc n s) (\<lambda>(r, s).
     if r < 0 then Inr (-1, s) else Inr (of_int addr, s))))"

text \<open>\<^verbatim>\<open>ticks - ticks0 < n\<close> compares as \<^verbatim>\<open>uint\<close>.\<close>

definition sys_sleep_loop :: "int \<Rightarrow> u32 \<Rightarrow> 'z kproc_scheme \<Rightarrow> ('z kproc_scheme, u64 \<times> 'z kproc_scheme) res" where
  "sys_sleep_loop n ticks0 s =
     (if ticks s - ticks0 < of_int n then with_proc s (\<lambda>p.
        if p_killed (procs s p) then andthen (release_lk TicksLock s) (\<lambda>s. Inr (-1, s))
        else sleep TicksChan TicksLock s)
      else andthen (release_lk TicksLock s) (\<lambda>s. Inr (0, s)))"

definition sys_sleep :: "'z kproc_scheme \<Rightarrow> ('z kproc_scheme, u64 \<times> 'z kproc_scheme) res" where
  "sys_sleep s =
     andthen (argint 0 s) (\<lambda>n.
     andthen (acquire_lk TicksLock s) (\<lambda>s.
     sys_sleep_loop n (ticks s) s))"

definition sys_sleep_resume :: "int \<Rightarrow> u32 \<Rightarrow> 'z kproc_scheme \<Rightarrow> ('z kproc_scheme, u64 \<times> 'z kproc_scheme) res" where
  "sys_sleep_resume n ticks0 s = andthen (sleep_resume TicksLock s) (sys_sleep_loop n ticks0)"

definition sys_kill :: "'z kproc_scheme \<Rightarrow> ('z kproc_scheme, u64 \<times> 'z kproc_scheme) res" where
  "sys_kill s = andthen (argint 0 s) (\<lambda>pid. ret_int (kill pid s))"

definition sys_uptime :: "'z kproc_scheme \<Rightarrow> ('z kproc_scheme, u64 \<times> 'z kproc_scheme) res" where
  "sys_uptime s =
     andthen (acquire_lk TicksLock s) (\<lambda>s.
     let xticks = ticks s in
     andthen (release_lk TicksLock s) (\<lambda>s. Inr (ucast xticks, s)))"

definition sys_getprocs :: "'z kproc_scheme \<Rightarrow> ('z kproc_scheme, u64 \<times> 'z kproc_scheme) res" where
  "sys_getprocs s = andthen (argaddr 0 s) (\<lambda>addr. ret_int (procinfo addr s))"

end
