(* ===== verification/Sysfile.thy ===== *)
theory Sysfile
  imports Sysarg
begin

section \<open>File system calls\<close>

text \<open>
  \<^verbatim>\<open>kernel/sysfile.c\<close>. A path is the list of the bytes before the nul of the buffer that \<^verbatim>\<open>argstr\<close> has
  filled. The buffer \<^verbatim>\<open>name\<close> of a directory entry's name is an uninitialised local array; \<^verbatim>\<open>skipelem\<close>
  terminates the name it stores when that is shorter than \<^verbatim>\<open>DIRSIZ\<close>, and every reader stops at the
  terminator or at \<^verbatim>\<open>DIRSIZ\<close>, so its initial content does not matter and is zero here.
\<close>

definition O_RDONLY :: u32 where "O_RDONLY = 0x000"
definition O_WRONLY :: u32 where "O_WRONLY = 0x001"
definition O_RDWR :: u32 where "O_RDWR = 0x002"
definition O_CREATE :: u32 where "O_CREATE = 0x200"
definition O_TRUNC :: u32 where "O_TRUNC = 0x400"

definition path_of :: "u8 list \<Rightarrow> u8 list" where
  "path_of buf = takeWhile (\<lambda>c. c \<noteq> 0) buf"

subsection \<open>Descriptors\<close>

definition argfd :: "nat \<Rightarrow> 'z kproc_scheme \<Rightarrow> ('z kproc_scheme, (nat \<times> nat) option) res" where
  "argfd n s =
     andthen (argint n s) (\<lambda>fd.
     if fd < 0 \<or> fd \<ge> int NOFILE then Inr None
     else with_proc s (\<lambda>p.
       case p_ofile (procs s p) (nat fd) of
         None \<Rightarrow> Inr None
       | Some f \<Rightarrow> Inr (Some (nat fd, f))))"

definition fdalloc :: "nat \<Rightarrow> 'z kproc_scheme \<Rightarrow> ('z kproc_scheme, nat option \<times> 'z kproc_scheme) res" where
  "fdalloc f s = with_proc s (\<lambda>p.
     case find (\<lambda>fd. p_ofile (procs s p) fd = None) [0..<NOFILE] of
       Some fd \<Rightarrow> Inr (Some fd, upd_proc p (\<lambda>q. q\<lparr>p_ofile := (p_ofile q)(fd := Some f)\<rparr>) s)
     | None \<Rightarrow> Inr (None, s))"

definition sys_dup :: "'z kproc_scheme \<Rightarrow> ('z kproc_scheme, u64 \<times> 'z kproc_scheme) res" where
  "sys_dup s =
     andthen (argfd 0 s) (\<lambda>r.
     case r of
       None \<Rightarrow> Inr (-1, s)
     | Some (_, f) \<Rightarrow>
         andthen (fdalloc f s) (\<lambda>(r, s).
         case r of
           None \<Rightarrow> Inr (-1, s)
         | Some fd \<Rightarrow> andthen (filedup f s) (\<lambda>(_, s). Inr (of_nat fd, s))))"

definition sys_read :: "'z kproc_scheme \<Rightarrow> ('z kproc_scheme, u64 \<times> 'z kproc_scheme) res" where
  "sys_read s =
     andthen (argfd 0 s) (\<lambda>r.
     case r of
       None \<Rightarrow> Inr (-1, s)
     | Some (_, f) \<Rightarrow>
         andthen (argint 2 s) (\<lambda>n.
         andthen (argaddr 1 s) (\<lambda>p.
         ret_int (fileread f p n s))))"

definition sys_write :: "'z kproc_scheme \<Rightarrow> ('z kproc_scheme, u64 \<times> 'z kproc_scheme) res" where
  "sys_write s =
     andthen (argfd 0 s) (\<lambda>r.
     case r of
       None \<Rightarrow> Inr (-1, s)
     | Some (_, f) \<Rightarrow>
         andthen (argint 2 s) (\<lambda>n.
         andthen (argaddr 1 s) (\<lambda>p.
         ret_int (filewrite f p n s))))"

definition sys_close :: "'z kproc_scheme \<Rightarrow> ('z kproc_scheme, u64 \<times> 'z kproc_scheme) res" where
  "sys_close s =
     andthen (argfd 0 s) (\<lambda>r.
     case r of
       None \<Rightarrow> Inr (-1, s)
     | Some (fd, f) \<Rightarrow> with_proc s (\<lambda>p.
         andthen (fileclose f (upd_proc p (\<lambda>q. q\<lparr>p_ofile := (p_ofile q)(fd := None)\<rparr>) s)) (\<lambda>s.
         Inr (0, s))))"

definition sys_fstat :: "'z kproc_scheme \<Rightarrow> ('z kproc_scheme, u64 \<times> 'z kproc_scheme) res" where
  "sys_fstat s =
     andthen (argfd 0 s) (\<lambda>r.
     case r of
       None \<Rightarrow> Inr (-1, s)
     | Some (_, f) \<Rightarrow> andthen (argaddr 1 s) (\<lambda>st. ret_int (filestat f st s)))"

subsection \<open>Names\<close>

definition end_ret :: "u64 \<Rightarrow> 'z kproc_scheme \<Rightarrow> ('z kproc_scheme, u64 \<times> 'z kproc_scheme) res" where
  "end_ret v s = andthen (end_op s) (\<lambda>s. Inr (v, s))"

text \<open>The label \<^verbatim>\<open>bad\<close> of \<^verbatim>\<open>sys_link\<close>: takes the link count back.\<close>

definition link_bad :: "nat \<Rightarrow> 'z kproc_scheme \<Rightarrow> ('z kproc_scheme, u64 \<times> 'z kproc_scheme) res" where
  "link_bad ip s =
     andthen (ilock (Some ip) s) (\<lambda>s.
     andthen (iupdate ip (upd_inode ip (\<lambda>q. q\<lparr>i_nlink := i_nlink q - 1\<rparr>) s)) (\<lambda>s.
     andthen (iunlockput ip s) (end_ret (-1))))"

definition sys_link :: "'z kproc_scheme \<Rightarrow> ('z kproc_scheme, u64 \<times> 'z kproc_scheme) res" where
  "sys_link s =
     andthen (argstr 0 MAXPATH s) (\<lambda>(r0, old).
     if r0 < 0 then Inr (-1, s) else
     andthen (argstr 1 MAXPATH s) (\<lambda>(r1, new).
     if r1 < 0 then Inr (-1, s) else
     andthen (begin_op s) (\<lambda>s.
     andthen (namei (path_of old) s) (\<lambda>(ip, s).
     case ip of
       None \<Rightarrow> end_ret (-1) s
     | Some ip \<Rightarrow>
         andthen (ilock (Some ip) s) (\<lambda>s.
         if i_type (itable s ip) = T_DIR then andthen (iunlockput ip s) (end_ret (-1))
         else
           andthen (iupdate ip (upd_inode ip (\<lambda>q. q\<lparr>i_nlink := i_nlink q + 1\<rparr>) s)) (\<lambda>s.
           andthen (iunlock (Some ip) s) (\<lambda>s.
           andthen (nameiparent (path_of new) (\<lambda>_. 0) s) (\<lambda>(dp, name, s).
           case dp of
             None \<Rightarrow> link_bad ip s
           | Some dp \<Rightarrow>
               andthen (ilock (Some dp) s) (\<lambda>s.
               andthen
                 (if i_dev (itable s dp) \<noteq> i_dev (itable s ip) then Inr (-1, s)
                  else dirlink dp name (i_inum (itable s ip)) s) (\<lambda>(r, s).
               if r < 0 then andthen (iunlockput dp s) (link_bad ip)
               else
                 andthen (iunlockput dp s) (\<lambda>s.
                 andthen (iput ip s) (end_ret 0))))))))))))"

function isdirempty_loop :: "nat \<Rightarrow> nat \<Rightarrow> nat \<Rightarrow> 'z kproc_scheme \<Rightarrow> ('z kproc_scheme, bool \<times> 'z kproc_scheme) res" where
  "isdirempty_loop dp off sz s =
     (if off < sz then
        andthen (readi dp Local (of_nat off) 16 s) (\<lambda>(r, de, s).
        if r \<noteq> 16 then Inl (Panic ''isdirempty: readi'')
        else if de_inum de \<noteq> 0 then Inr (False, s)
        else isdirempty_loop dp (off + 16) sz s)
      else Inr (True, s))"
  by pat_completeness auto
termination
  by (relation "measure (\<lambda>(_, off, sz, _). sz - off)") auto

declare isdirempty_loop.simps [simp del]

definition isdirempty :: "nat \<Rightarrow> 'z kproc_scheme \<Rightarrow> ('z kproc_scheme, bool \<times> 'z kproc_scheme) res" where
  "isdirempty dp s = isdirempty_loop dp (2 * 16) (unat (i_size (itable s dp))) s"

definition sys_unlink :: "'z kproc_scheme \<Rightarrow> ('z kproc_scheme, u64 \<times> 'z kproc_scheme) res" where
  "sys_unlink s =
     andthen (argstr 0 MAXPATH s) (\<lambda>(r0, path).
     if r0 < 0 then Inr (-1, s) else
     andthen (begin_op s) (\<lambda>s.
     andthen (nameiparent (path_of path) (\<lambda>_. 0) s) (\<lambda>(dp, name, s).
     case dp of
       None \<Rightarrow> end_ret (-1) s
     | Some dp \<Rightarrow>
         andthen (ilock (Some dp) s) (\<lambda>s.
         if namecmp name (arr (ascii ''.'')) = 0 \<or> namecmp name (arr (ascii ''..'')) = 0
         then andthen (iunlockput dp s) (end_ret (-1))
         else
           andthen (dirlookup dp name s) (\<lambda>(r, s).
           case r of
             None \<Rightarrow> andthen (iunlockput dp s) (end_ret (-1))
           | Some (ip, off) \<Rightarrow>
               andthen (ilock (Some ip) s) (\<lambda>s.
               if sint (i_nlink (itable s ip)) < 1 then Inl (Panic ''unlink: nlink < 1'')
               else
                 andthen (if i_type (itable s ip) = T_DIR then isdirempty ip s else Inr (True, s)) (\<lambda>(empty, s).
                 if \<not> empty then
                   andthen (iunlockput ip s) (\<lambda>s.
                   andthen (iunlockput dp s) (end_ret (-1)))
                 else
                   andthen (writei dp Local (replicate 16 0) (of_nat off) 16 s) (\<lambda>(r, s).
                   if r \<noteq> 16 then Inl (Panic ''unlink: writei'')
                   else
                     andthen
                       (if i_type (itable s ip) = T_DIR
                        then iupdate dp (upd_inode dp (\<lambda>q. q\<lparr>i_nlink := i_nlink q - 1\<rparr>) s)
                        else Inr s) (\<lambda>s.
                     andthen (iunlockput dp s) (\<lambda>s.
                     andthen (iupdate ip (upd_inode ip (\<lambda>q. q\<lparr>i_nlink := i_nlink q - 1\<rparr>) s)) (\<lambda>s.
                     andthen (iunlockput ip s) (end_ret 0))))))))))))"

subsection \<open>Creation\<close>

definition create :: "u8 list \<Rightarrow> u16 \<Rightarrow> u16 \<Rightarrow> u16 \<Rightarrow> 'z kproc_scheme \<Rightarrow>
    ('z kproc_scheme, nat option \<times> 'z kproc_scheme) res" where
  "create path type major minor s =
     andthen (nameiparent path (\<lambda>_. 0) s) (\<lambda>(dp, name, s).
     case dp of
       None \<Rightarrow> Inr (None, s)
     | Some dp \<Rightarrow>
         andthen (ilock (Some dp) s) (\<lambda>s.
         andthen (dirlookup dp name s) (\<lambda>(r, s).
         case r of
           Some (ip, _) \<Rightarrow>
             andthen (iunlockput dp s) (\<lambda>s.
             andthen (ilock (Some ip) s) (\<lambda>s.
             if type = T_FILE \<and> (i_type (itable s ip) = T_FILE \<or> i_type (itable s ip) = T_DEVICE)
             then Inr (Some ip, s)
             else andthen (iunlockput ip s) (\<lambda>s. Inr (None, s))))
         | None \<Rightarrow>
             andthen (ialloc (i_dev (itable s dp)) type s) (\<lambda>(ip, s).
             andthen (ilock (Some ip) s) (\<lambda>s.
             andthen (iupdate ip (upd_inode ip (\<lambda>q. q\<lparr>i_major := major, i_minor := minor, i_nlink := 1\<rparr>) s)) (\<lambda>s.
             andthen
               (if type = T_DIR then
                  andthen (iupdate dp (upd_inode dp (\<lambda>q. q\<lparr>i_nlink := i_nlink q + 1\<rparr>) s)) (\<lambda>s.
                  andthen (dirlink ip (arr (ascii ''.'')) (i_inum (itable s ip)) s) (\<lambda>(r, s).
                  if r < 0 then Inl (Panic ''create dots'')
                  else
                    andthen (dirlink ip (arr (ascii ''..'')) (i_inum (itable s dp)) s) (\<lambda>(r, s).
                    if r < 0 then Inl (Panic ''create dots'') else Inr s)))
                else Inr s) (\<lambda>s.
             andthen (dirlink dp name (i_inum (itable s ip)) s) (\<lambda>(r, s).
             if r < 0 then Inl (Panic ''create: dirlink'')
             else andthen (iunlockput dp s) (\<lambda>s. Inr (Some ip, s))))))))))"

text \<open>
  The two halves of \<^verbatim>\<open>sys_open\<close>: finding the inode, locked, and giving it a file and a descriptor. The
  mode is an \<^verbatim>\<open>int\<close> whose bits are tested.
\<close>

definition open_inode :: "u8 list \<Rightarrow> u32 \<Rightarrow> 'z kproc_scheme \<Rightarrow> ('z kproc_scheme, nat option \<times> 'z kproc_scheme) res" where
  "open_inode path omode s =
     (if omode AND O_CREATE \<noteq> 0 then
        andthen (create path T_FILE 0 0 s) (\<lambda>(ip, s).
        case ip of
          None \<Rightarrow> andthen (end_op s) (\<lambda>s. Inr (None, s))
        | Some ip \<Rightarrow> Inr (Some ip, s))
      else
        andthen (namei path s) (\<lambda>(ip, s).
        case ip of
          None \<Rightarrow> andthen (end_op s) (\<lambda>s. Inr (None, s))
        | Some ip \<Rightarrow>
            andthen (ilock (Some ip) s) (\<lambda>s.
            if i_type (itable s ip) = T_DIR \<and> omode \<noteq> O_RDONLY then
              andthen (iunlockput ip s) (\<lambda>s.
              andthen (end_op s) (\<lambda>s. Inr (None, s)))
            else Inr (Some ip, s))))"

definition open_file_for :: "nat \<Rightarrow> u32 \<Rightarrow> 'z kproc_scheme \<Rightarrow> ('z kproc_scheme, u64 \<times> 'z kproc_scheme) res" where
  "open_file_for ip omode s =
     (if i_type (itable s ip) = T_DEVICE \<and>
          (sint (i_major (itable s ip)) < 0 \<or> sint (i_major (itable s ip)) \<ge> int NDEV) then
        andthen (iunlockput ip s) (end_ret (-1))
      else
        andthen (filealloc s) (\<lambda>(f, s).
        case f of
          None \<Rightarrow> andthen (iunlockput ip s) (end_ret (-1))
        | Some f \<Rightarrow>
            andthen (fdalloc f s) (\<lambda>(fd, s).
            case fd of
              None \<Rightarrow>
                andthen (fileclose f s) (\<lambda>s.
                andthen (iunlockput ip s) (end_ret (-1)))
            | Some fd \<Rightarrow>
                (let s = (if i_type (itable s ip) = T_DEVICE
                          then upd_file f (\<lambda>q. q\<lparr>f_type := FD_DEVICE, f_major := i_major (itable s ip)\<rparr>) s
                          else upd_file f (\<lambda>q. q\<lparr>f_type := FD_INODE, f_off := 0\<rparr>) s);
                     s = upd_file f (\<lambda>q. q\<lparr>f_ip := Some ip, f_readable := (omode AND O_WRONLY = 0),
                       f_writable := (omode AND O_WRONLY \<noteq> 0 \<or> omode AND O_RDWR \<noteq> 0)\<rparr>) s in
                 andthen
                   (if omode AND O_TRUNC \<noteq> 0 \<and> i_type (itable s ip) = T_FILE then itrunc ip s else Inr s) (\<lambda>s.
                 andthen (iunlock (Some ip) s) (end_ret (of_nat fd)))))))"

definition sys_open :: "'z kproc_scheme \<Rightarrow> ('z kproc_scheme, u64 \<times> 'z kproc_scheme) res" where
  "sys_open s =
     andthen (argstr 0 MAXPATH s) (\<lambda>(n, path).
     if n < 0 then Inr (-1, s) else
     andthen (argint 1 s) (\<lambda>omode.
     andthen (begin_op s) (\<lambda>s.
     andthen (open_inode (path_of path) (of_int omode) s) (\<lambda>(ip, s).
     case ip of
       None \<Rightarrow> Inr (-1, s)
     | Some ip \<Rightarrow> open_file_for ip (of_int omode) s))))"

definition sys_mkdir :: "'z kproc_scheme \<Rightarrow> ('z kproc_scheme, u64 \<times> 'z kproc_scheme) res" where
  "sys_mkdir s =
     andthen (begin_op s) (\<lambda>s.
     andthen (argstr 0 MAXPATH s) (\<lambda>(r, path).
     if r < 0 then end_ret (-1) s
     else
       andthen (create (path_of path) T_DIR 0 0 s) (\<lambda>(ip, s).
       case ip of
         None \<Rightarrow> end_ret (-1) s
       | Some ip \<Rightarrow> andthen (iunlockput ip s) (end_ret 0))))"

definition sys_mknod :: "'z kproc_scheme \<Rightarrow> ('z kproc_scheme, u64 \<times> 'z kproc_scheme) res" where
  "sys_mknod s =
     andthen (begin_op s) (\<lambda>s.
     andthen (argstr 0 MAXPATH s) (\<lambda>(r, path).
     if r < 0 then end_ret (-1) s
     else
       andthen (argint 1 s) (\<lambda>major.
       andthen (argint 2 s) (\<lambda>minor.
       andthen (create (path_of path) T_DEVICE (of_int major) (of_int minor) s) (\<lambda>(ip, s).
       case ip of
         None \<Rightarrow> end_ret (-1) s
       | Some ip \<Rightarrow> andthen (iunlockput ip s) (end_ret 0))))))"

definition sys_chdir :: "'z kproc_scheme \<Rightarrow> ('z kproc_scheme, u64 \<times> 'z kproc_scheme) res" where
  "sys_chdir s = with_proc s (\<lambda>p.
     andthen (begin_op s) (\<lambda>s.
     andthen (argstr 0 MAXPATH s) (\<lambda>(r, path).
     if r < 0 then end_ret (-1) s
     else
       andthen (namei (path_of path) s) (\<lambda>(ip, s).
       case ip of
         None \<Rightarrow> end_ret (-1) s
       | Some ip \<Rightarrow>
           andthen (ilock (Some ip) s) (\<lambda>s.
           if i_type (itable s ip) \<noteq> T_DIR then andthen (iunlockput ip s) (end_ret (-1))
           else
             andthen (iunlock (Some ip) s) (\<lambda>s.
             andthen (case p_cwd (procs s p) of None \<Rightarrow> Inl Fault | Some cwd \<Rightarrow> iput cwd s) (\<lambda>s.
             andthen (end_op s) (\<lambda>s.
             Inr (0, upd_proc p (\<lambda>q. q\<lparr>p_cwd := Some ip\<rparr>) s)))))))))"

subsection \<open>Programs and pipes\<close>

text \<open>
  The loop of \<^verbatim>\<open>sys_exec\<close>, with the number of entries of \<^verbatim>\<open>argv\<close> left: whether it ends at a null pointer,
  and the pages it has allocated.
\<close>

fun fetch_args :: "u64 \<Rightarrow> nat \<Rightarrow> u64 list \<Rightarrow> 'z kproc_scheme \<Rightarrow>
    ('z kproc_scheme, bool \<times> u64 list \<times> 'z kproc_scheme) res" where
  "fetch_args uargv 0 argv s = Inr (False, argv, s)"
| "fetch_args uargv (Suc k) argv s =
     andthen (fetchaddr (uargv + 8 * of_nat (length argv)) s) (\<lambda>(r, uarg).
     if r < 0 then Inr (False, argv, s)
     else if uarg = 0 then Inr (True, argv, s)
     else
       andthen (kalloc s) (\<lambda>(page, s).
       if page = 0 then Inr (False, argv, s)
       else
         andthen (fetchstr uarg 4096 s) (\<lambda>(r, buf).
         let s = set_mem (write_bytes (mem s) page buf) s in
         if r < 0 then Inr (False, argv @ [page], s)
         else fetch_args uargv k (argv @ [page]) s)))"

definition sys_exec :: "'z kproc_scheme \<Rightarrow> ('z kproc_scheme, u64 \<times> 'z kproc_scheme) res" where
  "sys_exec s =
     andthen (argstr 0 MAXPATH s) (\<lambda>(r, path).
     if r < 0 then Inr (-1, s) else
     andthen (argaddr 1 s) (\<lambda>uargv.
     andthen (fetch_args uargv MAXARG [] s) (\<lambda>(ok, argv, s).
     if ok then
       andthen (exec (path_of path) argv s) (\<lambda>(ret, s).
       andthen (for_each kfree argv s) (\<lambda>s. Inr (of_int ret, s)))
     else andthen (for_each kfree argv s) (\<lambda>s. Inr (-1, s)))))"

definition unset_fd :: "nat \<Rightarrow> nat \<Rightarrow> 'z kproc_scheme \<Rightarrow> 'z kproc_scheme" where
  "unset_fd p fd s = upd_proc p (\<lambda>q. q\<lparr>p_ofile := (p_ofile q)(fd := None)\<rparr>) s"

definition close_both :: "nat \<Rightarrow> nat \<Rightarrow> 'z kproc_scheme \<Rightarrow> ('z kproc_scheme, u64 \<times> 'z kproc_scheme) res" where
  "close_both rfile wfile s =
     andthen (fileclose rfile s) (\<lambda>s.
     andthen (fileclose wfile s) (\<lambda>s. Inr (-1, s)))"

definition sys_pipe :: "'z kproc_scheme \<Rightarrow> ('z kproc_scheme, u64 \<times> 'z kproc_scheme) res" where
  "sys_pipe s = with_proc s (\<lambda>p.
     andthen (argaddr 0 s) (\<lambda>fdarray.
     andthen (pipealloc s) (\<lambda>(r, s).
     case r of
       None \<Rightarrow> Inr (-1, s)
     | Some (rfile, wfile) \<Rightarrow>
         andthen (fdalloc rfile s) (\<lambda>(fd0, s).
         case fd0 of
           None \<Rightarrow> close_both rfile wfile s
         | Some fd0 \<Rightarrow>
             andthen (fdalloc wfile s) (\<lambda>(fd1, s).
             case fd1 of
               None \<Rightarrow> close_both rfile wfile (unset_fd p fd0 s)
             | Some fd1 \<Rightarrow>
                 andthen (copyout (p_pagetable (procs s p)) fdarray (le_bytes 4 (of_nat fd0 :: u32)) s) (\<lambda>(r, s).
                 if r < 0 then close_both rfile wfile (unset_fd p fd1 (unset_fd p fd0 s))
                 else
                   andthen (copyout (p_pagetable (procs s p)) (fdarray + 4) (le_bytes 4 (of_nat fd1 :: u32)) s) (\<lambda>(r, s).
                   if r < 0 then close_both rfile wfile (unset_fd p fd1 (unset_fd p fd0 s))
                   else Inr (0, s))))))))"

end
