(* ===== verification/Virtio.thy ===== *)
theory Virtio
  imports Proc_Life
begin

section \<open>The disk driver\<close>

text \<open>
  \<^verbatim>\<open>kernel/virtio_disk.c\<close> with the structures of \<^verbatim>\<open>kernel/virtio.h\<close>. The descriptor table, the two rings
  and the request headers are shared with the device; a descriptor's address is a constructor that names
  the object it points at. \<open>vd_reg\<close> is what the device's registers read, \<open>vd_out\<close> the writes to them in
  order. The device itself is not code of the kernel: properties take its steps as a parameter.

  \<open>virtio_disk_rw\<close> of theory \<open>Bio\<close> is what callers see of a request; the routines here are its parts:
  \<open>rw_submit\<close> queues the request and sleeps, \<open>virtio_disk_intr\<close> handles the completion, and
  \<open>rw_finish\<close> is what runs after the wakeup.
\<close>

definition NUM :: nat where "NUM = 8"

definition VRING_DESC_F_NEXT :: u16 where "VRING_DESC_F_NEXT = 1"
definition VRING_DESC_F_WRITE :: u16 where "VRING_DESC_F_WRITE = 2"
definition VIRTIO_BLK_T_IN :: u32 where "VIRTIO_BLK_T_IN = 0"
definition VIRTIO_BLK_T_OUT :: u32 where "VIRTIO_BLK_T_OUT = 1"

datatype dma = NullPtr | OpsPtr nat | DataPtr nat | StatusPtr nat

record virtq_desc =
  d_addr :: dma
  d_len :: u32
  d_flags :: u16
  d_next :: u16

record virtio_blk_req =
  req_type :: u32
  req_reserved :: u32
  req_sector :: u64

record disk_info =
  info_b :: "nat option"
  info_status :: u8

record kdisk = kproc +
  vd_pages :: u64
  vd_desc :: "nat \<Rightarrow> virtq_desc"
  vd_avail_idx :: u16
  vd_avail_ring :: "nat \<Rightarrow> u16"
  vd_used_ring_idx :: u16
  vd_used_ring :: "nat \<Rightarrow> u32"
  vd_free :: "nat \<Rightarrow> bool"
  vd_used_idx :: u16
  vd_info :: "nat \<Rightarrow> disk_info"
  vd_ops :: "nat \<Rightarrow> virtio_blk_req"
  buf_disk :: "nat \<Rightarrow> bool"
  vd_reg :: "u32 \<Rightarrow> u32"
  vd_out :: "(u32 \<times> u32) list"

definition vd_write :: "u32 \<Rightarrow> u32 \<Rightarrow> 'z kdisk_scheme \<Rightarrow> 'z kdisk_scheme" where
  "vd_write r v s = s\<lparr>vd_out := vd_out s @ [(r, v)]\<rparr>"

subsection \<open>Initialisation\<close>

text \<open>The feature bits that the driver refuses.\<close>

definition refused_features :: "nat list" where
  "refused_features = [5, 7, 11, 12, 27, 29, 28]"

definition virtio_disk_init :: "'z kdisk_scheme \<Rightarrow> ('z kdisk_scheme, 'z kdisk_scheme) res" where
  "virtio_disk_init s =
     (if vd_reg s 0x000 \<noteq> 0x74726976 \<or> vd_reg s 0x004 \<noteq> 1 \<or> vd_reg s 0x008 \<noteq> 2 \<or> vd_reg s 0x00c \<noteq> 0x554d4551
      then Inl (Panic ''could not find virtio disk'')
      else
        (let status = 1;
             s = vd_write 0x070 status s;
             status = status OR 2;
             s = vd_write 0x070 status s;
             features = fold (\<lambda>b f. f AND NOT (push_bit b 1)) refused_features (vd_reg s 0x010);
             s = vd_write 0x020 features s;
             status = status OR 8;
             s = vd_write 0x070 status s;
             status = status OR 4;
             s = vd_write 0x070 status s;
             s = vd_write 0x028 (ucast PGSIZE) s;
             s = vd_write 0x030 0 s;
             maxq = vd_reg s 0x034 in
         if maxq = 0 then Inl (Panic ''virtio disk has no queue 0'')
         else if maxq < of_nat NUM then Inl (Panic ''virtio disk max queue too short'')
         else
           (let s = vd_write 0x038 (of_nat NUM) s;
                s = s\<lparr>vd_desc := (\<lambda>_. \<lparr>d_addr = NullPtr, d_len = 0, d_flags = 0, d_next = 0\<rparr>), vd_avail_idx := 0,
                  vd_avail_ring := (\<lambda>_. 0), vd_used_ring_idx := 0, vd_used_ring := (\<lambda>_. 0)\<rparr>;
                s = vd_write 0x040 (ucast (drop_bit PGSHIFT (vd_pages s))) s
            in Inr (s\<lparr>vd_free := (\<lambda>i. if i < NUM then True else vd_free s i)\<rparr>))))"

subsection \<open>Descriptors\<close>

definition alloc_desc :: "'z kdisk_scheme \<Rightarrow> nat option \<times> 'z kdisk_scheme" where
  "alloc_desc s =
     (case find (vd_free s) [0..<NUM] of
        Some i \<Rightarrow> (Some i, s\<lparr>vd_free := (vd_free s)(i := False)\<rparr>)
      | None \<Rightarrow> (None, s))"

definition free_desc :: "nat \<Rightarrow> 'z kdisk_scheme \<Rightarrow> ('z kdisk_scheme, 'z kdisk_scheme) res" where
  "free_desc i s =
     (if i \<ge> NUM then Inl (Panic ''free_desc 1'')
      else if vd_free s i then Inl (Panic ''free_desc 2'')
      else wakeup DiskFreeChan (s\<lparr>vd_desc := (vd_desc s)(i := \<lparr>d_addr = NullPtr, d_len = 0, d_flags = 0, d_next = 0\<rparr>),
        vd_free := (vd_free s)(i := True)\<rparr>))"

definition busy_descs :: "'z kdisk_scheme \<Rightarrow> nat" where
  "busy_descs s = length (filter (\<lambda>i. \<not> vd_free s i) [0..<NUM])"

lemma free_desc_busy:
  assumes "free_desc i s = Inr t"
  shows "busy_descs t < busy_descs s"
proof -
  have i: "i < NUM" "\<not> vd_free s i" and t: "vd_free t = (vd_free s)(i := True)"
    using assms by (simp_all add: free_desc_def split: if_splits) (drule wakeup_frame, clarsimp)
  let ?xs = "filter (\<lambda>j. \<not> vd_free s j) [0..<NUM]"
  have "filter (\<lambda>j. \<not> vd_free t j) [0..<NUM] = filter (\<lambda>j. j \<noteq> i) ?xs"
    unfolding filter_filter using t by (intro filter_cong) auto
  moreover have "length (filter (\<lambda>j. j \<noteq> i) ?xs) < length ?xs"
    by (rule length_filter_less [of i]) (use i in simp_all)
  ultimately show ?thesis by (simp add: busy_descs_def)
qed

text \<open>The loop ends: each pass frees one more descriptor, and freeing a free one panics.\<close>

function free_chain :: "nat \<Rightarrow> 'z kdisk_scheme \<Rightarrow> ('z kdisk_scheme, 'z kdisk_scheme) res" where
  "free_chain i s =
     (let flag = d_flags (vd_desc s i); nxt = d_next (vd_desc s i) in
      andthen (free_desc i s) (\<lambda>s.
      if flag AND VRING_DESC_F_NEXT \<noteq> 0 then free_chain (unat nxt) s else Inr s))"
  by pat_completeness auto
termination
  by (relation "measure (\<lambda>(_, s). busy_descs s)") (auto dest: free_desc_busy)

declare free_chain.simps [simp del]

text \<open>\<^verbatim>\<open>alloc3_desc\<close>, unrolled over its three passes.\<close>

definition alloc3_desc :: "'z kdisk_scheme \<Rightarrow> ('z kdisk_scheme, (nat \<times> nat \<times> nat) option \<times> 'z kdisk_scheme) res" where
  "alloc3_desc s =
     (case alloc_desc s of
        (None, s) \<Rightarrow> Inr (None, s)
      | (Some i0, s) \<Rightarrow>
          (case alloc_desc s of
             (None, s) \<Rightarrow> andthen (free_desc i0 s) (\<lambda>s. Inr (None, s))
           | (Some i1, s) \<Rightarrow>
               (case alloc_desc s of
                  (None, s) \<Rightarrow>
                    andthen (free_desc i0 s) (\<lambda>s.
                    andthen (free_desc i1 s) (\<lambda>s. Inr (None, s)))
                | (Some i2, s) \<Rightarrow> Inr (Some (i0, i1, i2), s))))"

subsection \<open>Requests\<close>

definition set_desc :: "nat \<Rightarrow> virtq_desc \<Rightarrow> 'z kdisk_scheme \<Rightarrow> 'z kdisk_scheme" where
  "set_desc i d s = s\<lparr>vd_desc := (vd_desc s)(i := d)\<rparr>"

text \<open>Formatting the three descriptors and telling the device; the state in which the caller sleeps.\<close>

definition rw_format :: "nat \<Rightarrow> bool \<Rightarrow> nat \<times> nat \<times> nat \<Rightarrow> 'z kdisk_scheme \<Rightarrow> 'z kdisk_scheme" where
  "rw_format b write idx s =
     (case idx of (i0, i1, i2) \<Rightarrow>
      let sector = ucast (b_blockno (bufs s b) * of_nat (BSIZE div 512)) :: u64;
          s = s\<lparr>vd_ops := (vd_ops s)(i0 := \<lparr>req_type = (if write then VIRTIO_BLK_T_OUT else VIRTIO_BLK_T_IN),
            req_reserved = 0, req_sector = sector\<rparr>)\<rparr>;
          s = set_desc i0 \<lparr>d_addr = OpsPtr i0, d_len = 16, d_flags = VRING_DESC_F_NEXT, d_next = of_nat i1\<rparr> s;
          s = set_desc i1 \<lparr>d_addr = DataPtr b, d_len = of_nat BSIZE,
            d_flags = (if write then 0 else VRING_DESC_F_WRITE) OR VRING_DESC_F_NEXT, d_next = of_nat i2\<rparr> s;
          s = s\<lparr>vd_info := (vd_info s)(i0 := (vd_info s i0)\<lparr>info_status := 0xff\<rparr>)\<rparr>;
          s = set_desc i2 \<lparr>d_addr = StatusPtr i0, d_len = 1, d_flags = VRING_DESC_F_WRITE, d_next = 0\<rparr> s;
          s = s\<lparr>buf_disk := (buf_disk s)(b := True), vd_info := (vd_info s)(i0 := (vd_info s i0)\<lparr>info_b := Some b\<rparr>)\<rparr>;
          s = s\<lparr>vd_avail_ring := (vd_avail_ring s)(unat (vd_avail_idx s) mod NUM := of_nat i0)\<rparr>;
          s = s\<lparr>vd_avail_idx := vd_avail_idx s + 1\<rparr>
      in vd_write 0x050 0 s)"

text \<open>The loop that waits for the completion; \<open>i0\<close> is \<^verbatim>\<open>idx[0]\<close>.\<close>

definition rw_wait :: "nat \<Rightarrow> nat \<Rightarrow> 'z kdisk_scheme \<Rightarrow> ('z kdisk_scheme, 'z kdisk_scheme) res" where
  "rw_wait b i0 s =
     (if buf_disk s b then sleep (BufChan b) VdiskLock s
      else
        andthen (free_chain i0 (s\<lparr>vd_info := (vd_info s)(i0 := (vd_info s i0)\<lparr>info_b := None\<rparr>)\<rparr>))
          (release_lk VdiskLock))"

definition rw_loop :: "nat \<Rightarrow> bool \<Rightarrow> 'z kdisk_scheme \<Rightarrow> ('z kdisk_scheme, 'z kdisk_scheme) res" where
  "rw_loop b write s =
     andthen (alloc3_desc s) (\<lambda>(r, s).
     case r of
       None \<Rightarrow> sleep DiskFreeChan VdiskLock s
     | Some idx \<Rightarrow> rw_wait b (fst idx) (rw_format b write idx s))"

definition rw_submit :: "nat \<Rightarrow> bool \<Rightarrow> 'z kdisk_scheme \<Rightarrow> ('z kdisk_scheme, 'z kdisk_scheme) res" where
  "rw_submit b write s = andthen (acquire_lk VdiskLock s) (rw_loop b write)"

text \<open>After a sleep for descriptors, and after a sleep for the completion.\<close>

definition rw_resume :: "nat \<Rightarrow> bool \<Rightarrow> 'z kdisk_scheme \<Rightarrow> ('z kdisk_scheme, 'z kdisk_scheme) res" where
  "rw_resume b write s = andthen (sleep_resume VdiskLock s) (rw_loop b write)"

definition rw_finish :: "nat \<Rightarrow> nat \<Rightarrow> 'z kdisk_scheme \<Rightarrow> ('z kdisk_scheme, 'z kdisk_scheme) res" where
  "rw_finish b i0 s = andthen (sleep_resume VdiskLock s) (rw_wait b i0)"

subsection \<open>Completion\<close>

text \<open>A used-ring entry outside the table is an access out of range.\<close>

function intr_loop :: "'z kdisk_scheme \<Rightarrow> ('z kdisk_scheme, 'z kdisk_scheme) res" where
  "intr_loop s =
     (if vd_used_idx s \<noteq> vd_used_ring_idx s then
        (let id = unat (vd_used_ring s (unat (vd_used_idx s) mod NUM)) in
         if id \<ge> NUM then Inl Fault
         else if info_status (vd_info s id) \<noteq> 0 then Inl (Panic ''virtio_disk_intr status'')
         else
           (case info_b (vd_info s id) of
              None \<Rightarrow> Inl Fault
            | Some b \<Rightarrow>
                andthen (wakeup (BufChan b) (s\<lparr>buf_disk := (buf_disk s)(b := False)\<rparr>)) (\<lambda>s.
                intr_loop (s\<lparr>vd_used_idx := vd_used_idx s + 1\<rparr>))))
      else Inr s)"
  by pat_completeness auto
termination
proof (relation "measure (\<lambda>s. unat (vd_used_ring_idx s - vd_used_idx s))", simp, goal_cases)
  case (1 s id b t)
  then obtain ps where t: "t = s\<lparr>buf_disk := (buf_disk s)(b := False), procs := ps\<rparr>"
    by (auto dest!: wakeup_frame)
  let ?d = "vd_used_ring_idx s - vd_used_idx s"
  have "?d \<noteq> 0" using 1 by simp
  then have "unat (?d - 1) < unat ?d" by (metis unat_gt_0 unat_minus_one diff_less zero_less_one)
  then show ?case by (simp add: t algebra_simps)
qed

declare intr_loop.simps [simp del]

definition virtio_disk_intr :: "'z kdisk_scheme \<Rightarrow> ('z kdisk_scheme, 'z kdisk_scheme) res" where
  "virtio_disk_intr s =
     andthen (acquire_lk VdiskLock s) (\<lambda>s.
     andthen (intr_loop (vd_write 0x064 (vd_reg s 0x060 AND 0x3) s)) (release_lk VdiskLock))"

end
