(* ===== verification/Trap.thy ===== *)
theory Trap
  imports Sysfile Virtio
begin

section \<open>System call dispatch, traps and interrupts\<close>

text \<open>
  The table of \<^verbatim>\<open>kernel/syscall.c\<close>, \<^verbatim>\<open>kernel/trap.c\<close>, \<^verbatim>\<open>kernel/plic.c\<close> and \<^verbatim>\<open>forkret\<close> of \<^verbatim>\<open>kernel/proc.c\<close>.
  \<open>plic_claims\<close> is what successive reads of the claim register return (0 when there is nothing left) and
  \<open>plic_out\<close> the writes to the interrupt controller in order.

  A trap handler ends in one of three ways: it returns, it stops, or it gives up the CPU in \<^verbatim>\<open>yield\<close>; the
  last is a result of its own, and the \<open>_resume\<close> function is what runs when the process is scheduled again.
\<close>

record ktrap = kdisk +
  plic_claims :: "u32 list"
  plic_out :: "(u64 \<times> u32) list"
  started :: bool

definition upd_hart :: "(hart \<Rightarrow> hart) \<Rightarrow> 'z kvm_scheme \<Rightarrow> 'z kvm_scheme" where
  "upd_hart f s = s\<lparr>khart := f (khart s)\<rparr>"

subsection \<open>System calls\<close>

definition syscalls ::
    "(int \<times> ('z kproc_scheme \<Rightarrow> ('z kproc_scheme, u64 \<times> 'z kproc_scheme) res)) list" where
  "syscalls = [
     (1, sys_fork), (2, sys_exit), (3, sys_wait), (4, sys_pipe), (5, sys_read), (6, sys_kill), (7, sys_exec),
     (8, sys_fstat), (9, sys_chdir), (10, sys_dup), (11, sys_getpid), (12, sys_sbrk), (13, sys_sleep),
     (14, sys_uptime), (15, sys_open), (16, sys_write), (17, sys_mknod), (18, sys_unlink), (19, sys_link),
     (20, sys_mkdir), (21, sys_close), (22, sys_getprocs)]"

definition syscall :: "'z kproc_scheme \<Rightarrow> ('z kproc_scheme, 'z kproc_scheme) res" where
  "syscall s = with_proc s (\<lambda>p.
     let num = sint (ucast (get_tf p (tf_a 7) s) :: u32) in
     case map_of syscalls num of
       Some f \<Rightarrow> andthen (f s) (\<lambda>(v, s). Inr (set_tf p (tf_a 0) v s))
     | None \<Rightarrow>
         andthen (printf (''%d %s: unknown sys call %d'' @ [CHR 0x0A])
           [IntArg (of_int (p_pid (procs s p))), StrArg (Some (name_string (p_name (procs s p)))), IntArg (of_int num)] s) (\<lambda>s.
         Inr (set_tf p (tf_a 0) (-1) s)))"

subsection \<open>The interrupt controller\<close>

definition UART0_IRQ :: u32 where "UART0_IRQ = 10"
definition VIRTIO0_IRQ :: u32 where "VIRTIO0_IRQ = 1"
definition PLIC_SENABLE :: "u64 \<Rightarrow> u64" where "PLIC_SENABLE h = PLIC + 0x2080 + h * 0x100"
definition PLIC_SPRIORITY :: "u64 \<Rightarrow> u64" where "PLIC_SPRIORITY h = PLIC + 0x201000 + h * 0x2000"
definition PLIC_SCLAIM :: "u64 \<Rightarrow> u64" where "PLIC_SCLAIM h = PLIC + 0x201004 + h * 0x2000"

text \<open>\<^verbatim>\<open>cpuid()\<close> is an \<^verbatim>\<open>int\<close>.\<close>

definition kcpuid :: "'z kvm_scheme \<Rightarrow> u64" where
  "kcpuid s = scast (ucast (r_tp (khart s)) :: u32)"

definition plic_write :: "u64 \<Rightarrow> u32 \<Rightarrow> 'z ktrap_scheme \<Rightarrow> 'z ktrap_scheme" where
  "plic_write a v s = s\<lparr>plic_out := plic_out s @ [(a, v)]\<rparr>"

definition plicinit :: "'z ktrap_scheme \<Rightarrow> 'z ktrap_scheme" where
  "plicinit s = plic_write (PLIC + ucast VIRTIO0_IRQ * 4) 1 (plic_write (PLIC + ucast UART0_IRQ * 4) 1 s)"

definition plicinithart :: "'z ktrap_scheme \<Rightarrow> 'z ktrap_scheme" where
  "plicinithart s =
     (let h = kcpuid s;
          s = plic_write (PLIC_SENABLE h) (push_bit (unat UART0_IRQ) 1 OR push_bit (unat VIRTIO0_IRQ) 1) s
      in plic_write (PLIC_SPRIORITY h) 0 s)"

definition plic_claim :: "'z ktrap_scheme \<Rightarrow> u32 \<times> 'z ktrap_scheme" where
  "plic_claim s = (case plic_claims s of [] \<Rightarrow> (0, s) | irq # is \<Rightarrow> (irq, s\<lparr>plic_claims := is\<rparr>))"

definition plic_complete :: "u32 \<Rightarrow> 'z ktrap_scheme \<Rightarrow> 'z ktrap_scheme" where
  "plic_complete irq s = plic_write (PLIC_SCLAIM (kcpuid s)) irq s"

subsection \<open>Device interrupts\<close>

definition clockintr :: "'z ktrap_scheme \<Rightarrow> ('z ktrap_scheme, 'z ktrap_scheme) res" where
  "clockintr s =
     andthen (acquire_lk TicksLock s) (\<lambda>s.
     andthen (wakeup TicksChan (s\<lparr>ticks := ticks s + 1\<rparr>)) (release_lk TicksLock))"

definition devintr :: "'z ktrap_scheme \<Rightarrow> ('z ktrap_scheme, int \<times> 'z ktrap_scheme) res" where
  "devintr s =
     (let scause = r_scause (khart s) in
      if scause AND 0x8000000000000000 \<noteq> 0 \<and> scause AND 0xff = 9 then
        (let (irq, s) = plic_claim s in
         andthen
           (if irq = UART0_IRQ then uartintr s
            else if irq = VIRTIO0_IRQ then virtio_disk_intr s
            else if irq \<noteq> 0 then printf (''unexpected interrupt irq=%d'' @ [CHR 0x0A]) [IntArg irq] s
            else Inr s) (\<lambda>s.
         Inr (1, if irq \<noteq> 0 then plic_complete irq s else s)))
      else if scause = 0x8000000000000001 then
        andthen (if kcpuid s = 0 then clockintr s else Inr s) (\<lambda>s.
        Inr (2, upd_hart (w_sip (r_sip (khart s) AND NOT 2)) s))
      else Inr (0, s))"

subsection \<open>Traps from user space\<close>

definition trapinithart :: "'z ktrap_scheme \<Rightarrow> 'z ktrap_scheme" where
  "trapinithart s = upd_hart (w_stvec (sym_kernelvec s)) s"

text \<open>
  \<^verbatim>\<open>usertrapret\<close> up to its jump into the trampoline page: the address it jumps to and the two arguments
  that \<^verbatim>\<open>userret\<close> gets.
\<close>

definition usertrapret :: "'z kproc_scheme \<Rightarrow> ('z kproc_scheme, (u64 \<times> u64 \<times> u64) \<times> 'z kproc_scheme) res" where
  "usertrapret s = with_proc s (\<lambda>p.
     let s = upd_hart intr_off s;
         s = upd_hart (w_stvec (TRAMPOLINE + (sym_uservec s - ktrampoline s))) s;
         s = set_tf p tf_kernel_satp (r_satp (khart s)) s;
         s = set_tf p tf_kernel_sp (p_kstack (procs s p) + PGSIZE) s;
         s = set_tf p tf_kernel_trap (sym_usertrap s) s;
         s = set_tf p tf_kernel_hartid (r_tp (khart s)) s;
         x = (r_sstatus (khart s) AND NOT SSTATUS_SPP) OR SSTATUS_SPIE;
         s = upd_hart (w_sstatus x) s;
         s = upd_hart (w_sepc (get_tf p tf_epc s)) s;
         satp = MAKE_SATP (p_pagetable (procs s p));
         fn = TRAMPOLINE + (sym_userret s - ktrampoline s)
     in Inr ((fn, TRAPFRAME, satp), s))"

datatype 's trap_exit = ToUser "u64 \<times> u64 \<times> u64" 's | Yielded 's

definition to_user :: "'z ktrap_scheme \<Rightarrow> ('z ktrap_scheme, 'z ktrap_scheme trap_exit) res" where
  "to_user s = andthen (usertrapret s) (\<lambda>(jump, s). Inr (ToUser jump s))"

text \<open>The cause of the trap: a system call, a device, or a fault that kills the process.\<close>

definition user_cause :: "nat \<Rightarrow> 'z ktrap_scheme \<Rightarrow> ('z ktrap_scheme, int \<times> 'z ktrap_scheme) res" where
  "user_cause p s =
     (if r_scause (khart s) = 8 then
        if p_killed (procs s p) then exit (-1) s
        else
          (let s = set_tf p tf_epc (get_tf p tf_epc s + 4) s in
           andthen (syscall (upd_hart intr_on s)) (\<lambda>s. Inr (0, s)))
      else
        andthen (devintr s) (\<lambda>(which_dev, s).
        if which_dev \<noteq> 0 then Inr (which_dev, s)
        else
          andthen (printf (''usertrap(): unexpected scause %p pid=%d'' @ [CHR 0x0A])
            [LongArg (r_scause (khart s)), IntArg (of_int (p_pid (procs s p)))] s) (\<lambda>s.
          andthen (printf (''            sepc=%p stval=%p'' @ [CHR 0x0A])
            [LongArg (r_sepc (khart s)), LongArg (r_stval (khart s))] s) (\<lambda>s.
          Inr (0, upd_proc p (\<lambda>q. q\<lparr>p_killed := True\<rparr>) s)))))"

definition usertrap :: "'z ktrap_scheme \<Rightarrow> ('z ktrap_scheme, 'z ktrap_scheme trap_exit) res" where
  "usertrap s =
     (if r_sstatus (khart s) AND SSTATUS_SPP \<noteq> 0 then Inl (Panic ''usertrap: not from user mode'')
      else
        (let s = upd_hart (w_stvec (sym_kernelvec s)) s in with_proc s (\<lambda>p.
         let s = set_tf p tf_epc (r_sepc (khart s)) s in
         andthen (user_cause p s) (\<lambda>(which_dev, s).
         if p_killed (procs s p) then exit (-1) s
         else if which_dev = 2 then andthen (yield s) (\<lambda>s. Inr (Yielded s))
         else to_user s))))"

definition usertrap_resume :: "'z ktrap_scheme \<Rightarrow> ('z ktrap_scheme, 'z ktrap_scheme trap_exit) res" where
  "usertrap_resume s = andthen (yield_resume s) to_user"

text \<open>The first run of a process.\<close>

definition forkret :: "'z ktrap_scheme \<Rightarrow> ('z ktrap_scheme, 'z ktrap_scheme trap_exit) res" where
  "forkret s = with_proc s (\<lambda>p.
     andthen (release_lk (ProcLock p) s) (\<lambda>s.
     andthen (if ret_first s then fsinit ROOTDEV (s\<lparr>ret_first := False\<rparr>) else Inr s) to_user))"

subsection \<open>Traps from the kernel\<close>

text \<open>\<open>Some\<close> when the handler yields: the values of the registers that it restores afterwards.\<close>

definition kerneltrap_end :: "u64 \<Rightarrow> u64 \<Rightarrow> 'z ktrap_scheme \<Rightarrow> 'z ktrap_scheme" where
  "kerneltrap_end sepc sstatus s = upd_hart (w_sstatus sstatus) (upd_hart (w_sepc sepc) s)"

definition kerneltrap :: "'z ktrap_scheme \<Rightarrow> ('z ktrap_scheme, (u64 \<times> u64) option \<times> 'z ktrap_scheme) res" where
  "kerneltrap s =
     (let sepc = r_sepc (khart s); sstatus = r_sstatus (khart s); scause = r_scause (khart s) in
      if sstatus AND SSTATUS_SPP = 0 then Inl (Panic ''kerneltrap: not from supervisor mode'')
      else if intr_get (khart s) then Inl (Panic ''kerneltrap: interrupts enabled'')
      else
        andthen (devintr s) (\<lambda>(which_dev, s).
        if which_dev = 0 then
          andthen (printf (''scause %p'' @ [CHR 0x0A]) [LongArg scause] s) (\<lambda>s.
          andthen (printf (''sepc=%p stval=%p'' @ [CHR 0x0A])
            [LongArg (r_sepc (khart s)), LongArg (r_stval (khart s))] s) (\<lambda>s.
          Inl (Panic ''kerneltrap'')))
        else if which_dev = 2 \<and> (case myproc s of None \<Rightarrow> False | Some p \<Rightarrow> p_state (procs s p) = RUNNING) then
          andthen (yield s) (\<lambda>s. Inr (Some (sepc, sstatus), s))
        else Inr (None, kerneltrap_end sepc sstatus s)))"

definition kerneltrap_resume :: "u64 \<Rightarrow> u64 \<Rightarrow> 'z ktrap_scheme \<Rightarrow> ('z ktrap_scheme, 'z ktrap_scheme) res" where
  "kerneltrap_resume sepc sstatus s =
     andthen (yield_resume s) (\<lambda>s. Inr (kerneltrap_end sepc sstatus s))"

end
