(* ===== verification/Sleep_Live.thy ===== *)
theory Sleep_Live
  imports Trap
begin

section \<open>The sleep system call returns\<close>

text \<open>
  The composition of \<^verbatim>\<open>sys_sleep\<close>, \<^verbatim>\<open>clockintr\<close>, \<^verbatim>\<open>wakeup\<close> and the scheduler. While the process sleeps the CPU is in the
  scheduler, where timer interrupts are taken.
\<close>

text \<open>
  One clock tick in the life of the sleeping process \<open>p\<close>: the scheduler gets the CPU back, the timer interrupts it, the
  scheduler visits the slot of \<open>p\<close>, and \<open>p\<close> goes on in \<^verbatim>\<open>sleep\<close>.
\<close>

definition one_tick :: "nat \<Rightarrow> int \<Rightarrow> u32 \<Rightarrow> 'z ktrap_scheme \<Rightarrow> ('z ktrap_scheme, u64 \<times> 'z ktrap_scheme) res" where
  "one_tick p n ticks0 s =
     andthen (scheduler_back p s) (\<lambda>s.
     andthen (clockintr s) (\<lambda>s.
     andthen (scheduler_visit p s) (\<lambda>(r, s).
     case r of None \<Rightarrow> Inl Hang | Some _ \<Rightarrow> sys_sleep_resume n ticks0 s)))"

fun run_ticks :: "nat \<Rightarrow> int \<Rightarrow> u32 \<Rightarrow> nat \<Rightarrow> ('z ktrap_scheme, u64 \<times> 'z ktrap_scheme) res \<Rightarrow>
    ('z ktrap_scheme, u64 \<times> 'z ktrap_scheme) res" where
  "run_ticks p n ticks0 0 r = r"
| "run_ticks p n ticks0 (Suc k) r =
     (case run_ticks p n ticks0 k r of Inl (Sleeping _ s) \<Rightarrow> one_tick p n ticks0 s | r \<Rightarrow> r)"

definition asleep :: "nat \<Rightarrow> 'z ksync_scheme \<Rightarrow> bool" where
  "asleep p s \<longleftrightarrow> p < NPROC \<and> held s = {ProcLock p} \<and> curproc s = Some p \<and> p_state (procs s p) = SLEEPING \<and>
     p_chan (procs s p) = Some TicksChan \<and> \<not> p_killed (procs s p)"

text \<open>The loop of \<^verbatim>\<open>sys_sleep\<close> with its lock held: it sleeps while fewer than \<open>n\<close> ticks have passed, as unsigned numbers.\<close>

lemma sys_sleep_loop_eq:
  fixes s :: "'z kproc_scheme"
  assumes "curproc s = Some p" and "held s = {TicksLock}" and "\<not> p_killed (procs s p)" and "p < NPROC"
  shows "ticks s - t0 < of_int n \<Longrightarrow> \<exists>t. sys_sleep_loop n t0 s = Inl (Sleeping TicksChan t) \<and> asleep p t \<and> ticks t = ticks s"
    and "\<not> ticks s - t0 < of_int n \<Longrightarrow> \<exists>t. sys_sleep_loop n t0 s = Inr (0, t) \<and> held t = {} \<and> ticks t = ticks s"
  using assms by (auto simp: sys_sleep_loop_def sleep_eq asleep_def release_lk_def)

lemma one_tick_eq:
  fixes s :: "'z ktrap_scheme"
  assumes a: "asleep p s"
  obtains t where "one_tick p n t0 s = sys_sleep_loop n t0 t" and "curproc t = Some p" and "held t = {TicksLock}"
    and "\<not> p_killed (procs t p)" and "ticks t = ticks s + 1"
proof -
  let ?s1 = "s\<lparr>curproc := None, held := {}\<rparr>"
  let ?s2 = "?s1\<lparr>ticks := ticks s + 1, procs := awake_in TicksChan None {0..<NPROC} (procs s)\<rparr>"
  have b: "scheduler_back p s = Inr ?s1" using a by (simp add: scheduler_back_def release_lk_def asleep_def)
  have nn: "no_proc_lock (?s1\<lparr>held := {TicksLock}, ticks := ticks s + 1\<rparr>)" by (simp add: no_proc_lock_def)
  have c: "clockintr ?s1 = Inr ?s2" using wakeup_eq [OF nn] by (simp add: clockintr_def acquire_lk_def release_lk_def)
  have r: "p_state (procs ?s2 p) = RUNNABLE" using a by (simp add: awake_in_def awake_def asleep_def)
  let ?s3 = "(upd_proc p (\<lambda>q. q\<lparr>p_state := RUNNING\<rparr>) (?s2\<lparr>held := {ProcLock p}\<rparr>))\<lparr>curproc := Some p\<rparr>"
  have v: "scheduler_visit p ?s2 = Inr (Some p, ?s3)" using r by (simp add: scheduler_visit_def acquire_lk_def)
  let ?s4 = "(upd_proc p (\<lambda>q. q\<lparr>p_chan := None\<rparr>) ?s3)\<lparr>held := {TicksLock}\<rparr>"
  have w: "sleep_resume TicksLock ?s3 = Inr ?s4" by (simp add: sleep_resume_def release_lk_def acquire_lk_def)
  have "one_tick p n t0 s = sys_sleep_loop n t0 ?s4"
    unfolding one_tick_def b andthen_simps c v prod.case option.case sys_sleep_resume_def w ..
  then show ?thesis using a by (intro that [of ?s4]) (simp_all add: awake_in_def awake_def asleep_def)
qed

lemma run_ticks_state:
  fixes s :: "'z ktrap_scheme"
  assumes cur: "curproc s = Some p" "p < NPROC" and held: "held s = {}" and live: "\<not> p_killed (procs s p)"
    and arg: "argint 0 s = Inr n" and k: "k \<le> unat (of_int n :: u32)"
  shows "\<exists>t. ticks t = ticks s + of_nat k \<and>
    (if k < unat (of_int n :: u32) then run_ticks p n (ticks s) k (sys_sleep s) = Inl (Sleeping TicksChan t) \<and> asleep p t
     else run_ticks p n (ticks s) k (sys_sleep s) = Inr (0, t) \<and> held t = {})"
proof -
  have less: "(of_nat j :: u32) < of_int n \<longleftrightarrow> j < unat (of_int n :: u32)" if "j \<le> unat (of_int n :: u32)" for j
    using that unat_less_exp [of "of_int n :: u32"] by (simp add: word_less_nat_alt unat_of_nat_32)
  show ?thesis using k
  proof (induction k)
    case 0
    let ?s = "s\<lparr>held := {TicksLock}\<rparr>"
    have "sys_sleep s = sys_sleep_loop n (ticks s) ?s" using arg held by (simp add: sys_sleep_def acquire_lk_def)
    then show ?case using sys_sleep_loop_eq [of ?s p "ticks s" n] cur live less [of 0] by auto
  next
    case (Suc k)
    then obtain t where t: "ticks t = ticks s + of_nat k" "run_ticks p n (ticks s) k (sys_sleep s) = Inl (Sleeping TicksChan t)" "asleep p t"
      by auto
    obtain u where u: "one_tick p n (ticks s) t = sys_sleep_loop n (ticks s) u" "curproc u = Some p" "held u = {TicksLock}"
      "\<not> p_killed (procs u p)" "ticks u = ticks t + 1" by (rule one_tick_eq [OF t(3), of n "ticks s"], rule that)
    have d: "ticks u - ticks s = of_nat (Suc k)" "ticks u = ticks s + of_nat (Suc k)" using u(5) t(1) by simp_all
    have "run_ticks p n (ticks s) (Suc k) (sys_sleep s) = sys_sleep_loop n (ticks s) u" using t(2) u(1) by simp
    then show ?case using sys_sleep_loop_eq [OF u(2-4) cur(2), of "ticks s" n] d less [OF Suc.prems] by auto
  qed
qed

text \<open>
  C14. \<^verbatim>\<open>sleep(n)\<close> returns 0 after exactly \<open>n\<close> clock ticks and not earlier, if the process is not killed: each tick wakes it,
  the scheduler finds it runnable, and it counts. The argument counts as an unsigned number, so a negative \<open>n\<close> sleeps
  for \<open>2 ^ 32 + n\<close> ticks; and the count is right even when \<^verbatim>\<open>ticks\<close> wraps around in between.
\<close>

theorem sys_sleep_returns:
  fixes s :: "'z ktrap_scheme"
  assumes "curproc s = Some p" and "p < NPROC" and "held s = {}" and "\<not> p_killed (procs s p)" and "argint 0 s = Inr n"
  shows "(\<exists>t. run_ticks p n (ticks s) (unat (of_int n :: u32)) (sys_sleep s) = Inr (0, t) \<and>
      ticks t = ticks s + of_int n \<and> held t = {}) \<and>
    (\<forall>k < unat (of_int n :: u32). \<exists>t. run_ticks p n (ticks s) k (sys_sleep s) = Inl (Sleeping TicksChan t))"
proof (intro conjI allI impI)
  have "word_of_nat (unat (of_int n :: u32)) = (of_int n :: u32)" by simp
  then show "\<exists>t. run_ticks p n (ticks s) (unat (of_int n :: u32)) (sys_sleep s) = Inr (0, t) \<and>
      ticks t = ticks s + of_int n \<and> held t = {}"
    using run_ticks_state [OF assms, of "unat (of_int n :: u32)"] by auto
next
  fix k assume "k < unat (of_int n :: u32)"
  then show "\<exists>t. run_ticks p n (ticks s) k (sys_sleep s) = Inl (Sleeping TicksChan t)"
    using run_ticks_state [OF assms, of k] by auto
qed

subsection \<open>An example\<close>

text \<open>A kernel in which process 0 runs with 2 in its saved register a0.\<close>

definition ktrap_ex :: ktrap where
  "ktrap_ex = (kdisk.extend (kproc.extend (kfile.extend (kfs.extend (kfs_boot fs_sb fs_inodes (\<lambda>_. fs_map))
     \<lparr>ftable = (\<lambda>_. \<lparr>f_type = FD_NONE, f_ref = 0, f_readable = False, f_writable = False, f_pipe = 0, f_ip = None,
        f_off = 0, f_major = 0\<rparr>), stack_pad = []\<rparr>)
     \<lparr>sym_forkret = 0, sym_usertrap = 0, sym_uservec = 0, sym_userret = 0, sym_kernelvec = 0, ret_first = False\<rparr>)
     \<lparr>vd_pages = 0, vd_desc = (\<lambda>_. \<lparr>d_addr = NullPtr, d_len = 0, d_flags = 0, d_next = 0\<rparr>), vd_avail_idx = 0,
      vd_avail_ring = (\<lambda>_. 0), vd_used_ring_idx = 0, vd_used_ring = (\<lambda>_. 0), vd_free = (\<lambda>_. True), vd_used_idx = 0,
      vd_info = (\<lambda>_. \<lparr>info_b = None, info_status = 0\<rparr>), vd_ops = (\<lambda>_. \<lparr>req_type = 0, req_reserved = 0, req_sector = 0\<rparr>),
      buf_disk = (\<lambda>_. False), vd_reg = (\<lambda>_. 0), vd_out = []\<rparr>)
     \<lparr>plic_claims = [], plic_out = [], started = True\<rparr>)
     \<lparr>held := {}, curproc := Some 0, mem := store64 (\<lambda>_. 0) 112 2,
      procs := procs (ksync_ex RUNNING)\<rparr>"

lemma ktrap_ex_fields:
  "held ktrap_ex = {}" "curproc ktrap_ex = Some 0" "procs ktrap_ex = procs (ksync_ex RUNNING)"
  "mem ktrap_ex = store64 (\<lambda>_. 0) 112 2"
  by (simp_all add: ktrap_ex_def)

theorem sys_sleep_returns_witness:
  "\<exists>t. run_ticks 0 2 (ticks ktrap_ex) 2 (sys_sleep ktrap_ex) = Inr (0, t) \<and> ticks t = ticks ktrap_ex + 2"
proof -
  have "argint 0 ktrap_ex = Inr 2"
    by (simp add: argint_def argraw_def get_tf_def tf_a_def ktrap_ex_fields ksync_ex_def)
  moreover have "\<not> p_killed (procs ktrap_ex 0)" by (simp add: ktrap_ex_fields ksync_ex_def)
  ultimately show ?thesis using sys_sleep_returns [of ktrap_ex 0 2] by (auto simp: ktrap_ex_fields NPROC_def)
qed

end
