(* ===== verification/Trap_Path.thy ===== *)
theory Trap_Path
  imports Sleep_Live
begin

section \<open>From the trap to the system call and back\<close>

text \<open>The path of a system call through \<^verbatim>\<open>usertrap\<close>, \<^verbatim>\<open>syscall\<close> and \<^verbatim>\<open>usertrapret\<close>.\<close>

lemma set_tf_fields [simp]:
  "khart (set_tf p off v s) = khart s" "procs (set_tf p off v s) = procs s" "curproc (set_tf p off v s) = curproc s"
  "sym_uservec (set_tf p off v s) = sym_uservec s" "sym_usertrap (set_tf p off v s) = sym_usertrap s"
  "sym_userret (set_tf p off v s) = sym_userret s" "ktrampoline (set_tf p off v s) = ktrampoline s"
  "held (set_tf p off v s) = held s"
  by (simp_all add: set_tf_def set_mem_def)

lemma upd_hart_fields [simp]:
  "khart (upd_hart f s) = f (khart s)" "procs (upd_hart f s) = procs s" "curproc (upd_hart f s) = curproc s" "mem (upd_hart f s) = mem s"
  by (simp_all add: upd_hart_def)

lemma upd_hart_syms [simp]:
  fixes s :: "'z kproc_scheme"
  shows "sym_uservec (upd_hart f s) = sym_uservec s" "sym_usertrap (upd_hart f s) = sym_usertrap s"
    "sym_userret (upd_hart f s) = sym_userret s" "ktrampoline (upd_hart f s) = ktrampoline s"
    "get_tf p off (upd_hart f s) = get_tf p off s"
  by (simp_all add: upd_hart_def get_tf_def)

text \<open>Slots of the trap frame do not overlap.\<close>

lemma get_set_tf [simp]: "get_tf p off (set_tf p off v s) = v"
  by (simp add: get_tf_def set_tf_def set_mem_def)

lemma get_set_tf_other:
  assumes "apart a 8 b 8"
  shows "get_tf p a (set_tf p b v s) = get_tf p a s"
proof -
  have "apart (x + a) 8 (x + b) 8" for x using assms by (simp add: apart_def)
  then show ?thesis by (simp add: get_tf_def set_tf_def set_mem_def load64_store64_apart)
qed

lemma tf_slots_apart:
  "apart (tf_a 0) 8 tf_kernel_satp 8" "apart (tf_a 0) 8 tf_kernel_sp 8" "apart (tf_a 0) 8 tf_kernel_trap 8"
  "apart (tf_a 0) 8 tf_kernel_hartid 8" "apart (tf_a 0) 8 tf_epc 8"
  "apart tf_epc 8 tf_kernel_satp 8" "apart tf_epc 8 tf_kernel_sp 8" "apart tf_epc 8 tf_kernel_trap 8"
  "apart tf_epc 8 tf_kernel_hartid 8" "apart tf_epc 8 (tf_a 0) 8"
  "apart tf_kernel_satp 8 tf_kernel_sp 8" "apart tf_kernel_satp 8 tf_kernel_trap 8" "apart tf_kernel_satp 8 tf_kernel_hartid 8"
  "apart tf_kernel_sp 8 tf_kernel_trap 8" "apart tf_kernel_sp 8 tf_kernel_hartid 8" "apart tf_kernel_trap 8 tf_kernel_hartid 8"
  by (simp_all add: apart_def tf_defs)

lemmas get_set_tf_slots [simp] = tf_slots_apart [THEN get_set_tf_other]

text \<open>The slots of the user registers are those from 40 on, after the kernel's.\<close>

lemma tf_kernel_apart:
  assumes "40 \<le> unat off" "unat off + 8 \<le> 4096" "unat k + 8 \<le> 40"
  shows "apart off 8 k 8"
proof -
  have d: "unat (off - k) = unat off - unat k" using assms by (intro unat_minus_le) (simp add: word_le_nat_alt)
  moreover have "off \<noteq> k" using assms by auto
  ultimately have "unat (k - off) = 2 ^ 64 - (unat off - unat k)" using unat_uminus [of "off - k"] by simp
  then show ?thesis unfolding apart_def using d assms by (simp, linarith)
qed

lemma get_set_tf_user:
  assumes "40 \<le> unat off" "unat off + 8 \<le> 4096"
  shows "get_tf p off (set_tf p tf_kernel_satp v s) = get_tf p off s" "get_tf p off (set_tf p tf_kernel_sp v s) = get_tf p off s"
    "get_tf p off (set_tf p tf_kernel_trap v s) = get_tf p off s" "get_tf p off (set_tf p tf_kernel_hartid v s) = get_tf p off s"
    "get_tf p off (set_tf p tf_epc v s) = get_tf p off s"
  by (rule get_set_tf_other, rule tf_kernel_apart [OF assms], simp add: tf_defs)+

lemma set_tf_outside:
  assumes "unat off + 8 \<le> 4096" "4096 \<le> unat (x - p_trapframe (procs s p))"
  shows "mem (set_tf p off v s) x = mem s x"
  using store64_in [OF assms] by (simp add: set_tf_def set_mem_def)

text \<open>\<^verbatim>\<open>usertrapret\<close>: how the processor and the trap frame are left.\<close>

definition user_ready :: "nat \<Rightarrow> 'z kproc_scheme \<Rightarrow> bool" where
  "user_ready p t \<longleftrightarrow> \<not> bit (r_sstatus (khart t)) 8 \<and> bit (r_sstatus (khart t)) 5 \<and> \<not> bit (r_sstatus (khart t)) 1 \<and>
     r_stvec (khart t) = TRAMPOLINE + (sym_uservec t - ktrampoline t) \<and> r_sepc (khart t) = get_tf p tf_epc t \<and>
     get_tf p tf_kernel_satp t = r_satp (khart t) \<and> get_tf p tf_kernel_sp t = p_kstack (procs t p) + PGSIZE \<and>
     get_tf p tf_kernel_trap t = sym_usertrap t \<and> get_tf p tf_kernel_hartid t = r_tp (khart t)"

lemma bit_SSTATUS [simp]: "bit SSTATUS_SPP n \<longleftrightarrow> n = 8" "bit SSTATUS_SPIE n \<longleftrightarrow> n = 5"
  unfolding SSTATUS_SPP_def SSTATUS_SPIE_def push_bit_of_1 bit_exp_iff by auto

lemma usertrapret_ok:
  assumes "curproc s = Some p"
  obtains t where "usertrapret s = Inr ((TRAMPOLINE + (sym_userret s - ktrampoline s), TRAPFRAME, MAKE_SATP (p_pagetable (procs s p))), t)"
    and "user_ready p t" and "get_tf p (tf_a 0) t = get_tf p (tf_a 0) s" and "get_tf p tf_epc t = get_tf p tf_epc s"
    and "curproc t = Some p" and "procs t = procs s"
    and "\<And>off. 40 \<le> unat off \<Longrightarrow> unat off + 8 \<le> 4096 \<Longrightarrow> get_tf p off t = get_tf p off s"
    and "\<And>x. 4096 \<le> unat (x - p_trapframe (procs s p)) \<Longrightarrow> mem t x = mem s x"
proof -
  have bits: "bit (((x AND NOT SSTATUS_SIE) AND NOT SSTATUS_SPP) OR SSTATUS_SPIE) k \<longleftrightarrow>
      (if k = 8 \<or> k = 1 then False else if k = 5 then True else bit x k)" if "k < 64" for x k
    using that by (auto simp: bit_or_iff bit_and_iff bit_not_iff)
  define t where "t = snd (projr (usertrapret s))"
  note t = t_def usertrapret_def assms Let_def
  show ?thesis
  proof (rule that [of t])
    show "usertrapret s = Inr ((TRAMPOLINE + (sym_userret s - ktrampoline s), TRAPFRAME, MAKE_SATP (p_pagetable (procs s p))), t)"
      by (simp add: t)
    show "user_ready p t" by (simp add: t user_ready_def) (simp add: intr_off_def csr_defs bits)
    show "get_tf p (tf_a 0) t = get_tf p (tf_a 0) s" "get_tf p tf_epc t = get_tf p tf_epc s" "curproc t = Some p" "procs t = procs s"
      by (simp_all add: t)
    show "get_tf p off t = get_tf p off s" if "40 \<le> unat off" "unat off + 8 \<le> 4096" for off
      by (simp add: t get_set_tf_user [OF that])
    show "mem t x = mem s x" if "4096 \<le> unat (x - p_trapframe (procs s p))" for x
      using that by (simp add: t set_tf_outside tf_defs)
  qed
qed

text \<open>The state in which \<^verbatim>\<open>usertrap\<close> calls \<^verbatim>\<open>syscall\<close>: the trap vector is the kernel's, the saved pc is after the \<^verbatim>\<open>ecall\<close>.\<close>

definition at_syscall :: "nat \<Rightarrow> 'z ktrap_scheme \<Rightarrow> 'z ktrap_scheme" where
  "at_syscall p s =
     (let s1 = set_tf p tf_epc (r_sepc (khart s)) (upd_hart (w_stvec (sym_kernelvec s)) s)
      in upd_hart intr_on (set_tf p tf_epc (r_sepc (khart s) + 4) s1))"

lemma at_syscall_fields:
  "get_tf p (tf_a 7) (at_syscall p s) = get_tf p (tf_a 7) s" "get_tf p tf_epc (at_syscall p s) = r_sepc (khart s) + 4"
  "curproc (at_syscall p s) = curproc s" "procs (at_syscall p s) = procs s"
  "40 \<le> unat off \<Longrightarrow> unat off + 8 \<le> 4096 \<Longrightarrow> get_tf p off (at_syscall p s) = get_tf p off s"
proof -
  have "apart (tf_a 7) 8 tf_epc 8" by (simp add: apart_def tf_defs)
  note a = get_set_tf_other [OF this]
  show "get_tf p (tf_a 7) (at_syscall p s) = get_tf p (tf_a 7) s" "get_tf p tf_epc (at_syscall p s) = r_sepc (khart s) + 4"
    "curproc (at_syscall p s) = curproc s" "procs (at_syscall p s) = procs s"
    by (simp_all add: at_syscall_def Let_def a)
  show "40 \<le> unat off \<Longrightarrow> unat off + 8 \<le> 4096 \<Longrightarrow> get_tf p off (at_syscall p s) = get_tf p off s"
    by (simp add: at_syscall_def Let_def get_set_tf_user)
qed

text \<open>A handler that stops, and one that returns to a process that has been killed.\<close>

lemma user_cause_syscall:
  fixes s :: "'z ktrap_scheme"
  assumes "r_scause (khart s) = 8" and "curproc s = Some p" and "\<not> p_killed (procs s p)"
    and "map_of syscalls (sint (ucast (get_tf p (tf_a 7) s) :: u32)) = Some f"
  shows "user_cause p (set_tf p tf_epc (r_sepc (khart s)) (upd_hart (w_stvec (sym_kernelvec s)) s)) =
    andthen (f (at_syscall p s)) (\<lambda>(v, u). Inr (0, set_tf p (tf_a 0) v u))"
proof -
  have "syscall (at_syscall p s) = andthen (f (at_syscall p s)) (\<lambda>(v, u). Inr (set_tf p (tf_a 0) v u))"
    using assms(2,4) by (simp add: syscall_def at_syscall_fields Let_def)
  then show ?thesis using assms(1,3)
    by (cases "f (at_syscall p s)") (auto simp: user_cause_def at_syscall_def Let_def csr_defs split: prod.splits)
qed

lemma usertrap_stops:
  fixes s :: "'z ktrap_scheme"
  assumes "r_sstatus (khart s) AND SSTATUS_SPP = 0" and "r_scause (khart s) = 8" and "curproc s = Some p"
    and "\<not> p_killed (procs s p)" and "map_of syscalls (sint (ucast (get_tf p (tf_a 7) s) :: u32)) = Some f"
  shows "f (at_syscall p s) = Inl e \<Longrightarrow> usertrap s = Inl e"
  using assms(1,3) user_cause_syscall [OF assms(2-5)] by (simp add: usertrap_def Let_def csr_defs)

lemma usertrap_killed:
  fixes s :: "'z ktrap_scheme"
  assumes "r_sstatus (khart s) AND SSTATUS_SPP = 0" and "r_scause (khart s) = 8" and "curproc s = Some p"
    and "\<not> p_killed (procs s p)" and "map_of syscalls (sint (ucast (get_tf p (tf_a 7) s) :: u32)) = Some f"
  shows "f (at_syscall p s) = Inr (v, u) \<Longrightarrow> p_killed (procs u p) \<Longrightarrow> usertrap s = exit (-1) (set_tf p (tf_a 0) v u)"
  using assms(1,3) user_cause_syscall [OF assms(2-5)] by (simp add: usertrap_def Let_def csr_defs)

text \<open>
  The path of a system call through the C code. A trap from user mode with cause 8 of a process that is not killed runs the
  handler that the number in a7 selects, in a state whose saved pc is 4 after the \<^verbatim>\<open>ecall\<close>. When the handler returns \<open>v\<close> and
  the process has not been killed meanwhile, the kernel goes back to user space with \<open>v\<close> in a0 and at the saved pc; the
  previous mode is user, interrupts are off until the return and on after it, and the trap vector and the kernel
  fields of the trap frame are set for the next trap, with the page table of the process.
\<close>

lemma usertrap_syscall:
  fixes s :: "'z ktrap_scheme"
  assumes "r_sstatus (khart s) AND SSTATUS_SPP = 0" and "r_scause (khart s) = 8" and "curproc s = Some p"
    and "\<not> p_killed (procs s p)" and "map_of syscalls (sint (ucast (get_tf p (tf_a 7) s) :: u32)) = Some f"
    and "f (at_syscall p s) = Inr (v, u)" and "curproc u = Some p" and "\<not> p_killed (procs u p)"
  obtains t where "usertrap s = Inr (ToUser (TRAMPOLINE + (sym_userret u - ktrampoline u), TRAPFRAME, MAKE_SATP (p_pagetable (procs u p))) t)"
    and "user_ready p t" and "procs t = procs u" and "curproc t = Some p" and "get_tf p (tf_a 0) t = v" and "r_sepc (khart t) = get_tf p tf_epc u"
    and "\<And>off. 40 \<le> unat off \<Longrightarrow> unat off + 8 \<le> 4096 \<Longrightarrow> apart off 8 (tf_a 0) 8 \<Longrightarrow> get_tf p off t = get_tf p off u"
    and "\<And>x. 4096 \<le> unat (x - p_trapframe (procs u p)) \<Longrightarrow> mem t x = mem u x"
proof -
  let ?u = "set_tf p (tf_a 0) v u"
  have c: "user_cause p (set_tf p tf_epc (r_sepc (khart s)) (upd_hart (w_stvec (sym_kernelvec s)) s)) = Inr (0, ?u)"
    using user_cause_syscall [OF assms(2-5)] assms(6) by simp
  have cu: "curproc ?u = Some p" using assms(7) by simp
  obtain t where t: "usertrapret ?u = Inr ((TRAMPOLINE + (sym_userret ?u - ktrampoline ?u), TRAPFRAME, MAKE_SATP (p_pagetable (procs ?u p))), t)"
    "user_ready p t" "get_tf p (tf_a 0) t = get_tf p (tf_a 0) ?u" "get_tf p tf_epc t = get_tf p tf_epc ?u" "curproc t = Some p" "procs t = procs ?u"
    "\<And>off. 40 \<le> unat off \<Longrightarrow> unat off + 8 \<le> 4096 \<Longrightarrow> get_tf p off t = get_tf p off ?u"
    "\<And>x. 4096 \<le> unat (x - p_trapframe (procs ?u p)) \<Longrightarrow> mem t x = mem ?u x"
    by (rule usertrapret_ok [OF cu], rule that)
  have "usertrap s = to_user ?u"
    using assms(1,3,8) c by (simp add: usertrap_def Let_def csr_defs)
  then have "usertrap s = Inr (ToUser (TRAMPOLINE + (sym_userret u - ktrampoline u), TRAPFRAME, MAKE_SATP (p_pagetable (procs u p))) t)"
    using t(1) by (simp add: to_user_def)
  moreover have "get_tf p (tf_a 0) t = v" "r_sepc (khart t) = get_tf p tf_epc u" using t(2-4) by (simp_all add: user_ready_def)
  ultimately show ?thesis using t by (intro that [of t]) (simp_all add: get_set_tf_other set_tf_outside tf_defs)
qed

end
