(* ===== verification/Boot.thy ===== *)
theory Boot
  imports Trap
begin

section \<open>Booting\<close>

text \<open>
  \<^verbatim>\<open>kernel/start.c\<close>, which every hart runs in machine mode, and \<^verbatim>\<open>kernel/main.c\<close>. \<open>mboot\<close> is the state that
  machine mode works on: the hart's registers, the timer device and the scratch areas of the timer handler.
  \<open>start\<close> ends at its \<^verbatim>\<open>mret\<close>, and \<open>main\<close> at the call of \<^verbatim>\<open>scheduler\<close>, which does not return. A hart other
  than 0 that finds \<^verbatim>\<open>started\<close> clear stays in its loop as long as nobody else sets it: \<open>Hang\<close>.
\<close>

record mboot =
  bhart :: hart
  mtime :: u64
  mtimecmp :: "u64 \<Rightarrow> u64"
  timer_scratch :: "nat \<Rightarrow> nat \<Rightarrow> u64"
  sym_timer_scratch :: u64
  sym_timervec :: u64
  sym_main :: u64

definition upd_bhart :: "(hart \<Rightarrow> hart) \<Rightarrow> mboot \<Rightarrow> mboot" where
  "upd_bhart f s = s\<lparr>bhart := f (bhart s)\<rparr>"

text \<open>\<^verbatim>\<open>int id = r_mhartid()\<close>, as it is passed on and used as an index.\<close>

definition hartid :: "hart \<Rightarrow> u64" where
  "hartid h = scast (ucast (r_mhartid h) :: u32)"

definition timerinit :: "mboot \<Rightarrow> mboot" where
  "timerinit s =
     (let id = hartid (bhart s);
          interval = 1000000;
          s = s\<lparr>mtimecmp := (mtimecmp s)(CLINT_MTIMECMP id := mtime s + interval)\<rparr>;
          s = s\<lparr>timer_scratch := (timer_scratch s)(unat id := (timer_scratch s (unat id))(3 := CLINT_MTIMECMP id, 4 := interval))\<rparr>;
          s = upd_bhart (w_mscratch (sym_timer_scratch s + 40 * id)) s;
          s = upd_bhart (w_mtvec (sym_timervec s)) s;
          s = upd_bhart (\<lambda>h. w_mstatus (r_mstatus h OR MSTATUS_MIE) h) s
      in upd_bhart (\<lambda>h. w_mie (r_mie h OR MIE_MTIE) h) s)"

definition start :: "mboot \<Rightarrow> mboot" where
  "start s =
     (let x = (r_mstatus (bhart s) AND NOT MSTATUS_MPP_MASK) OR MSTATUS_MPP_S;
          s = upd_bhart (w_mstatus x) s;
          s = upd_bhart (w_mepc (sym_main s)) s;
          s = upd_bhart (w_satp 0) s;
          s = upd_bhart (w_medeleg 0xffff) s;
          s = upd_bhart (w_mideleg 0xffff) s;
          s = upd_bhart (\<lambda>h. w_sie (r_sie h OR SIE_SEIE OR SIE_STIE OR SIE_SSIE) h) s;
          s = upd_bhart (w_pmpaddr0 0x3fffffffffffff) s;
          s = upd_bhart (w_pmpcfg0 0xf) s;
          s = timerinit s
      in upd_bhart (\<lambda>h. w_tp (hartid h) h) s)"

definition main :: "'z ktrap_scheme \<Rightarrow> ('z ktrap_scheme, 'z ktrap_scheme) res" where
  "main s =
     (if kcpuid s = 0 then
        (let s = printfinit (consoleinit s) in
         andthen (printf [CHR 0x0A] [] s) (\<lambda>s.
         andthen (printf (''xv6 kernel is booting'' @ [CHR 0x0A]) [] s) (\<lambda>s.
         andthen (printf [CHR 0x0A] [] s) (\<lambda>s.
         andthen (kinit s) (\<lambda>s.
         andthen (kvminit s) (\<lambda>s.
         let s = kvminithart s;
             s = procinit s;
             s = trapinithart s;
             s = plicinithart (plicinit s);
             s = iinit (binit s) in
         andthen (virtio_disk_init s) (\<lambda>s.
         andthen (userinit s) (\<lambda>s.
         Inr (s\<lparr>started := True\<rparr>)))))))))
      else if \<not> started s then Inl Hang
      else
        andthen (printf (''hart %d starting'' @ [CHR 0x0A]) [IntArg (ucast (kcpuid s))] s) (\<lambda>s.
        Inr (plicinithart (trapinithart (kvminithart s)))))"

end
