(* ===== verification/User_Lib.thy ===== *)
theory User_Lib
  imports Xv6_Base
begin

section \<open>What user programs build on\<close>

text \<open>
  User programs see the kernel through system calls, so \<^verbatim>\<open>read\<close> is a parameter of their models: a
  function from the number of bytes asked for and the state of the file to the bytes it returned, or \<open>None\<close> for
  the result -1. A C string is the list of the characters before its nul. The functions of \<^verbatim>\<open>user/ulib.c\<close> that
  work on memory take it as a function from addresses to characters.
\<close>

definition nul :: char where "nul = CHR 0x00"
definition nl :: char where "nl = CHR 0x0A"

type_synonym 'r reader = "nat \<Rightarrow> 'r \<Rightarrow> string option \<times> 'r"

text \<open>
  What \<^verbatim>\<open>read\<close> promises of a file whose remaining content is \<open>content r\<close>: it returns the next bytes,
  at most as many as were asked for, and none only at the end or when none were asked for.
\<close>

definition delivers :: "'r reader \<Rightarrow> ('r \<Rightarrow> string) \<Rightarrow> bool" where
  "delivers rd content \<longleftrightarrow> (\<forall>n r. \<exists>bs r'. rd n r = (Some bs, r') \<and> length bs \<le> n \<and> content r = bs @ content r' \<and>
     (bs = [] \<longrightarrow> n = 0 \<or> content r = []))"

lemma deliversE:
  assumes "delivers rd content"
  obtains bs r' where "rd n r = (Some bs, r')" "length bs \<le> n" "content r = bs @ content r'"
    "bs = [] \<Longrightarrow> n = 0 \<or> content r = []"
  using assms unfolding delivers_def by blast

text \<open>The same for reads in states that satisfy \<open>I\<close>, which they keep.\<close>

definition delivers_in :: "('r \<Rightarrow> bool) \<Rightarrow> 'r reader \<Rightarrow> ('r \<Rightarrow> string) \<Rightarrow> bool" where
  "delivers_in I rd content \<longleftrightarrow> (\<forall>n r. I r \<longrightarrow> (\<exists>bs r'. rd n r = (Some bs, r') \<and> length bs \<le> n \<and> content r = bs @ content r' \<and>
     (bs = [] \<longrightarrow> n = 0 \<or> content r = []) \<and> I r'))"

lemma delivers_in_True: "delivers_in (\<lambda>_. True) rd content \<longleftrightarrow> delivers rd content"
  by (simp add: delivers_in_def delivers_def)

lemma delivers_inE:
  assumes "delivers_in I rd content" and "I r"
  obtains bs r' where "rd n r = (Some bs, r')" "length bs \<le> n" "content r = bs @ content r'"
    "bs = [] \<Longrightarrow> n = 0 \<or> content r = []" "I r'"
  using assms unfolding delivers_in_def by blast

text \<open>A file that is read at most \<open>k + 1\<close> bytes at a time.\<close>

definition slow_read :: "nat \<Rightarrow> string reader" where
  "slow_read k n r = (Some (take (min n (Suc k)) r), drop (min n (Suc k)) r)"

lemma slow_read_delivers: "delivers (slow_read k) (\<lambda>r. r)"
  by (auto simp: delivers_def slow_read_def)

subsection \<open>Strings and memory\<close>

type_synonym umem = "nat \<Rightarrow> char"

text \<open>\<^verbatim>\<open>strcpy\<close>, \<^verbatim>\<open>strlen\<close>, \<^verbatim>\<open>strchr\<close> and \<^verbatim>\<open>strcmp\<close> stop at a nul, and run on if there is none.\<close>

partial_function (option) strcpy_loop :: "nat \<Rightarrow> nat \<Rightarrow> umem \<Rightarrow> umem option" where
  "strcpy_loop s t m =
     (let m = m(s := m t) in if m s \<noteq> nul then strcpy_loop (s + 1) (t + 1) m else Some m)"

definition strcpy :: "nat \<Rightarrow> nat \<Rightarrow> umem \<Rightarrow> (nat \<times> umem) option" where
  "strcpy s t m = map_option (\<lambda>m. (s, m)) (strcpy_loop s t m)"

partial_function (option) strcmp :: "nat \<Rightarrow> nat \<Rightarrow> umem \<Rightarrow> int option" where
  "strcmp p q m =
     (if m p \<noteq> nul \<and> m p = m q then strcmp (p + 1) (q + 1) m
      else Some (int (of_char (m p)) - int (of_char (m q))))"

partial_function (option) strlen_loop :: "nat \<Rightarrow> nat \<Rightarrow> umem \<Rightarrow> nat option" where
  "strlen_loop s n m = (if m (s + n) \<noteq> nul then strlen_loop s (n + 1) m else Some n)"

definition strlen :: "nat \<Rightarrow> umem \<Rightarrow> nat option" where
  "strlen s m = strlen_loop s 0 m"

text \<open>A null pointer is the inner \<open>None\<close>.\<close>

partial_function (option) strchr :: "nat \<Rightarrow> char \<Rightarrow> umem \<Rightarrow> nat option option" where
  "strchr s c m =
     (if m s \<noteq> nul then if m s = c then Some (Some s) else strchr (s + 1) c m else Some None)"

fun memset :: "nat \<Rightarrow> char \<Rightarrow> nat \<Rightarrow> umem \<Rightarrow> umem" where
  "memset dst c 0 m = m"
| "memset dst c (Suc n) m = (memset dst c n m)(dst + n := c)"

text \<open>The two loops of \<^verbatim>\<open>memmove\<close>; the second runs from the last byte down.\<close>

fun memmove_up :: "nat \<Rightarrow> nat \<Rightarrow> nat \<Rightarrow> umem \<Rightarrow> umem" where
  "memmove_up dst src 0 m = m"
| "memmove_up dst src (Suc n) m = memmove_up (dst + 1) (src + 1) n (m(dst := m src))"

fun memmove_down :: "nat \<Rightarrow> nat \<Rightarrow> nat \<Rightarrow> umem \<Rightarrow> umem" where
  "memmove_down dst src 0 m = m"
| "memmove_down dst src (Suc n) m = memmove_down dst src n (m(dst + n := m (src + n)))"

definition memmove :: "nat \<Rightarrow> nat \<Rightarrow> int \<Rightarrow> umem \<Rightarrow> umem" where
  "memmove dst src n m =
     (if src > dst then memmove_up dst src (nat n) m else memmove_down dst src (nat n) m)"

fun memcmp :: "nat \<Rightarrow> nat \<Rightarrow> nat \<Rightarrow> umem \<Rightarrow> int" where
  "memcmp p q 0 m = 0"
| "memcmp p q (Suc n) m =
     (if m p \<noteq> m q then int (of_char (m p)) - int (of_char (m q)) else memcmp (p + 1) (q + 1) n m)"

text \<open>The length of \<^verbatim>\<open>memcpy\<close> is a \<^verbatim>\<open>uint\<close>; it is converted to the \<^verbatim>\<open>int\<close> of \<^verbatim>\<open>memmove\<close>.\<close>

definition memcpy :: "nat \<Rightarrow> nat \<Rightarrow> u32 \<Rightarrow> umem \<Rightarrow> umem" where
  "memcpy dst src n m = memmove dst src (sint n) m"

text \<open>\<^verbatim>\<open>gets\<close> reads one byte at a time; the result is what it leaves in the buffer before the nul.\<close>

function gets :: "'r reader \<Rightarrow> nat \<Rightarrow> int \<Rightarrow> 'r \<Rightarrow> string \<times> 'r" where
  "gets rd i lim r =
     (if int i + 1 < lim then
        (case rd 1 r of
           (Some (c # _), r) \<Rightarrow>
             if c = nl \<or> c = CHR 0x0D then ([c], r) else (case gets rd (i + 1) lim r of (s, r) \<Rightarrow> (c # s, r))
         | (_, r) \<Rightarrow> ([], r))
      else ([], r))"
  by pat_completeness auto
termination
  by (relation "measure (\<lambda>(_, i, lim, _). nat (lim - int i))") auto

declare gets.simps [simp del]

text \<open>\<^verbatim>\<open>stat\<close> makes three system calls, which are its parameters.\<close>

definition ustat :: "(string \<Rightarrow> 'k \<Rightarrow> int \<times> 'k) \<Rightarrow> (int \<Rightarrow> 'k \<Rightarrow> (int \<times> 'st) \<times> 'k) \<Rightarrow> (int \<Rightarrow> 'k \<Rightarrow> 'k) \<Rightarrow>
    string \<Rightarrow> 'k \<Rightarrow> (int \<times> 'st option) \<times> 'k" where
  "ustat open_rdonly fstat close n k =
     (case open_rdonly n k of (fd, k) \<Rightarrow>
      if fd < 0 then ((-1, None), k) else case fstat fd k of ((r, st), k) \<Rightarrow> ((r, Some st), close fd k))"

subsection \<open>What they do\<close>

text \<open>A C string at an address.\<close>

definition cstr :: "umem \<Rightarrow> nat \<Rightarrow> string \<Rightarrow> bool" where
  "cstr m p str \<longleftrightarrow> nul \<notin> set str \<and> (\<forall>i < length str. m (p + i) = str ! i) \<and> m (p + length str) = nul"

lemma cstr_Nil [simp]: "cstr m p [] \<longleftrightarrow> m p = nul"
  by (simp add: cstr_def)

lemma cstr_Cons [simp]: "cstr m p (c # str) \<longleftrightarrow> c \<noteq> nul \<and> m p = c \<and> cstr m (p + 1) str"
  by (auto simp: cstr_def less_Suc_eq_0_disj)

lemma strlen_cstr: "cstr m s str \<Longrightarrow> strlen s m = Some (length str)"
proof -
  have "strlen_loop s n m = Some (length str)" if "cstr m (s + n) (drop n str)" "n \<le> length str" for n
    using that
  proof (induction "length str - n" arbitrary: n)
    case 0
    then show ?case by (subst strlen_loop.simps) simp
  next
    case (Suc k)
    then have "drop n str = str ! n # drop (n + 1) str" by (simp add: Cons_nth_drop_Suc)
    then show ?case using Suc by (subst strlen_loop.simps) simp
  qed
  from this [of 0] show "cstr m s str \<Longrightarrow> strlen s m = Some (length str)" by (simp add: strlen_def)
qed

lemma strcmp_cstr: "cstr m p s \<Longrightarrow> cstr m q t \<Longrightarrow> \<exists>d. strcmp p q m = Some d \<and> (d = 0 \<longleftrightarrow> s = t)"
proof (induction s arbitrary: p q t)
  case Nil
  then show ?case by (cases t) (auto simp: strcmp.simps [of p q])
next
  case (Cons c s)
  then show ?case by (cases t) (auto simp: strcmp.simps [of p q])
qed

lemma strchr_cstr:
  "cstr m s str \<Longrightarrow> strchr s c m = Some (if c \<in> set str then Some (s + length (takeWhile (\<lambda>x. x \<noteq> c) str)) else None)"
  by (induction str arbitrary: s) (subst strchr.simps, simp)+

end
