(* ===== verification/Grep.thy ===== *)
theory Grep
  imports User_Lib
begin

section \<open>\<^verbatim>\<open>grep\<close>\<close>

text \<open>
  \<^verbatim>\<open>user/grep.c\<close>: the regular-expression matcher, and the loop that cuts the bytes of a file into lines and
  writes those that match. The matcher is related to a denotational semantics of its patterns.
\<close>

subsection \<open>The matcher\<close>

function matchhere :: "string \<Rightarrow> string \<Rightarrow> bool" and matchstar :: "char \<Rightarrow> string \<Rightarrow> string \<Rightarrow> bool" where
  "matchhere re str =
     (if re = [] then True
      else if tl re \<noteq> [] \<and> hd (tl re) = CHR ''*'' then matchstar (hd re) (tl (tl re)) str
      else if hd re = CHR ''$'' \<and> tl re = [] then str = []
      else if str \<noteq> [] \<and> (hd re = CHR ''.'' \<or> hd re = hd str) then matchhere (tl re) (tl str)
      else False)"
| "matchstar c re str =
     (if matchhere re str then True
      else if str \<noteq> [] \<and> (hd str = c \<or> c = CHR ''.'') then matchstar c re (tl str)
      else False)"
  by pat_completeness auto
termination
  by (relation "measures [case_sum (\<lambda>(re, str). length re) (\<lambda>(c, re, str). length re),
      case_sum (\<lambda>_. 0) (\<lambda>(c, re, str). Suc (length str))]") (auto simp: neq_Nil_conv)

declare matchhere.simps [simp del] matchstar.simps [simp del]

text \<open>The loop of \<^verbatim>\<open>match\<close> tries every suffix, the empty one included.\<close>

fun match_from :: "string \<Rightarrow> string \<Rightarrow> bool" where
  "match_from re [] \<longleftrightarrow> matchhere re []"
| "match_from re (c # str) \<longleftrightarrow> matchhere re (c # str) \<or> match_from re str"

definition match :: "string \<Rightarrow> string \<Rightarrow> bool" where
  "match re str =
     (if re \<noteq> [] \<and> hd re = CHR ''^'' then matchhere (tl re) str else match_from re str)"

subsection \<open>What a pattern means\<close>

datatype piece = One char | Star char

text \<open>The pieces of a pattern after its \<open>^\<close>, and whether it ends with \<open>$\<close>.\<close>

fun pieces :: "string \<Rightarrow> piece list \<times> bool" where
  "pieces [] = ([], False)"
| "pieces [c] = (if c = CHR ''$'' then ([], True) else ([One c], False))"
| "pieces (c # d # re) =
     (if d = CHR ''*'' then apfst ((#) (Star c)) (pieces re) else apfst ((#) (One c)) (pieces (d # re)))"

definition fits :: "char \<Rightarrow> char \<Rightarrow> bool" where
  "fits c x \<longleftrightarrow> c = CHR ''.'' \<or> c = x"

fun lang :: "piece list \<Rightarrow> string set" where
  "lang [] = {[]}"
| "lang (One c # ps) = {x # w |x w. fits c x \<and> w \<in> lang ps}"
| "lang (Star c # ps) = {u @ w |u w. (\<forall>x \<in> set u. fits c x) \<and> w \<in> lang ps}"

text \<open>A prefix of the text is in the language, or all of it if the pattern ends with \<open>$\<close>.\<close>

definition begins :: "piece list \<times> bool \<Rightarrow> string \<Rightarrow> bool" where
  "begins p str \<longleftrightarrow> (\<exists>w v. str = w @ v \<and> w \<in> lang (fst p) \<and> (snd p \<longrightarrow> v = []))"

lemma begins_Nil: "begins ([], e) str \<longleftrightarrow> (e \<longrightarrow> str = [])"
  by (auto simp: begins_def)

lemma begins_One: "begins (apfst ((#) (One c)) p) str \<longleftrightarrow> str \<noteq> [] \<and> fits c (hd str) \<and> begins p (tl str)"
  by (cases str) (auto simp: begins_def Cons_eq_append_conv)

lemma begins_Star_split:
  "begins (apfst ((#) (Star c)) p) str \<longleftrightarrow> (\<exists>u v. str = u @ v \<and> (\<forall>x \<in> set u. fits c x) \<and> begins p v)" (is "?L \<longleftrightarrow> ?R")
proof
  assume ?L
  then obtain u w v where "str = (u @ w) @ v" "\<forall>x \<in> set u. fits c x" "w \<in> lang (fst p)" "snd p \<longrightarrow> v = []"
    unfolding begins_def by (auto simp del: append_assoc)
  then have "str = u @ (w @ v)" "\<forall>x \<in> set u. fits c x" "begins p (w @ v)" by (auto simp: begins_def)
  then show ?R by blast
next
  assume ?R
  then obtain u w v where u: "str = u @ w @ v" "\<forall>x \<in> set u. fits c x" "w \<in> lang (fst p)" "snd p \<longrightarrow> v = []"
    by (auto simp: begins_def)
  have "u @ w \<in> lang (fst (apfst ((#) (Star c)) p))" using u(2,3) by auto
  then show ?L using u(1,4) unfolding begins_def by (intro exI [of _ "u @ w"] exI [of _ v]) simp
qed

lemma ex_split_Cons: "(\<exists>u v. x # xs = u @ v \<and> P u v) \<longleftrightarrow> P [] (x # xs) \<or> (\<exists>u v. xs = u @ v \<and> P (x # u) v)"
  unfolding Cons_eq_append_conv by blast

lemma begins_Star:
  "begins (apfst ((#) (Star c)) p) str \<longleftrightarrow>
     begins p str \<or> str \<noteq> [] \<and> fits c (hd str) \<and> begins (apfst ((#) (Star c)) p) (tl str)"
  unfolding begins_Star_split
proof (cases str)
  case (Cons x xs)
  have "(\<exists>u v. x # xs = u @ v \<and> (\<forall>x \<in> set u. fits c x) \<and> begins p v) \<longleftrightarrow>
    begins p (x # xs) \<or> fits c x \<and> (\<exists>u v. xs = u @ v \<and> (\<forall>x \<in> set u. fits c x) \<and> begins p v)"
    unfolding ex_split_Cons [of x xs "\<lambda>u v. (\<forall>x \<in> set u. fits c x) \<and> begins p v"] by auto
  then show "(\<exists>u v. str = u @ v \<and> (\<forall>x \<in> set u. fits c x) \<and> begins p v) \<longleftrightarrow>
    begins p str \<or> str \<noteq> [] \<and> fits c (hd str) \<and> (\<exists>u v. tl str = u @ v \<and> (\<forall>x \<in> set u. fits c x) \<and> begins p v)"
    using Cons by simp
qed simp

lemma pieces_Cons:
  "c # re \<noteq> ''$'' \<Longrightarrow> \<not> (re \<noteq> [] \<and> hd re = CHR ''*'') \<Longrightarrow> pieces (c # re) = apfst ((#) (One c)) (pieces re)"
  by (cases re) auto

lemma matchhere_begins: "matchhere re str \<longleftrightarrow> begins (pieces re) str"
  and matchstar_begins: "matchstar c re str \<longleftrightarrow> begins (apfst ((#) (Star c)) (pieces re)) str"
proof (induction re str and c re str rule: matchhere_matchstar.induct)
  case (1 re str)
  show ?case
  proof (cases re)
    case Nil
    then show ?thesis by (subst matchhere.simps) (simp add: begins_Nil)
  next
    case (Cons c re')
    note re = Cons
    consider d where "re' = CHR ''*'' # d" | "re = ''$''" | "re \<noteq> ''$''" "\<not> (re' \<noteq> [] \<and> hd re' = CHR ''*'')"
      using re by (cases re') auto
    then show ?thesis
    proof cases
      case (1 d)
      then show ?thesis using "1.IH"(1) re by (subst matchhere.simps) simp
    next
      case 2
      then show ?thesis by (subst matchhere.simps) (simp add: begins_Nil)
    next
      case 3
      have "pieces re = apfst ((#) (One c)) (pieces re')" using pieces_Cons [of c re'] 3 re by simp
      moreover have "matchhere re str \<longleftrightarrow> str \<noteq> [] \<and> fits c (hd str) \<and> matchhere re' (tl str)"
        using 3 re by (subst matchhere.simps) (auto simp: fits_def)
      moreover have "matchhere re' (tl str) \<longleftrightarrow> begins (pieces re') (tl str)"
        if "str \<noteq> []" "fits c (hd str)" using "1.IH"(2) that 3 re by (simp add: fits_def)
      ultimately show ?thesis by (auto simp: begins_One)
    qed
  qed
next
  case (2 c re str)
  have "matchstar c re str \<longleftrightarrow> matchhere re str \<or> str \<noteq> [] \<and> fits c (hd str) \<and> matchstar c re (tl str)"
    by (subst matchstar.simps) (auto simp: fits_def)
  then show ?case using 2 begins_Star [of c "pieces re" str] by (auto simp: fits_def)
qed

lemma match_from_suffix: "match_from re str \<longleftrightarrow> (\<exists>u v. str = u @ v \<and> matchhere re v)"
  by (induction str) (auto simp: Cons_eq_append_conv)

text \<open>
  C20. The matcher decides the language of its pattern: it accepts a text exactly when some part of the text
  is in the language of the pattern's pieces, where the part starts at the beginning of the text if the pattern
  starts with \<open>^\<close> and stops at its end if the pattern ends with \<open>$\<close>. A piece is a character, which \<open>.\<close> makes any
  character, or any number of them when \<open>*\<close> follows.
\<close>

theorem match_decides_language:
  "match re str \<longleftrightarrow>
     (let start = (re \<noteq> [] \<and> hd re = CHR ''^''); (ps, end) = pieces (if start then tl re else re) in
      \<exists>u w v. str = u @ w @ v \<and> w \<in> lang ps \<and> (start \<longrightarrow> u = []) \<and> (end \<longrightarrow> v = []))"
proof (cases "re \<noteq> [] \<and> hd re = CHR ''^''")
  case True
  then show ?thesis by (auto simp: match_def matchhere_begins begins_def split: prod.splits)
next
  case False
  then have "match re str \<longleftrightarrow> (\<exists>u v. str = u @ v \<and> begins (pieces re) v)"
    by (auto simp: match_def match_from_suffix matchhere_begins)
  moreover obtain ps e where p: "pieces re = (ps, e)" by fastforce
  ultimately have "match re str \<longleftrightarrow> (\<exists>u w v. str = u @ w @ v \<and> w \<in> lang ps \<and> (e \<longrightarrow> v = []))"
    by (auto simp: begins_def)
  moreover have s: "(re \<noteq> [] \<and> hd re = CHR ''^'') = False" using False by simp
  ultimately show ?thesis unfolding Let_def s if_False p prod.case by simp
qed

theorem match_decides_language_witness: "match ''^a.*c$'' ''abbc'' \<and> \<not> match ''^a.*c$'' ''xabbc''"
proof -
  have m: "match ''^a.*c$'' str \<longleftrightarrow> (\<exists>w. str = CHR ''a'' # w @ ''c'')" for str
    unfolding match_decides_language by (auto simp: fits_def)
  have "''abbc'' = CHR ''a'' # ''bb'' @ ''c''" by simp
  then show ?thesis unfolding m by auto
qed

subsection \<open>Cutting the input into lines\<close>

text \<open>
  The inner loop of \<^verbatim>\<open>grep\<close> on the buffer from \<^verbatim>\<open>p\<close> on: \<^verbatim>\<open>strchr\<close> searches up to the first nul. The result is
  what it writes, in order, and the bytes that remain from \<^verbatim>\<open>p\<close> on, which \<^verbatim>\<open>memmove\<close> brings to the front.
\<close>

function grep_lines :: "string \<Rightarrow> string \<Rightarrow> string list \<times> string" where
  "grep_lines pat b =
     (if nl \<in> set (takeWhile (\<lambda>c. c \<noteq> nul) b) then
        (let line = takeWhile (\<lambda>c. c \<noteq> nl) b;
             (out, rest) = grep_lines pat (drop (length line + 1) b)
         in (if match pat line then (line @ [nl]) # out else out, rest))
      else ([], b))"
  by pat_completeness auto
termination
proof (relation "measure (\<lambda>(_, b). length b)")
  fix b x assume "nl \<in> set (takeWhile (\<lambda>c. c \<noteq> nul) b)" "x = takeWhile (\<lambda>c. c \<noteq> nl) b"
  then have "b \<noteq> []" by auto
  then show "((pat, drop (length x + 1) b), pat, b) \<in> measure (\<lambda>(_, b). length b)" for pat :: string by simp
qed simp

text \<open>The whole of \<^verbatim>\<open>grep\<close>: \<open>b\<close> are the \<^verbatim>\<open>m\<close> bytes of \<^verbatim>\<open>buf\<close> that are carried over.\<close>

partial_function (option) grep :: "'r reader \<Rightarrow> string \<Rightarrow> string \<Rightarrow> 'r \<Rightarrow> (string list \<times> 'r) option" where
  "grep rd pat b r =
     (case rd (1024 - length b - 1) r of
        (Some (c # cs), r) \<Rightarrow>
          (case grep_lines pat (b @ c # cs) of
             (out, rest) \<Rightarrow> Option.bind (grep rd pat rest r) (\<lambda>(outs, r). Some (out @ outs, r)))
      | (_, r) \<Rightarrow> Some ([], r))"

declare grep_lines.simps [simp del]

text \<open>The lines of a text: the parts that a newline ends.\<close>

function lines :: "string \<Rightarrow> string list" where
  "lines cs = (if nl \<in> set cs then takeWhile (\<lambda>c. c \<noteq> nl) cs # lines (drop (length (takeWhile (\<lambda>c. c \<noteq> nl) cs) + 1) cs) else [])"
  by pat_completeness auto
termination
proof (relation "measure length")
  fix cs :: string assume "nl \<in> set cs"
  then have "cs \<noteq> []" by auto
  then show "(drop (length (takeWhile (\<lambda>c. c \<noteq> nl) cs) + 1) cs, cs) \<in> measure length" by simp
qed simp

declare lines.simps [simp del]

lemma lines_none: "nl \<notin> set cs \<Longrightarrow> lines cs = []"
  by (simp add: lines.simps [of cs])

lemma takeWhile_line: "nl \<notin> set l \<Longrightarrow> takeWhile (\<lambda>c. c \<noteq> nl) (l @ nl # cs) = l"
  by (induction l) auto

lemma lines_line: "nl \<notin> set l \<Longrightarrow> lines (l @ nl # cs) = l # lines cs"
  by (subst lines.simps) (simp add: takeWhile_line)

text \<open>The inner loop takes the lines of the buffer; what remains has none.\<close>

lemma grep_lines_ok:
  assumes "nul \<notin> set b"
  obtains dn rest where "b = dn @ rest" "nl \<notin> set rest" "\<And>cs. lines (b @ cs) = lines b @ lines (rest @ cs)"
    "grep_lines pat b = (map (\<lambda>l. l @ [nl]) (filter (match pat) (lines b)), rest)"
proof -
  have "\<exists>dn rest. b = dn @ rest \<and> nl \<notin> set rest \<and> (\<forall>cs. lines (b @ cs) = lines b @ lines (rest @ cs)) \<and>
    grep_lines pat b = (map (\<lambda>l. l @ [nl]) (filter (match pat) (lines b)), rest)" if "nul \<notin> set b"
    using that
  proof (induction b rule: length_induct)
    case (1 b)
    have tw: "takeWhile (\<lambda>c. c \<noteq> nul) b = b" using 1(2) by (auto simp: takeWhile_eq_all_conv)
    show ?case
    proof (cases "nl \<in> set b")
      case False
      then have "grep_lines pat b = ([], b)" by (subst grep_lines.simps) (simp add: tw)
      then show ?thesis using False by (intro exI [of _ "[]"] exI [of _ b]) (simp add: lines_none)
    next
      case True
      then obtain l b' where b: "b = l @ nl # b'" "nl \<notin> set l" by (metis split_list_first)
      have "length b' < length b" "nul \<notin> set b'" using b(1) 1(2) by simp_all
      then obtain dn rest where IH: "b' = dn @ rest" "nl \<notin> set rest" "\<And>cs. lines (b' @ cs) = lines b' @ lines (rest @ cs)"
        "grep_lines pat b' = (map (\<lambda>l. l @ [nl]) (filter (match pat) (lines b')), rest)" using 1(1) by blast
      have "takeWhile (\<lambda>c. c \<noteq> nl) b = l" using b by (simp add: takeWhile_line)
      then have "grep_lines pat b = (map (\<lambda>l. l @ [nl]) (filter (match pat) (lines b)), rest)"
        using True b IH(4) lines_line [OF b(2)] by (subst grep_lines.simps) (simp add: tw [unfolded b(1)])
      then show ?thesis using b IH(1-3) by (intro exI [of _ "l @ nl # dn"] exI [of _ rest]) (simp add: lines_line)
    qed
  qed
  then show ?thesis using that assms by blast
qed

text \<open>
  The lines up to the first that does not fit in the buffer with its newline: there \<^verbatim>\<open>read\<close> is asked for no bytes, and \<^verbatim>\<open>grep\<close> takes this for the
  end of the file.
\<close>

definition fitting_lines :: "string \<Rightarrow> string list" where
  "fitting_lines cs = takeWhile (\<lambda>l. length l < 1023) (lines cs)"

lemma length_line: "l \<in> set (lines cs) \<Longrightarrow> length l < length cs"
proof (induction cs rule: lines.induct)
  case (1 cs)
  have nl: "nl \<in> set cs" using 1(2) by (auto simp: lines.simps [of cs] split: if_splits)
  then obtain k ds where cs: "cs = k @ nl # ds" "nl \<notin> set k" by (metis split_list_first)
  then have "l = k \<or> l \<in> set (lines ds)" using 1(2) lines_line by simp
  then show ?case using 1(1) [OF nl] cs by (auto simp: takeWhile_line)
qed

lemma lines_first: "nl \<notin> set b \<Longrightarrow> lines (b @ cs) = l # ls \<Longrightarrow> length b \<le> length l"
proof -
  assume b: "nl \<notin> set b" and l: "lines (b @ cs) = l # ls"
  then have "nl \<in> set cs" using lines_none [of "b @ cs"] by auto
  then obtain k ds where "cs = k @ nl # ds" "nl \<notin> set k" by (metis split_list_first)
  then show ?thesis using lines_line [of "b @ k" ds] b l by auto
qed

lemma grep_ok:
  assumes rd: "delivers_in I rd content" and "I r" and "nl \<notin> set b" and "length b \<le> 1023" and "nul \<notin> set (b @ content r)"
  shows "\<exists>r'. grep rd pat b r = Some (map (\<lambda>l. l @ [nl]) (filter (match pat) (fitting_lines (b @ content r))), r') \<and> I r'"
  using assms(2-)
proof (induction "length (content r)" arbitrary: b r rule: less_induct)
  case less
  obtain bs r' where r': "rd (1024 - length b - 1) r = (Some bs, r')" "length bs \<le> 1024 - length b - 1" "content r = bs @ content r'"
    "bs = [] \<Longrightarrow> 1024 - length b - 1 = 0 \<or> content r = []" "I r'"
    by (rule delivers_inE [OF rd less.prems(1), of "1024 - length b - 1"], rule that)
  show ?case
  proof (cases bs)
    case Nil
    have "fitting_lines (b @ content r) = []"
    proof (cases "lines (b @ content r)")
      case (Cons l ls)
      then have "content r \<noteq> []" using less.prems(2) lines_none [of b] by auto
      then have "\<not> length l < 1023" using r'(4) [OF Nil] lines_first [OF less.prems(2) Cons] by simp
      then show ?thesis using Cons by (simp add: fitting_lines_def)
    qed (simp add: fitting_lines_def)
    moreover have "grep rd pat b r = Some ([], r')" using r'(1) Nil by (subst grep.simps) simp
    ultimately show ?thesis using r'(5) by simp
  next
    case (Cons c cs)
    have nn: "nul \<notin> set (b @ bs)" using less.prems(4) r'(3) by simp
    obtain dn rest where g: "b @ bs = dn @ rest" "nl \<notin> set rest"
      "\<And>cs. lines ((b @ bs) @ cs) = lines (b @ bs) @ lines (rest @ cs)"
      "grep_lines pat (b @ bs) = (map (\<lambda>l. l @ [nl]) (filter (match pat) (lines (b @ bs))), rest)"
      by (rule grep_lines_ok [OF nn, of pat], rule that)
    have len: "length (b @ bs) \<le> 1023" using r'(2) less.prems(3) by simp
    then have "length l < 1023" if "l \<in> set (lines (b @ bs))" for l using length_line [OF that] by simp
    then have ls: "fitting_lines (b @ content r) = lines (b @ bs) @ fitting_lines (rest @ content r')"
      using g(3) [of "content r'"] r'(3) by (simp add: fitting_lines_def)
    have "length rest \<le> 1023" "set rest \<subseteq> set (b @ bs)" using g(1) len arg_cong [OF g(1), of length] by simp_all
    moreover from this(2) have "nul \<notin> set (rest @ content r')" using less.prems(4) r'(3) by auto
    moreover have "length (content r') < length (content r)" using r'(3) Cons by simp
    ultimately obtain r'' where "grep rd pat rest r' = Some (map (\<lambda>l. l @ [nl]) (filter (match pat) (fitting_lines (rest @ content r'))), r'')" "I r''"
      using less.hyps [of r' rest] g(2) r'(5) by blast
    then show ?thesis using r'(1) Cons g(4) ls by (subst grep.simps) auto
  qed
qed

text \<open>
  \<^verbatim>\<open>grep\<close> ends on every file without nul bytes and writes exactly the lines that match, each with its newline and in order, up to the
  first line of 1023 or more characters, however the reads cut the file into pieces. What follows the last newline is never written.
\<close>

theorem grep_prints_matching_lines:
  assumes "delivers rd content" and "nul \<notin> set (content r)"
  shows "\<exists>r'. grep rd pat [] r = Some (map (\<lambda>l. l @ [nl]) (filter (match pat) (fitting_lines (content r))), r')"
  using grep_ok [of "\<lambda>_. True" rd content r "[]"] assms by (simp add: delivers_in_True)

theorem grep_prints_matching_lines_witness:
  "\<exists>r'. grep (slow_read 2) ''^b'' [] (''ab'' @ nl # ''bc'' @ nl # ''bb'') = Some ([''bc'' @ [nl]], r')"
proof -
  have l: "lines (''ab'' @ nl # ''bc'' @ nl # ''bb'') = [''ab'', ''bc'']"
    using lines_line [of "''ab''" "''bc'' @ nl # ''bb''"] lines_line [of "''bc''" "''bb''"]
    by (simp add: nl_def lines_none)
  moreover have "nul \<notin> set (''ab'' @ nl # ''bc'' @ nl # ''bb'')" by (simp add: nul_def nl_def)
  moreover have "match ''^b'' ''bc''" "\<not> match ''^b'' ''ab''" by (simp_all add: match_def matchhere.simps)
  ultimately show ?thesis
    using grep_prints_matching_lines [OF slow_read_delivers, of "''ab'' @ nl # ''bc'' @ nl # ''bb''" 2 "''^b''"]
    by (simp add: fitting_lines_def)
qed

end
