(* ===== verification/User_Tools.thy ===== *)
theory User_Tools
  imports User_Lib
begin

section \<open>Small user programs\<close>

text \<open>
  \<^verbatim>\<open>wc\<close>, \<^verbatim>\<open>cat\<close>, \<^verbatim>\<open>echo\<close>, \<^verbatim>\<open>ls\<close>'s \<^verbatim>\<open>fmtname\<close> and \<^verbatim>\<open>pstree\<close>'s \<^verbatim>\<open>mktree\<close>. A program that calls \<^verbatim>\<open>exit(1)\<close> after
  an error gives \<open>Inl\<close> of its message.
\<close>

subsection \<open>\<^verbatim>\<open>wc\<close>\<close>

definition blank :: "char \<Rightarrow> bool" where
  "blank c \<longleftrightarrow> c \<in> set [CHR '' '', CHR 0x0D, CHR 0x09, CHR 0x0A, CHR 0x0B]"

record wc_state =
  wc_l :: u32
  wc_w :: u32
  wc_c :: u32
  inword :: bool

text \<open>The body of the \<^verbatim>\<open>for\<close> loop.\<close>

definition wc_char :: "char \<Rightarrow> wc_state \<Rightarrow> wc_state" where
  "wc_char ch s =
     (let s = s\<lparr>wc_c := wc_c s + 1\<rparr>;
          s = (if ch = nl then s\<lparr>wc_l := wc_l s + 1\<rparr> else s)
      in if blank ch then s\<lparr>inword := False\<rparr>
         else if \<not> inword s then s\<lparr>wc_w := wc_w s + 1, inword := True\<rparr> else s)"

partial_function (option) wc_loop :: "'r reader \<Rightarrow> wc_state \<Rightarrow> 'r \<Rightarrow> (string \<times> 'r + wc_state \<times> 'r) option" where
  "wc_loop rd s r =
     (case rd 512 r of
        (None, r) \<Rightarrow> Some (Inl (''wc: read error'', r))
      | (Some [], r) \<Rightarrow> Some (Inr (s, r))
      | (Some (c # cs), r) \<Rightarrow> wc_loop rd (fold wc_char (c # cs) s) r)"

text \<open>The three numbers that \<^verbatim>\<open>wc\<close> prints.\<close>

definition wc :: "'r reader \<Rightarrow> 'r \<Rightarrow> (string \<times> 'r + (u32 \<times> u32 \<times> u32) \<times> 'r) option" where
  "wc rd r =
     Option.bind (wc_loop rd \<lparr>wc_l = 0, wc_w = 0, wc_c = 0, inword = False\<rparr> r) (\<lambda>x.
     case x of Inl e \<Rightarrow> Some (Inl e) | Inr (s, r) \<Rightarrow> Some (Inr ((wc_l s, wc_w s, wc_c s), r)))"

text \<open>A word starts at a character that is not blank and follows a blank or nothing.\<close>

definition word_starts :: "string \<Rightarrow> nat" where
  "word_starts cs = length (filter (\<lambda>i. \<not> blank (cs ! i) \<and> (i = 0 \<or> blank (cs ! (i - 1)))) [0..<length cs])"

lemma word_starts_snoc:
  "word_starts (cs @ [c]) = word_starts cs + (if \<not> blank c \<and> (cs = [] \<or> blank (last cs)) then 1 else 0)"
proof -
  have "filter (\<lambda>i. \<not> blank ((cs @ [c]) ! i) \<and> (i = 0 \<or> blank ((cs @ [c]) ! (i - 1)))) [0..<length cs] =
    filter (\<lambda>i. \<not> blank (cs ! i) \<and> (i = 0 \<or> blank (cs ! (i - 1)))) [0..<length cs]"
    by (rule filter_cong) (auto simp: nth_append)
  moreover have "blank ((cs @ [c]) ! (length cs - 1)) = blank (last cs)" if "cs \<noteq> []"
    using that by (simp add: nth_append last_conv_nth)
  ultimately show ?thesis by (auto simp: word_starts_def)
qed

lemma wc_fold:
  "fold wc_char cs \<lparr>wc_l = 0, wc_w = 0, wc_c = 0, inword = False\<rparr> =
     \<lparr>wc_l = of_nat (count_list cs nl), wc_w = of_nat (word_starts cs), wc_c = of_nat (length cs),
      inword = (cs \<noteq> [] \<and> \<not> blank (last cs))\<rparr>"
proof (induction cs rule: rev_induct)
  case Nil
  then show ?case by (simp add: word_starts_def)
next
  case (snoc c cs)
  then show ?case by (auto simp: wc_char_def word_starts_snoc Let_def blank_def nl_def)
qed

lemma wc_loop_ok: "delivers rd content \<Longrightarrow> \<exists>r'. wc_loop rd s r = Some (Inr (fold wc_char (content r) s, r'))"
proof (induction "length (content r)" arbitrary: r s rule: less_induct)
  case less
  obtain bs r' where r': "rd 512 r = (Some bs, r')" "content r = bs @ content r'" "bs = [] \<Longrightarrow> (512::nat) = 0 \<or> content r = []"
    by (rule deliversE [OF less.prems, of 512 r], rule that)
  then show ?case using less.hyps [OF _ less.prems, of r'] by (subst wc_loop.simps) (auto split: list.splits)
qed

text \<open>
  \<^verbatim>\<open>wc\<close> ends on every file and prints the number of newlines, of words and of bytes of the whole file modulo
  \<open>2 ^ 32\<close>, however the reads cut it into pieces: a word that two reads share is counted once.
\<close>

theorem wc_counts:
  assumes "delivers rd content"
  shows "\<exists>r'. wc rd r = Some (Inr ((of_nat (count_list (content r) nl), of_nat (word_starts (content r)), of_nat (length (content r))), r'))"
  using wc_loop_ok [OF assms, of "\<lparr>wc_l = 0, wc_w = 0, wc_c = 0, inword = False\<rparr>" r] unfolding wc_def wc_fold by auto

theorem wc_counts_witness: "\<exists>r'. wc (slow_read 1) (''ab c'' @ [nl] @ ''d'') = Some (Inr ((1, 3, 6), r'))"
proof -
  have "count_list (''ab c'' @ [nl] @ ''d'') nl = 1" "word_starts (''ab c'' @ [nl] @ ''d'') = 3"
    by (simp_all add: nl_def word_starts_def blank_def upt_rec)
  then show ?thesis using wc_counts [OF slow_read_delivers, of 1 "''ab c'' @ [nl] @ ''d''"] by simp
qed

subsection \<open>\<^verbatim>\<open>cat\<close> and \<^verbatim>\<open>echo\<close>\<close>

text \<open>\<^verbatim>\<open>write\<close> is a function from the bytes and the state of the output to its result and the new state.\<close>

type_synonym 'w writer = "string \<Rightarrow> 'w \<Rightarrow> int \<times> 'w"

partial_function (option) cat :: "'r reader \<Rightarrow> 'w writer \<Rightarrow> 'r \<Rightarrow> 'w \<Rightarrow> (string \<times> 'r \<times> 'w + 'r \<times> 'w) option" where
  "cat rd wr r w =
     (case rd 512 r of
        (None, r) \<Rightarrow> Some (Inl (''cat: read error'', r, w))
      | (Some [], r) \<Rightarrow> Some (Inr (r, w))
      | (Some (c # cs), r) \<Rightarrow>
          (case wr (c # cs) w of
             (n, w) \<Rightarrow> if n \<noteq> int (length (c # cs)) then Some (Inl (''cat: write error'', r, w)) else cat rd wr r w))"

text \<open>The loop of \<^verbatim>\<open>echo\<close>; the result of \<^verbatim>\<open>write\<close> is ignored.\<close>

fun echo :: "'w writer \<Rightarrow> string list \<Rightarrow> 'w \<Rightarrow> 'w" where
  "echo wr [] w = w"
| "echo wr [a] w = snd (wr [nl] (snd (wr a w)))"
| "echo wr (a # b # as) w = echo wr (b # as) (snd (wr '' '' (snd (wr a w))))"

text \<open>An output that takes every byte.\<close>

definition takes_all :: "string writer" where
  "takes_all bs w = (int (length bs), w @ bs)"

lemma cat_copies: "delivers rd content \<Longrightarrow> \<exists>r'. cat rd takes_all r w = Some (Inr (r', w @ content r))"
proof (induction "length (content r)" arbitrary: r w rule: less_induct)
  case less
  obtain bs r' where r': "rd 512 r = (Some bs, r')" "content r = bs @ content r'" "bs = [] \<Longrightarrow> (512::nat) = 0 \<or> content r = []"
    by (rule deliversE [OF less.prems, of 512 r], rule that)
  then show ?case using less.hyps [OF _ less.prems, of r' "w @ bs"] by (subst cat.simps) (auto simp: takes_all_def split: list.splits)
qed

lemma echo_joins: "as \<noteq> [] \<Longrightarrow> echo takes_all as w = w @ concat (map (\<lambda>a. a @ '' '') (butlast as)) @ last as @ [nl]"
  by (induction takes_all as w rule: echo.induct) (auto simp: takes_all_def)

subsection \<open>\<^verbatim>\<open>fmtname\<close> of \<^verbatim>\<open>ls\<close>\<close>

text \<open>The loop that walks back from the end of the path to the character after the last slash.\<close>

fun after_slash :: "string \<Rightarrow> nat \<Rightarrow> nat" where
  "after_slash path 0 = 0"
| "after_slash path (Suc i) = (if path ! i = CHR ''/'' then Suc i else after_slash path i)"

definition fmtname :: "string \<Rightarrow> string" where
  "fmtname path =
     (let p = drop (after_slash path (length path)) path in
      if length p \<ge> 14 then p else p @ replicate (14 - length p) (CHR '' ''))"

lemma fmtname_base: "CHR ''/'' \<notin> set base \<Longrightarrow>
  fmtname (dir @ CHR ''/'' # base) = base @ replicate (14 - length base) (CHR '' '')"
proof -
  assume b: "CHR ''/'' \<notin> set base"
  have "after_slash (dir @ CHR ''/'' # base) (Suc (length dir + n)) = Suc (length dir)" if "n \<le> length base" for n
    using that
  proof (induction n)
    case (Suc n)
    then have "base ! n \<noteq> CHR ''/''" using b nth_mem [of n base] by (metis Suc_le_lessD)
    then show ?case using Suc by (simp add: nth_append)
  qed (simp add: nth_append)
  from this [of "length base"] show ?thesis by (simp add: fmtname_def Let_def)
qed

subsection \<open>\<^verbatim>\<open>mktree\<close> of \<^verbatim>\<open>pstree\<close>\<close>

record upstat =
  up_pid :: int
  up_ppid :: int
  up_name :: string

datatype tree_line = TreeEntry nat string int | NotFound int

text \<open>Runs the calls of a loop in turn; a call that does not return ends it.\<close>

fun in_turn :: "('a \<Rightarrow> 'b list option) \<Rightarrow> 'a list \<Rightarrow> 'b list option" where
  "in_turn f [] = Some []"
| "in_turn f (x # xs) = Option.bind (f x) (\<lambda>ys. Option.bind (in_turn f xs) (\<lambda>zs. Some (ys @ zs)))"

text \<open>The number of nested calls is bounded by \<open>fuel\<close>; \<open>None\<close> means that it did not suffice.\<close>

fun mktree :: "nat \<Rightarrow> upstat list \<Rightarrow> nat \<Rightarrow> int \<Rightarrow> tree_line list option" where
  "mktree 0 uproc indent pid = None"
| "mktree (Suc fuel) uproc indent pid =
     (case find (\<lambda>u. up_pid u = pid) uproc of
        None \<Rightarrow> Some [NotFound pid]
      | Some u \<Rightarrow>
          Option.bind (in_turn (\<lambda>c. mktree fuel uproc (indent + 1) (up_pid c)) (filter (\<lambda>c. up_ppid c = pid) uproc))
            (\<lambda>ls. Some (TreeEntry indent (up_name u) (up_pid u) # ls)))"

lemma in_turn_Some:
  "(\<And>x. x \<in> set xs \<Longrightarrow> \<exists>ys. f x = Some ys \<and> P x ys) \<Longrightarrow>
    \<exists>yss. in_turn f xs = Some (concat yss) \<and> list_all2 P xs yss"
proof (induction xs)
  case (Cons x xs)
  then obtain ys yss where "f x = Some ys" "P x ys" "in_turn f xs = Some (concat yss)" "list_all2 P xs yss"
    by (metis list.set_intros)
  then show ?case by (intro exI [of _ "ys # yss"]) simp
qed (simp add: exI [of _ "[]"])

definition child_of :: "upstat list \<Rightarrow> (int \<times> int) set" where
  "child_of uproc = {(up_ppid u, up_pid u) |u. u \<in> set uproc}"

definition shown :: "tree_line list \<Rightarrow> int set" where
  "shown ls = {pid. \<exists>i name. TreeEntry i name pid \<in> set ls}"

lemma filter_shorter:
  assumes "x \<in> set xs" and "Q x" and "\<not> P x" and "\<And>y. P y \<Longrightarrow> Q y"
  shows "length (filter P xs) < length (filter Q xs)"
proof -
  have "filter P xs = filter P (filter Q xs)" using assms(4) by (auto intro: filter_cong)
  then show ?thesis using length_filter_less [of x "filter Q xs" P] assms(1-3) by simp
qed

lemma shown_simps [simp]:
  "shown [] = {}" "shown (TreeEntry i name pid # ls) = insert pid (shown ls)" "shown (ls @ ms) = shown ls \<union> shown ms"
  by (auto simp: shown_def)

lemma shown_concat: "list_all2 (\<lambda>c ls. shown ls = F c) cs yss \<Longrightarrow> shown (concat yss) = \<Union> (F ` set cs)"
  by (induction rule: list_all2_induct) simp_all

lemma descendants:
  "(child_of uproc)\<^sup>* `` {pid} = insert pid (\<Union>c \<in> {c \<in> set uproc. up_ppid c = pid}. (child_of uproc)\<^sup>* `` {up_pid c})"
  by (auto simp: child_of_def elim: converse_rtranclE intro: converse_rtrancl_into_rtrancl)

lemma mktree_ok:
  assumes old: "\<forall>u \<in> set uproc. up_ppid u < up_pid u"
  shows "length (filter (\<lambda>u. pid < up_pid u) uproc) < fuel \<Longrightarrow> pid \<in> up_pid ` set uproc \<Longrightarrow>
    \<exists>ls. mktree fuel uproc indent pid = Some ls \<and> shown ls = (child_of uproc)\<^sup>* `` {pid}"
proof (induction fuel arbitrary: indent pid)
  case (Suc fuel)
  let ?C = "filter (\<lambda>c. up_ppid c = pid) uproc"
  obtain u where u: "find (\<lambda>u. up_pid u = pid) uproc = Some u" "up_pid u = pid"
    using Suc.prems(2) by (cases "find (\<lambda>u. up_pid u = pid) uproc") (auto simp: find_None_iff find_Some_iff)
  have kid: "\<exists>ls. mktree fuel uproc (indent + 1) (up_pid c) = Some ls \<and> shown ls = (child_of uproc)\<^sup>* `` {up_pid c}"
    if c: "c \<in> set ?C" for c
  proof (rule Suc.IH)
    have "length (filter (\<lambda>u. up_pid c < up_pid u) uproc) < length (filter (\<lambda>u. pid < up_pid u) uproc)"
      using old c by (intro filter_shorter [of c]) auto
    then show "length (filter (\<lambda>u. up_pid c < up_pid u) uproc) < fuel" using Suc.prems(1) by simp
    show "up_pid c \<in> up_pid ` set uproc" using c by simp
  qed
  obtain yss where ys: "in_turn (\<lambda>c. mktree fuel uproc (indent + 1) (up_pid c)) ?C = Some (concat yss)"
    "list_all2 (\<lambda>c ls. shown ls = (child_of uproc)\<^sup>* `` {up_pid c}) ?C yss"
    using in_turn_Some [of ?C _ "\<lambda>c ls. shown ls = (child_of uproc)\<^sup>* `` {up_pid c}", OF kid] by blast
  have "shown (concat yss) = (\<Union>c \<in> {c \<in> set uproc. up_ppid c = pid}. (child_of uproc)\<^sup>* `` {up_pid c})"
    using shown_concat [OF ys(2)] by simp
  then have "shown (TreeEntry indent (up_name u) (up_pid u) # concat yss) = (child_of uproc)\<^sup>* `` {pid}"
    using u(2) by (subst descendants) simp
  then show ?case using u(1) ys(1) by simp
qed simp

text \<open>
  C24. \<^verbatim>\<open>pstree\<close> ends and shows exactly the process it was asked for and its descendants, whenever every process of
  the table has a greater pid than its parent, as \<^verbatim>\<open>allocpid\<close> gives them out. The calls nest at most as deep as
  there are processes with a greater pid. A process that were its own parent would make it recurse without end.
\<close>

theorem mktree_shows_descendants:
  assumes "\<forall>u \<in> set uproc. up_ppid u < up_pid u" and "pid \<in> up_pid ` set uproc"
    and "length (filter (\<lambda>u. pid < up_pid u) uproc) < fuel"
  shows "\<exists>ls. mktree fuel uproc indent pid = Some ls \<and> shown ls = (child_of uproc)\<^sup>* `` {pid}"
  using mktree_ok assms by simp

theorem mktree_shows_descendants_witness:
  "\<exists>ls. mktree 3 [\<lparr>up_pid = 1, up_ppid = 0, up_name = ''init''\<rparr>, \<lparr>up_pid = 2, up_ppid = 1, up_name = ''sh''\<rparr>,
      \<lparr>up_pid = 5, up_ppid = 2, up_name = ''ps''\<rparr>] 0 1 = Some ls"
  using mktree_shows_descendants [of "[\<lparr>up_pid = 1, up_ppid = 0, up_name = ''init''\<rparr>,
      \<lparr>up_pid = 2, up_ppid = 1, up_name = ''sh''\<rparr>, \<lparr>up_pid = 5, up_ppid = 2, up_name = ''ps''\<rparr>]" 1 3 0]
  by auto

lemma mktree_own_parent: "mktree fuel [\<lparr>up_pid = 1, up_ppid = 1, up_name = n\<rparr>] indent 1 = None"
  by (induction fuel arbitrary: indent) simp_all

end
