(* ===== verification/Shell.thy ===== *)
theory Shell
  imports User_Lib
begin

section \<open>The shell's parser\<close>

text \<open>
  The parser of \<^verbatim>\<open>user/sh.c\<close>. A line is the list of its characters before the nul, \<^verbatim>\<open>es\<close> is its length, and a
  pointer into it is an index. The parsed command holds the start and the end of each word, as \<^verbatim>\<open>argv\<close> and
  \<^verbatim>\<open>eargv\<close>, \<^verbatim>\<open>file\<close> and \<^verbatim>\<open>efile\<close> do; \<^verbatim>\<open>nulterminate\<close> then writes a nul at each end. \<^verbatim>\<open>malloc\<close> is taken to
  succeed. A call of \<^verbatim>\<open>panic\<close>, which ends the child, is \<open>Inl (Panic msg)\<close>. The four procedures that call each
  other take a bound on the depth of their calls, and give \<open>Inl Hang\<close> when it is exceeded.
\<close>

subsection \<open>Commands\<close>

datatype 'w cmd =
    EXEC "'w list"
  | REDIR "'w cmd" 'w nat nat
  | PIPE "'w cmd" "'w cmd"
  | LIST "'w cmd" "'w cmd"
  | BACK "'w cmd"

definition MAXARGS :: nat where "MAXARGS = 10"

type_synonym token = "nat \<times> nat"

text \<open>The argument array of the command inside redirections, which \<^verbatim>\<open>parseexec\<close> fills through its own pointer.\<close>

fun set_argv :: "'w list \<Rightarrow> 'w cmd \<Rightarrow> 'w cmd" where
  "set_argv ws (EXEC _) = EXEC ws"
| "set_argv ws (REDIR c f m d) = REDIR (set_argv ws c) f m d"
| "set_argv ws c = c"

subsection \<open>Tokens\<close>

definition whitespace :: string where
  "whitespace = [CHR '' '', CHR 0x09, CHR 0x0D, CHR 0x0A, CHR 0x0B]"

definition symbols :: string where
  "symbols = ''<|>&;()''"

text \<open>The character at an index; the nul ends the line.\<close>

definition ch :: "string \<Rightarrow> nat \<Rightarrow> char" where
  "ch buf s = (if s < length buf then buf ! s else nul)"

function skip_ws :: "string \<Rightarrow> nat \<Rightarrow> nat" where
  "skip_ws buf s = (if s < length buf \<and> ch buf s \<in> set whitespace then skip_ws buf (s + 1) else s)"
  by pat_completeness auto
termination
  by (relation "measure (\<lambda>(buf, s). length buf - s)") auto

function skip_word :: "string \<Rightarrow> nat \<Rightarrow> nat" where
  "skip_word buf s =
     (if s < length buf \<and> ch buf s \<notin> set whitespace \<and> ch buf s \<notin> set symbols then skip_word buf (s + 1) else s)"
  by pat_completeness auto
termination
  by (relation "measure (\<lambda>(buf, s). length buf - s)") auto

declare skip_ws.simps [simp del] skip_word.simps [simp del]

text \<open>The token's kind, its start and end, and the index where parsing goes on.\<close>

definition gettoken :: "string \<Rightarrow> nat \<Rightarrow> char \<times> nat \<times> nat \<times> nat" where
  "gettoken buf s =
     (let q = skip_ws buf s;
          c = ch buf q;
          (ret, eq) =
            (if c = nul then (c, q)
             else if c \<in> set ''|();&<'' then (c, q + 1)
             else if c = CHR ''>'' then if ch buf (q + 1) = CHR ''>'' then (CHR ''+'', q + 2) else (c, q + 1)
             else (CHR ''a'', skip_word buf q))
      in (ret, q, eq, skip_ws buf eq))"

definition peek :: "string \<Rightarrow> nat \<Rightarrow> string \<Rightarrow> bool \<times> nat" where
  "peek buf s toks = (let s = skip_ws buf s in (ch buf s \<noteq> nul \<and> ch buf s \<in> set toks, s))"

lemma skip_ws_ge: "s \<le> skip_ws buf s"
  by (induction buf s rule: skip_ws.induct) (subst skip_ws.simps, auto)

lemma skip_word_ge: "s \<le> skip_word buf s"
  by (induction buf s rule: skip_word.induct) (subst skip_word.simps, auto)

lemma skip_ws_le: "s \<le> length buf \<Longrightarrow> skip_ws buf s \<le> length buf"
  by (induction buf s rule: skip_ws.induct) (subst skip_ws.simps, auto)

lemma skip_word_le: "s \<le> length buf \<Longrightarrow> skip_word buf s \<le> length buf"
  by (induction buf s rule: skip_word.induct) (subst skip_word.simps, auto)

lemma skip_ws_stop: "skip_ws buf s < length buf \<Longrightarrow> ch buf (skip_ws buf s) \<notin> set whitespace"
proof (induction buf s rule: skip_ws.induct)
  case (1 buf s)
  then show ?case by (cases "s < length buf \<and> ch buf s \<in> set whitespace") (auto simp: skip_ws.simps [of buf s])
qed

lemma ch_in: "ch buf s \<noteq> nul \<Longrightarrow> s < length buf"
  by (simp add: ch_def split: if_splits)

lemma peekD:
  assumes "peek buf s toks = (b, s')"
  shows "s \<le> s'" and "s \<le> length buf \<Longrightarrow> s' \<le> length buf" and "b \<Longrightarrow> s' < length buf \<and> ch buf s' \<in> set toks"
    and "skip_ws buf s' = s'" and "s' = skip_ws buf s"
proof -
  have s': "s' = skip_ws buf s" "b \<longleftrightarrow> ch buf s' \<noteq> nul \<and> ch buf s' \<in> set toks" using assms by (auto simp: peek_def Let_def)
  show "s \<le> s'" "s \<le> length buf \<Longrightarrow> s' \<le> length buf" "b \<Longrightarrow> s' < length buf \<and> ch buf s' \<in> set toks" "s' = skip_ws buf s"
    using s' skip_ws_ge skip_ws_le ch_in by auto
  show "skip_ws buf s' = s'" using s'(1) skip_ws_stop [of buf s] by (subst skip_ws.simps) auto
qed

text \<open>A token that is not the end of the line takes at least one character.\<close>

lemma gettokenD:
  assumes "gettoken buf s = (tok, q, eq, s')"
  shows "s \<le> q" and "q \<le> eq" and "eq \<le> s'" and "s \<le> length buf \<Longrightarrow> s' \<le> length buf"
    and "tok \<noteq> nul \<Longrightarrow> q < eq \<and> eq \<le> length buf"
proof -
  let ?q = "skip_ws buf s"
  have q: "q = ?q" "s' = skip_ws buf eq" using assms by (auto simp: gettoken_def Let_def split: if_splits)
  have eq: "?q \<le> eq \<and> (tok \<noteq> nul \<longrightarrow> ?q < eq \<and> eq \<le> length buf) \<and> (tok = nul \<longrightarrow> eq = ?q)"
  proof (cases "ch buf ?q = nul")
    case True
    then show ?thesis using assms by (auto simp: gettoken_def Let_def)
  next
    case False
    then have lt: "?q < length buf" by (rule ch_in)
    then have "ch buf ?q \<notin> set whitespace" by (rule skip_ws_stop)
    then have "Suc ?q \<le> skip_word buf ?q" if "ch buf ?q \<notin> set symbols"
      using that lt skip_word_ge [of "?q + 1" buf] by (subst skip_word.simps) simp
    then show ?thesis using assms False lt skip_word_le [of ?q buf] ch_in [of buf "?q + 1"]
      by (auto simp: gettoken_def Let_def symbols_def nul_def split: if_splits)
  qed
  show "s \<le> q" "q \<le> eq" "eq \<le> s'" "tok \<noteq> nul \<Longrightarrow> q < eq \<and> eq \<le> length buf"
    using q eq skip_ws_ge by auto
  show "s' \<le> length buf" if "s \<le> length buf"
    using q eq skip_ws_le [OF that] skip_ws_le [of eq buf] by (cases "tok = nul") auto
qed

subsection \<open>The parser\<close>

text \<open>The \<^verbatim>\<open>switch\<close> of \<^verbatim>\<open>parseredirs\<close>: the mode, from \<^verbatim>\<open>kernel/fcntl.h\<close>, and the file descriptor.\<close>

definition redircmd :: "token cmd \<Rightarrow> token \<Rightarrow> char \<Rightarrow> token cmd" where
  "redircmd c f tok =
     (if tok = CHR ''<'' then REDIR c f 0 0
      else if tok = CHR ''>'' then REDIR c f 0x601 1
      else if tok = CHR ''+'' then REDIR c f 0x201 1
      else c)"

function parseredirs :: "string \<Rightarrow> token cmd \<Rightarrow> nat \<Rightarrow> (unit, token cmd \<times> nat) res" where
  "parseredirs buf c s =
     (case peek buf s ''<>'' of (b, s) \<Rightarrow>
      if \<not> b then Inr (c, s)
      else
        case gettoken buf s of (tok, _, _, s) \<Rightarrow>
        case gettoken buf s of (t, q, eq, s) \<Rightarrow>
        if t \<noteq> CHR ''a'' then Inl (Panic ''missing file for redirection'')
        else parseredirs buf (redircmd c (q, eq) tok) s)"
  by pat_completeness auto
termination
proof (relation "measure (\<lambda>(buf, c, s). length buf - s)", goal_cases)
  case (2 buf c s b s1 tok y1 q0 y2 eq0 s2 t y3 q y4 eq s3)
  then have "s \<le> s1" "s1 \<le> s2" "s2 \<le> q" "q < eq" "eq \<le> s3" "eq \<le> length buf"
    using peekD(1) [of buf s "''<>''" b s1] gettokenD [of buf s1 tok q0 eq0 s2] gettokenD [of buf s2 t q eq s3]
    by (simp_all add: nul_def)
  then show ?case by simp
qed simp

declare parseredirs.simps [simp del]

lemma parseredirs_le:
  "parseredirs buf c s = Inr (c', s') \<Longrightarrow> s \<le> s' \<and> (s \<le> length buf \<longrightarrow> s' \<le> length buf)"
proof (induction buf c s rule: parseredirs.induct)
  case (1 buf c s)
  obtain b s1 where p: "peek buf s ''<>'' = (b, s1)" by fastforce
  obtain tok q0 eq0 s2 where g1: "gettoken buf s1 = (tok, q0, eq0, s2)" by (cases "gettoken buf s1") auto
  obtain t q eq s3 where g2: "gettoken buf s2 = (t, q, eq, s3)" by (cases "gettoken buf s2") auto
  show ?case
  proof (cases b)
    case False
    then show ?thesis using "1.prems" p peekD(1,2) [OF p] by (subst (asm) parseredirs.simps) auto
  next
    case True
    then have t: "t = CHR ''a''" and r: "parseredirs buf (redircmd c (q, eq) tok) s3 = Inr (c', s')"
      using "1.prems" p g1 g2 by (subst (asm) parseredirs.simps, auto split: if_splits)+
    have "s3 \<le> s' \<and> (s3 \<le> length buf \<longrightarrow> s' \<le> length buf)"
      using "1.IH" [OF p [symmetric] _ g1 [symmetric] refl refl g2 [symmetric] refl refl] True t r by simp
    then show ?thesis using peekD(1,2) [OF p] gettokenD(1-4) [OF g1] gettokenD(1-4) [OF g2] by auto
  qed
qed

function parseexec_loop :: "string \<Rightarrow> token list \<Rightarrow> token cmd \<Rightarrow> nat \<Rightarrow> (unit, token cmd \<times> nat) res" where
  "parseexec_loop buf argv ret s =
     (case peek buf s ''|)&;'' of (b, s) \<Rightarrow>
      if b then Inr (set_argv argv ret, s)
      else
        case gettoken buf s of (tok, q, eq, s) \<Rightarrow>
        if tok = nul then Inr (set_argv argv ret, s)
        else if tok \<noteq> CHR ''a'' then Inl (Panic ''syntax'')
        else if length argv + 1 \<ge> MAXARGS then Inl (Panic ''too many args'')
        else andthen (parseredirs buf ret s) (\<lambda>(ret, s). parseexec_loop buf (argv @ [(q, eq)]) ret s))"
  by pat_completeness auto
termination
proof (relation "measure (\<lambda>(buf, argv, ret, s). length buf - s)", goal_cases)
  case (2 buf argv ret s b s1 tok y1 q y2 eq s2 x ret' s3)
  then have "s \<le> s1" "s1 \<le> q" "q < eq" "eq \<le> s2" "eq \<le> length buf" "s2 \<le> s3"
    using peekD(1) [of buf s "''|)&;''" b s1] gettokenD [of buf s1 tok q eq s2] parseredirs_le [of buf ret s2 ret' s3]
    by simp_all
  then show ?case by simp
qed simp

declare parseexec_loop.simps [simp del]

text \<open>The \<^verbatim>\<open>while\<close> loop of \<^verbatim>\<open>parseline\<close>.\<close>

function parse_back :: "string \<Rightarrow> token cmd \<Rightarrow> nat \<Rightarrow> token cmd \<times> nat" where
  "parse_back buf c s =
     (case peek buf s ''&'' of (b, s) \<Rightarrow>
      if b then (case gettoken buf s of (_, _, _, s) \<Rightarrow> parse_back buf (BACK c) s) else (c, s))"
  by pat_completeness auto
termination
proof (relation "measure (\<lambda>(buf, c, s). length buf - s)", goal_cases)
  case (2 buf c s b s1 tok y1 q y2 eq s2)
  then have "s \<le> s1" "s1 < length buf" "ch buf s1 = CHR ''&''" "skip_ws buf s1 = s1"
    using peekD [of buf s "''&''" b s1] by simp_all
  moreover then have "tok = CHR ''&''" using 2 by (simp add: gettoken_def Let_def nul_def)
  ultimately show ?case using gettokenD [of buf s1 tok q eq s2] 2 by (simp add: nul_def)
qed simp

declare parse_back.simps [simp del]

fun parseline :: "nat \<Rightarrow> string \<Rightarrow> nat \<Rightarrow> (unit, token cmd \<times> nat) res"
and parsepipe :: "nat \<Rightarrow> string \<Rightarrow> nat \<Rightarrow> (unit, token cmd \<times> nat) res"
and parseexec :: "nat \<Rightarrow> string \<Rightarrow> nat \<Rightarrow> (unit, token cmd \<times> nat) res"
and parseblock :: "nat \<Rightarrow> string \<Rightarrow> nat \<Rightarrow> (unit, token cmd \<times> nat) res" where
  "parseline 0 buf s = Inl Hang"
| "parseline (Suc f) buf s =
     andthen (parsepipe f buf s) (\<lambda>(c, s).
     case parse_back buf c s of (c, s) \<Rightarrow>
     case peek buf s '';'' of (b, s) \<Rightarrow>
     if b then
       case gettoken buf s of (_, _, _, s) \<Rightarrow> andthen (parseline f buf s) (\<lambda>(r, s). Inr (LIST c r, s))
     else Inr (c, s))"
| "parsepipe 0 buf s = Inl Hang"
| "parsepipe (Suc f) buf s =
     andthen (parseexec f buf s) (\<lambda>(c, s).
     case peek buf s ''|'' of (b, s) \<Rightarrow>
     if b then
       case gettoken buf s of (_, _, _, s) \<Rightarrow> andthen (parsepipe f buf s) (\<lambda>(r, s). Inr (PIPE c r, s))
     else Inr (c, s))"
| "parseexec 0 buf s = Inl Hang"
| "parseexec (Suc f) buf s =
     (case peek buf s ''('' of (b, s) \<Rightarrow>
      if b then parseblock f buf s
      else andthen (parseredirs buf (EXEC []) s) (\<lambda>(ret, s). parseexec_loop buf [] ret s))"
| "parseblock 0 buf s = Inl Hang"
| "parseblock (Suc f) buf s =
     (case peek buf s ''('' of (b, s) \<Rightarrow>
      if \<not> b then Inl (Panic ''parseblock'')
      else
        case gettoken buf s of (_, _, _, s) \<Rightarrow>
        andthen (parseline f buf s) (\<lambda>(c, s).
        case peek buf s '')'' of (b, s) \<Rightarrow>
        if \<not> b then Inl (Panic ''syntax - missing )'')
        else case gettoken buf s of (_, _, _, s) \<Rightarrow> parseredirs buf c s))"

text \<open>\<^verbatim>\<open>nulterminate\<close> works on the line with its nul.\<close>

definition put_nul :: "token \<Rightarrow> string \<Rightarrow> string" where
  "put_nul tok b = b[snd tok := nul]"

fun nulterminate :: "token cmd \<Rightarrow> string \<Rightarrow> string" where
  "nulterminate (EXEC argv) b = fold put_nul argv b"
| "nulterminate (REDIR c f m d) b = put_nul f (nulterminate c b)"
| "nulterminate (PIPE l r) b = nulterminate r (nulterminate l b)"
| "nulterminate (LIST l r) b = nulterminate r (nulterminate l b)"
| "nulterminate (BACK c) b = nulterminate c b"

text \<open>The parsed command and the memory of the line. Each character allows at most four nested calls.\<close>

definition parsecmd :: "string \<Rightarrow> (unit, token cmd \<times> string) res" where
  "parsecmd buf =
     andthen (parseline (4 * length buf + 4) buf 0) (\<lambda>(c, s).
     case peek buf s [] of (_, s) \<Rightarrow>
     if s \<noteq> length buf then Inl (Panic ''syntax'') else Inr (c, nulterminate c (buf @ [nul])))"

subsection \<open>Parsing ends, and what it returns is well formed\<close>

definition word_char :: "char \<Rightarrow> bool" where
  "word_char c \<longleftrightarrow> c \<notin> set whitespace \<and> c \<notin> set symbols"

text \<open>A token is a whole word of the line; a command is made of them, and its arrays do not overflow.\<close>

definition tok_ok :: "string \<Rightarrow> token \<Rightarrow> bool" where
  "tok_ok buf tok = (case tok of (q, eq) \<Rightarrow> q < eq \<and> eq \<le> length buf \<and>
     (\<forall>i. q \<le> i \<and> i < eq \<longrightarrow> word_char (buf ! i)) \<and> (eq < length buf \<longrightarrow> \<not> word_char (buf ! eq)))"

definition redir_modes :: "(nat \<times> nat) set" where
  "redir_modes = {(0, 0), (0x601, 1), (0x201, 1)}"

fun cmd_ok :: "string \<Rightarrow> token cmd \<Rightarrow> bool" where
  "cmd_ok buf (EXEC ws) \<longleftrightarrow> length ws < MAXARGS \<and> (\<forall>w \<in> set ws. tok_ok buf w)"
| "cmd_ok buf (REDIR c f m d) \<longleftrightarrow> cmd_ok buf c \<and> tok_ok buf f \<and> (m, d) \<in> redir_modes"
| "cmd_ok buf (PIPE l r) \<longleftrightarrow> cmd_ok buf l \<and> cmd_ok buf r"
| "cmd_ok buf (LIST l r) \<longleftrightarrow> cmd_ok buf l \<and> cmd_ok buf r"
| "cmd_ok buf (BACK c) \<longleftrightarrow> cmd_ok buf c"

lemma set_argv_ok: "cmd_ok buf c \<Longrightarrow> length ws < MAXARGS \<Longrightarrow> \<forall>w \<in> set ws. tok_ok buf w \<Longrightarrow> cmd_ok buf (set_argv ws c)"
  by (induction ws c rule: set_argv.induct) auto

lemma skip_word_chars:
  "q \<le> i \<Longrightarrow> i < skip_word buf q \<Longrightarrow> word_char (ch buf i)"
  "skip_word buf q < length buf \<Longrightarrow> \<not> word_char (ch buf (skip_word buf q))"
proof (induction buf q rule: skip_word.induct)
  case (1 buf q)
  {
    case 1
    then show ?case using "1.IH" by (cases "i = q") (auto simp: skip_word.simps [of buf q] word_char_def split: if_splits)
  next
    case 2
    then show ?case using "1.IH" by (auto simp: skip_word.simps [of buf q] word_char_def split: if_splits)
  }
qed

lemma gettoken_word:
  assumes "gettoken buf s = (CHR ''a'', q, eq, s')"
  shows "tok_ok buf (q, eq)"
proof -
  have qe: "q < eq" "eq \<le> length buf" using gettokenD(5) [OF assms] by (simp_all add: nul_def)
  have eq: "eq = skip_word buf q" using assms by (auto simp: gettoken_def Let_def nul_def split: if_splits)
  show ?thesis using qe skip_word_chars(1) [of q _ buf] skip_word_chars(2) [of buf q] unfolding tok_ok_def eq by (auto simp: ch_def)
qed

lemma peek_gettoken:
  assumes "peek buf s toks = (b, s1)" and "b" and "gettoken buf s1 = (tok, q, eq, s2)"
  shows "s1 < s2" and "s2 \<le> length buf"
proof -
  have p: "s1 < length buf" "skip_ws buf s1 = s1" "ch buf s1 \<noteq> nul"
    using peekD [OF assms(1)] assms(1,2) by (auto simp: peek_def Let_def)
  then have "tok \<noteq> nul" using assms(3) by (auto simp: gettoken_def Let_def nul_def split: if_splits)
  then show "s1 < s2" "s2 \<le> length buf" using gettokenD [OF assms(3)] p(1) by auto
qed

text \<open>A result of parsing from \<open>s\<close>: it is not the end of the fuel, and it goes on in the line.\<close>

definition parsed :: "string \<Rightarrow> nat \<Rightarrow> (unit, token cmd \<times> nat) res \<Rightarrow> bool" where
  "parsed buf s r = (case r of Inl e \<Rightarrow> \<exists>msg. e = Panic msg | Inr (c, s') \<Rightarrow> s \<le> s' \<and> s' \<le> length buf \<and> cmd_ok buf c)"

lemma parsed_simps [simp]:
  "parsed buf s (Inl e) \<longleftrightarrow> (\<exists>msg. e = Panic msg)"
  "parsed buf s (Inr (c, s')) \<longleftrightarrow> s \<le> s' \<and> s' \<le> length buf \<and> cmd_ok buf c"
  by (simp_all add: parsed_def)

lemma parsed_mono: "parsed buf s' r \<Longrightarrow> s \<le> s' \<Longrightarrow> parsed buf s r"
  by (auto simp: parsed_def split: sum.splits)

lemma parsed_andthen:
  assumes "parsed buf s r" and "\<And>c s'. r = Inr (c, s') \<Longrightarrow> s \<le> s' \<Longrightarrow> s' \<le> length buf \<Longrightarrow> cmd_ok buf c \<Longrightarrow> parsed buf s (g (c, s'))"
  shows "parsed buf s (andthen r g)"
  using assms by (cases r) auto

lemma redircmd_ok: "cmd_ok buf c \<Longrightarrow> tok_ok buf f \<Longrightarrow> cmd_ok buf (redircmd c f tok)"
  by (simp add: redircmd_def redir_modes_def)

lemma parseredirs_parsed: "cmd_ok buf c \<Longrightarrow> s \<le> length buf \<Longrightarrow> parsed buf s (parseredirs buf c s)"
proof (induction buf c s rule: parseredirs.induct)
  case (1 buf c s)
  obtain b s1 where p: "peek buf s ''<>'' = (b, s1)" by fastforce
  obtain tok q0 eq0 s2 where g1: "gettoken buf s1 = (tok, q0, eq0, s2)" by (cases "gettoken buf s1") auto
  obtain t q eq s3 where g2: "gettoken buf s2 = (t, q, eq, s3)" by (cases "gettoken buf s2") auto
  note le = peekD(1,2) [OF p] gettokenD(1-4) [OF g1] gettokenD(1-4) [OF g2]
  show ?case
  proof (cases "b \<and> t = CHR ''a''")
    case False
    then show ?thesis using "1.prems" p g1 g2 le by (subst parseredirs.simps) auto
  next
    case True
    then have "tok_ok buf (q, eq)" using gettoken_word g2 by simp
    then have "parsed buf s3 (parseredirs buf (redircmd c (q, eq) tok) s3)"
      using "1.IH" [OF p [symmetric] _ g1 [symmetric] refl refl g2 [symmetric] refl refl] True "1.prems" redircmd_ok le by auto
    then have "parsed buf s (parseredirs buf (redircmd c (q, eq) tok) s3)" by (rule parsed_mono) (use le in linarith)
    then show ?thesis using True p g1 g2 by (subst parseredirs.simps) simp
  qed
qed

lemma parseexec_loop_parsed:
  "cmd_ok buf ret \<Longrightarrow> \<forall>w \<in> set argv. tok_ok buf w \<Longrightarrow> length argv < MAXARGS \<Longrightarrow> s \<le> length buf \<Longrightarrow>
    parsed buf s (parseexec_loop buf argv ret s)"
proof (induction buf argv ret s rule: parseexec_loop.induct)
  case (1 buf argv ret s)
  obtain b s1 where p: "peek buf s ''|)&;'' = (b, s1)" by fastforce
  obtain tok q eq s2 where g: "gettoken buf s1 = (tok, q, eq, s2)" by (cases "gettoken buf s1") auto
  note le = peekD(1,2) [OF p] gettokenD(1-4) [OF g]
  note ok = set_argv_ok [OF "1.prems"(1,3,2)]
  show ?case
  proof (cases "\<not> b \<and> tok = CHR ''a'' \<and> length argv + 1 < MAXARGS")
    case False
    then show ?thesis using "1.prems"(4) p g le ok by (subst parseexec_loop.simps) auto
  next
    case True
    have s2: "s2 \<le> length buf" "s \<le> s2" using le "1.prems"(4) by simp_all
    have "parsed buf s2 (andthen (parseredirs buf ret s2) (\<lambda>(ret, s). parseexec_loop buf (argv @ [(q, eq)]) ret s))"
    proof (rule parsed_andthen [OF parseredirs_parsed [OF "1.prems"(1) s2(1)]], unfold prod.case)
      fix c s'
      assume r: "parseredirs buf ret s2 = Inr (c, s')" and c: "s2 \<le> s'" "s' \<le> length buf" "cmd_ok buf c"
      show "parsed buf s2 (parseexec_loop buf (argv @ [(q, eq)]) c s')"
        by (rule parsed_mono [OF "1.IH" [OF p [symmetric] _ g [symmetric] refl refl _ _ _ r refl]])
          (use True c "1.prems"(2) gettoken_word [of buf s1 q eq s2] g in \<open>auto simp: nul_def\<close>)
    qed
    then show ?thesis using True p g parsed_mono [OF _ s2(2)] by (subst parseexec_loop.simps) (auto simp: nul_def)
  qed
qed

lemma parse_back_parsed:
  "cmd_ok buf c \<Longrightarrow> s \<le> length buf \<Longrightarrow> parse_back buf c s = (c', s') \<Longrightarrow> s \<le> s' \<and> s' \<le> length buf \<and> cmd_ok buf c'"
proof (induction buf c s rule: parse_back.induct)
  case (1 buf c s)
  obtain b s1 where p: "peek buf s ''&'' = (b, s1)" by fastforce
  obtain tok q eq s2 where g: "gettoken buf s1 = (tok, q, eq, s2)" by (cases "gettoken buf s1") auto
  show ?case
  proof (cases b)
    case False
    then show ?thesis using "1.prems" p peekD(1,2) [OF p] by (subst (asm) parse_back.simps) auto
  next
    case True
    then have "parse_back buf (BACK c) s2 = (c', s')" using "1.prems"(3) p g by (subst (asm) parse_back.simps) simp
    then have "s2 \<le> s' \<and> s' \<le> length buf \<and> cmd_ok buf c'"
      using "1.IH" [OF p [symmetric] True g [symmetric] refl refl] "1.prems"(1) peek_gettoken [OF p True g] by simp
    then show ?thesis using peekD(1) [OF p] peek_gettoken(1) [OF p True g] by simp
  qed
qed

text \<open>
  From \<open>s\<close> on, four nested calls for each remaining character are enough: between two calls of \<^verbatim>\<open>parseline\<close>
  at least one character is consumed.
\<close>

lemma parseline_step:
  assumes pl: "\<And>s. s \<le> length buf \<Longrightarrow> 4 * (length buf - s) + 4 \<le> f \<Longrightarrow> parsed buf s (parseline f buf s)"
    and pp: "\<And>s. s \<le> length buf \<Longrightarrow> 4 * (length buf - s) + 3 \<le> f \<Longrightarrow> parsed buf s (parsepipe f buf s)"
    and le: "s \<le> length buf" and fuel: "4 * (length buf - s) + 4 \<le> Suc f"
  shows "parsed buf s (parseline (Suc f) buf s)"
proof -
  show ?thesis unfolding parseline.simps
  proof (rule parsed_andthen, rule pp)
    fix c s'
    assume c: "s \<le> s'" "s' \<le> length buf" "cmd_ok buf c"
    obtain c1 s1 where k: "parse_back buf c s' = (c1, s1)" by fastforce
    obtain b s2 where p: "peek buf s1 '';'' = (b, s2)" by fastforce
    obtain tok q eq s3 where g: "gettoken buf s2 = (tok, q, eq, s3)" by (cases "gettoken buf s2") auto
    note k' = parse_back_parsed [OF c(3,2) k] and p' = peekD(1,2) [OF p]
    show "parsed buf s (case (c, s') of (c, s) \<Rightarrow> case parse_back buf c s of (c, s) \<Rightarrow> case peek buf s '';'' of (b, s) \<Rightarrow>
      if b then case gettoken buf s of (_, _, _, s) \<Rightarrow> andthen (parseline f buf s) (\<lambda>(r, s). Inr (LIST c r, s)) else Inr (c, s))"
    proof (cases b)
      case True
      note g' = peek_gettoken [OF p True g]
      have "parsed buf s3 (andthen (parseline f buf s3) (\<lambda>(r, s). Inr (LIST c1 r, s)))"
        by (rule parsed_andthen, rule pl) (use g' k' p' c le fuel in auto)
      then have "parsed buf s (andthen (parseline f buf s3) (\<lambda>(r, s). Inr (LIST c1 r, s)))"
        by (rule parsed_mono) (use g' k' p' c in auto)
      then show ?thesis using k p g True by simp
    qed (use k p k' p' c in auto)
  qed (use le fuel in auto)
qed

lemma parsepipe_step:
  assumes pp: "\<And>s. s \<le> length buf \<Longrightarrow> 4 * (length buf - s) + 3 \<le> f \<Longrightarrow> parsed buf s (parsepipe f buf s)"
    and pe: "\<And>s. s \<le> length buf \<Longrightarrow> 4 * (length buf - s) + 2 \<le> f \<Longrightarrow> parsed buf s (parseexec f buf s)"
    and le: "s \<le> length buf" and fuel: "4 * (length buf - s) + 3 \<le> Suc f"
  shows "parsed buf s (parsepipe (Suc f) buf s)"
proof -
  show ?thesis unfolding parsepipe.simps
  proof (rule parsed_andthen, rule pe)
    fix c s'
    assume c: "s \<le> s'" "s' \<le> length buf" "cmd_ok buf c"
    obtain b s2 where p: "peek buf s' ''|'' = (b, s2)" by fastforce
    obtain tok q eq s3 where g: "gettoken buf s2 = (tok, q, eq, s3)" by (cases "gettoken buf s2") auto
    note p' = peekD(1,2) [OF p]
    show "parsed buf s (case (c, s') of (c, s) \<Rightarrow> case peek buf s ''|'' of (b, s) \<Rightarrow>
      if b then case gettoken buf s of (_, _, _, s) \<Rightarrow> andthen (parsepipe f buf s) (\<lambda>(r, s). Inr (PIPE c r, s)) else Inr (c, s))"
    proof (cases b)
      case True
      note g' = peek_gettoken [OF p True g]
      have "parsed buf s3 (andthen (parsepipe f buf s3) (\<lambda>(r, s). Inr (PIPE c r, s)))"
        by (rule parsed_andthen, rule pp) (use g' p' c le fuel in auto)
      then have "parsed buf s (andthen (parsepipe f buf s3) (\<lambda>(r, s). Inr (PIPE c r, s)))"
        by (rule parsed_mono) (use g' p' c in auto)
      then show ?thesis using p g True by simp
    qed (use p p' c in auto)
  qed (use le fuel in auto)
qed

lemma parseexec_step:
  assumes pb: "\<And>s. s \<le> length buf \<Longrightarrow> 4 * (length buf - s) + 1 \<le> f \<Longrightarrow> parsed buf s (parseblock f buf s)"
    and le: "s \<le> length buf" and fuel: "4 * (length buf - s) + 2 \<le> Suc f"
  shows "parsed buf s (parseexec (Suc f) buf s)"
proof -
  obtain b s1 where p: "peek buf s ''('' = (b, s1)" by fastforce
  note p' = peekD(1,2) [OF p]
  show ?thesis
  proof (cases b)
    case True
    have "parsed buf s (parseblock f buf s1)" by (rule parsed_mono, rule pb) (use p' le fuel in auto)
    then show ?thesis using p True by simp
  next
    case False
    have "parsed buf s1 (andthen (parseredirs buf (EXEC []) s1) (\<lambda>(ret, s). parseexec_loop buf [] ret s))"
    proof (rule parsed_andthen [OF parseredirs_parsed])
      fix c s' assume "s1 \<le> s'" "s' \<le> length buf" "cmd_ok buf c"
      then show "parsed buf s1 (case (c, s') of (ret, s) \<Rightarrow> parseexec_loop buf [] ret s)"
        using parsed_mono [OF parseexec_loop_parsed [of buf c "[]" s']] by (simp add: MAXARGS_def)
    qed (use p' le fuel in \<open>simp_all add: MAXARGS_def\<close>)
    then have "parsed buf s (andthen (parseredirs buf (EXEC []) s1) (\<lambda>(ret, s). parseexec_loop buf [] ret s))"
      by (rule parsed_mono) (rule p'(1))
    then show ?thesis using p False by simp
  qed
qed

lemma parseblock_step:
  assumes pl: "\<And>s. s \<le> length buf \<Longrightarrow> 4 * (length buf - s) + 4 \<le> f \<Longrightarrow> parsed buf s (parseline f buf s)"
    and le: "s \<le> length buf" and fuel: "4 * (length buf - s) + 1 \<le> Suc f"
  shows "parsed buf s (parseblock (Suc f) buf s)"
proof -
  obtain b s1 where p: "peek buf s ''('' = (b, s1)" by fastforce
  obtain tok q eq s2 where g: "gettoken buf s1 = (tok, q, eq, s2)" by (cases "gettoken buf s1") auto
  note p' = peekD(1,2) [OF p]
  show ?thesis
  proof (cases b)
    case True
    note g' = peek_gettoken [OF p True g]
    let ?k = "\<lambda>(c, s). case peek buf s '')'' of (b, s) \<Rightarrow> if \<not> b then Inl (Panic ''syntax - missing )'')
      else case gettoken buf s of (_, _, _, s) \<Rightarrow> parseredirs buf c s"
    have "parsed buf s2 (andthen (parseline f buf s2) ?k)"
    proof (rule parsed_andthen, rule pl)
      fix c s' assume c: "s2 \<le> s'" "s' \<le> length buf" "cmd_ok buf c"
      obtain b s3 where p2: "peek buf s' '')'' = (b, s3)" by fastforce
      obtain tok q eq s4 where g2: "gettoken buf s3 = (tok, q, eq, s4)" by (cases "gettoken buf s3") auto
      note le = peekD(1,2) [OF p2] gettokenD(1-4) [OF g2]
      have "parsed buf s2 (parseredirs buf c s4)"
        by (rule parsed_mono [OF parseredirs_parsed]) (use le c in auto)
      then show "parsed buf s2 (?k (c, s'))" using p2 g2 by simp
    qed (use g' p' le fuel in auto)
    then have "parsed buf s (andthen (parseline f buf s2) ?k)" by (rule parsed_mono) (use g' p' in auto)
    then show ?thesis using p g True by simp
  qed (use p in simp)
qed

lemma parseline_parsed:
  "s \<le> length buf \<Longrightarrow> 4 * (length buf - s) + 4 \<le> f \<Longrightarrow> parsed buf s (parseline f buf s)"
  and parsepipe_parsed:
  "s \<le> length buf \<Longrightarrow> 4 * (length buf - s) + 3 \<le> f \<Longrightarrow> parsed buf s (parsepipe f buf s)"
  and parseexec_parsed:
  "s \<le> length buf \<Longrightarrow> 4 * (length buf - s) + 2 \<le> f \<Longrightarrow> parsed buf s (parseexec f buf s)"
  and parseblock_parsed:
  "s \<le> length buf \<Longrightarrow> 4 * (length buf - s) + 1 \<le> f \<Longrightarrow> parsed buf s (parseblock f buf s)"
proof (induction f arbitrary: s)
  case (Suc f)
  {
    case 1
    show ?case by (rule parseline_step [OF Suc.IH(1,2) 1])
  next
    case 2
    show ?case by (rule parsepipe_step [OF Suc.IH(2,3) 2])
  next
    case 3
    show ?case by (rule parseexec_step [OF Suc.IH(4) 3])
  next
    case 4
    show ?case by (rule parseblock_step [OF Suc.IH(1) 4])
  }
qed simp_all

text \<open>
  C12. Parsing ends on every line: \<^verbatim>\<open>parsecmd\<close> returns a command or panics with a message. The bound of four nested
  calls for each character, and four more, is never exceeded.
\<close>

theorem parsecmd_ends: "(\<exists>c b. parsecmd buf = Inr (c, b)) \<or> (\<exists>msg. parsecmd buf = Inl (Panic msg))"
proof -
  have p: "parsed buf 0 (parseline (4 * length buf + 4) buf 0)" by (rule parseline_parsed) simp_all
  show ?thesis
  proof (cases "parseline (4 * length buf + 4) buf 0")
    case (Inr x)
    then show ?thesis by (cases x) (auto simp: parsecmd_def split: prod.splits)
  qed (use p in \<open>auto simp: parsecmd_def\<close>)
qed

subsection \<open>The nuls\<close>

text \<open>The word of a token, and the string that a pointer to its start denotes in memory.\<close>

definition slice :: "string \<Rightarrow> token \<Rightarrow> string" where
  "slice buf tok = take (snd tok - fst tok) (drop (fst tok) buf)"

definition str_at :: "string \<Rightarrow> token \<Rightarrow> string" where
  "str_at b tok = takeWhile (\<lambda>c. c \<noteq> nul) (drop (fst tok) b)"

lemma nth_upd: "j < length xs \<Longrightarrow> xs[i := x] ! j = (if i = j then x else xs ! j)"
  by auto

lemma fold_put_nul:
  "length (fold put_nul ts b) = length b \<and> (\<forall>i < length b. fold put_nul ts b ! i = (if i \<in> snd ` set ts then nul else b ! i))"
  by (induction ts arbitrary: b) (auto simp: put_nul_def nth_upd)

lemma nulterminate_nth:
  "length (nulterminate c b) = length b \<and>
    (\<forall>i < length b. nulterminate c b ! i = (if i \<in> snd ` set_cmd c then nul else b ! i))"
proof (induction c arbitrary: b)
  case (EXEC ts)
  then show ?case using fold_put_nul by simp
next
  case (REDIR c f m d)
  show ?case using REDIR.IH [of b] by (simp add: put_nul_def nth_upd)
next
  case (PIPE l r)
  then show ?case by auto
next
  case (LIST l r)
  then show ?case by auto
next
  case (BACK c)
  then show ?case by simp
qed

lemma cmd_ok_tokens: "cmd_ok buf c \<Longrightarrow> tok \<in> set_cmd c \<Longrightarrow> tok_ok buf tok"
  by (induction c) auto

lemma str_at_slice:
  assumes n: "nul \<notin> set buf" and ok: "cmd_ok buf c" and tok: "tok \<in> set_cmd c"
  shows "str_at (nulterminate c (buf @ [nul])) tok = slice buf tok"
proof -
  let ?b = "nulterminate c (buf @ [nul])"
  obtain q eq where t: "tok = (q, eq)" by fastforce
  have te: "q < eq" "eq \<le> length buf" and wc: "\<And>i. q \<le> i \<Longrightarrow> i < eq \<Longrightarrow> word_char (buf ! i)"
    using cmd_ok_tokens [OF ok tok] by (auto simp: tok_ok_def t)
  have keep: "?b ! i = buf ! i" if i: "q \<le> i" "i < eq" for i
  proof -
    have "i \<notin> snd ` set_cmd c"
      using cmd_ok_tokens [OF ok] wc [OF i] i te(2) by (auto simp: tok_ok_def)
    then show ?thesis using nulterminate_nth [of c "buf @ [nul]"] i te(2) by (simp add: nth_append)
  qed
  have len: "length ?b = length buf + 1" using nulterminate_nth [of c "buf @ [nul]"] by simp
  have "?b ! eq = nul" using nulterminate_nth [of c "buf @ [nul]"] tok te(2) t by (force simp: nth_append)
  then have "drop eq ?b = nul # drop (eq + 1) ?b" using len te(2) by (simp add: Cons_nth_drop_Suc [symmetric])
  moreover have "take (eq - q) (drop q ?b) = slice buf tok"
    using keep te len by (auto simp: slice_def t list_eq_iff_nth_eq)
  ultimately have "drop q ?b = slice buf tok @ nul # drop (eq + 1) ?b"
    using append_take_drop_id [of "eq - q" "drop q ?b"] te by simp
  moreover have "nul \<notin> set (slice buf tok)" using n by (auto simp: slice_def dest: in_set_takeD in_set_dropD)
  ultimately show ?thesis unfolding str_at_def t by (simp add: takeWhile_tail takeWhile_append)
qed

text \<open>
  C13. What the parser returns is well formed. The command has fewer than \<^verbatim>\<open>MAXARGS\<close> arguments everywhere, every
  redirection has one of the three modes, and every token is a whole word of the line. In the memory that
  \<^verbatim>\<open>nulterminate\<close> leaves, the pointer to each token denotes exactly that word: no nul falls into another word,
  although words and symbols may follow each other without blanks.
\<close>

theorem parsecmd_words:
  assumes "nul \<notin> set buf" and "parsecmd buf = Inr (c, b)"
  shows "cmd_ok buf c \<and> (\<forall>tok \<in> set_cmd c. str_at b tok = slice buf tok)"
proof -
  obtain c' s where l: "parseline (4 * length buf + 4) buf 0 = Inr (c', s)"
    using assms(2) by (auto simp: parsecmd_def andthen_eq_Inr_iff)
  obtain b' s' where p: "peek buf s [] = (b', s')" by fastforce
  have s: "parseline (4 * length buf + 4) buf 0 = Inr (c, s)" and b: "b = nulterminate c (buf @ [nul])"
    using assms(2) l p by (auto simp: parsecmd_def split: if_splits)
  have "parsed buf 0 (parseline (4 * length buf + 4) buf 0)" by (rule parseline_parsed) simp_all
  then have "cmd_ok buf c" using s by simp
  then show ?thesis using str_at_slice [OF assms(1)] b by simp
qed

end
