(* ===== verification/Shell_Print.thy ===== *)
theory Shell_Print
  imports Shell
begin

section \<open>Commands that are printed and parsed\<close>

text \<open>
  Every command has a line that the parser of \<^verbatim>\<open>user/sh.c\<close> turns back into it. The line puts each part of a
  command in parentheses, which leave no trace in the parsed command.
\<close>

subsection \<open>Printing\<close>

definition is_word :: "string \<Rightarrow> bool" where
  "is_word w \<longleftrightarrow> w \<noteq> [] \<and> (\<forall>c \<in> set w. word_char c \<and> c \<noteq> nul)"

fun cmd_wf :: "string cmd \<Rightarrow> bool" where
  "cmd_wf (EXEC ws) \<longleftrightarrow> length ws < MAXARGS \<and> (\<forall>w \<in> set ws. is_word w)"
| "cmd_wf (REDIR c f m d) \<longleftrightarrow> cmd_wf c \<and> is_word f \<and> (m, d) \<in> redir_modes"
| "cmd_wf (PIPE l r) \<longleftrightarrow> cmd_wf l \<and> cmd_wf r"
| "cmd_wf (LIST l r) \<longleftrightarrow> cmd_wf l \<and> cmd_wf r"
| "cmd_wf (BACK c) \<longleftrightarrow> cmd_wf c"

definition redir_op :: "nat \<Rightarrow> string" where
  "redir_op m = (if m = 0 then ''<'' else if m = 0x601 then ''>'' else ''>>'')"

definition paren :: "string \<Rightarrow> string" where
  "paren u = CHR ''('' # u @ '')''"

fun unparse :: "string cmd \<Rightarrow> string" where
  "unparse (EXEC ws) = concat (map (\<lambda>w. w @ '' '') ws)"
| "unparse (REDIR c f m d) = paren (unparse c) @ redir_op m @ f"
| "unparse (PIPE l r) = paren (unparse l) @ CHR ''|'' # paren (unparse r)"
| "unparse (LIST l r) = paren (unparse l) @ CHR '';'' # paren (unparse r)"
| "unparse (BACK c) = paren (unparse c) @ ''&''"

subsection \<open>Tokens of a line\<close>

text \<open>What follows does not start with a blank; what follows is the end or a closing parenthesis.\<close>

definition solid :: "string \<Rightarrow> bool" where
  "solid r \<longleftrightarrow> r = [] \<or> hd r \<notin> set whitespace"

definition ends :: "string \<Rightarrow> bool" where
  "ends r \<longleftrightarrow> r = [] \<or> hd r = CHR '')''"

lemma solid_simps [simp]:
  "solid []" "solid (c # r) \<longleftrightarrow> c \<notin> set whitespace" "ends [] " "ends (c # r) \<longleftrightarrow> c = CHR '')''"
  by (simp_all add: solid_def ends_def)

lemma ends_solid: "ends r \<Longrightarrow> solid r"
  by (auto simp: ends_def solid_def whitespace_def)

lemma drop_ConsD:
  assumes "drop s buf = c # r"
  shows "s < length buf" and "ch buf s = c" and "drop (Suc s) buf = r"
proof -
  show l: "s < length buf" using assms by (metis drop_all linorder_not_less list.distinct(1))
  then show "ch buf s = c" "drop (Suc s) buf = r" using assms Cons_nth_drop_Suc [OF l] by (simp_all add: ch_def)
qed

lemma drop_past: "drop s buf = u @ r \<Longrightarrow> drop (s + length u) buf = r"
  by (metis add.commute append_eq_conv_conj drop_drop)

lemma ch_drop: "ch buf s = (case drop s buf of [] \<Rightarrow> nul | c # r \<Rightarrow> c)"
  by (cases "drop s buf") (auto simp: ch_def dest: drop_ConsD)

lemma skip_ws_solid: "solid (drop s buf) \<Longrightarrow> skip_ws buf s = s"
  by (subst skip_ws.simps) (cases "drop s buf", auto simp: ch_drop)

lemma peek_at: "solid (drop s buf) \<Longrightarrow> peek buf s toks = (ch buf s \<noteq> nul \<and> ch buf s \<in> set toks, s)"
  by (simp add: peek_def Let_def skip_ws_solid)

lemma gettoken_symbol:
  assumes "drop s buf = c # r" and "c \<in> set ''|();&<''" and "solid r"
  shows "gettoken buf s = (c, s, s + 1, s + 1)"
proof -
  note d = drop_ConsD [OF assms(1)]
  have "skip_ws buf s = s" using assms(1,2) by (intro skip_ws_solid) (auto simp: whitespace_def)
  moreover have "skip_ws buf (Suc s) = Suc s" using d(3) assms(3) by (intro skip_ws_solid) simp
  ultimately show ?thesis using assms(2) d(2) by (auto simp: gettoken_def Let_def nul_def)
qed

lemma skip_word_at:
  "drop s buf = w @ r \<Longrightarrow> \<forall>c \<in> set w. word_char c \<Longrightarrow> r = [] \<or> \<not> word_char (hd r) \<Longrightarrow> skip_word buf s = s + length w"
proof (induction w arbitrary: s)
  case Nil
  then show ?case by (subst skip_word.simps) (cases r, auto simp: ch_drop word_char_def)
next
  case (Cons c w)
  note d = drop_ConsD [OF Cons.prems(1) [unfolded append_Cons]]
  show ?case using Cons.IH [OF d(3)] Cons.prems(2,3) d(1,2) by (subst skip_word.simps) (simp add: word_char_def)
qed

lemma gettoken_word_at:
  assumes "drop s buf = w @ r" and "is_word w" and "r = [] \<or> \<not> word_char (hd r)"
  shows "gettoken buf s = (CHR ''a'', s, s + length w, skip_ws buf (s + length w))" and "slice buf (s, s + length w) = w"
proof -
  obtain c w' where w: "w = c # w'" using assms(2) by (cases w) (simp_all add: is_word_def)
  have c: "ch buf s = c" "word_char c" "c \<noteq> nul"
    using assms(1,2) drop_ConsD(2) [of s buf c "w' @ r"] by (simp_all add: w is_word_def)
  then have sym: "c \<notin> set ''|();&<''" "c \<noteq> CHR ''>''" "c \<notin> set whitespace" by (auto simp: word_char_def symbols_def)
  then have "skip_ws buf s = s" using assms(1) w by (intro skip_ws_solid) simp
  moreover have "skip_word buf s = s + length w" using skip_word_at [OF assms(1) _ assms(3)] assms(2) by (simp add: is_word_def)
  ultimately show "gettoken buf s = (CHR ''a'', s, s + length w, skip_ws buf (s + length w))"
    using c sym by (simp add: gettoken_def Let_def)
  show "slice buf (s, s + length w) = w" using assms(1) by (simp add: slice_def)
qed

lemma not_word_char: "c \<in> set whitespace \<or> c \<in> set symbols \<Longrightarrow> \<not> word_char c"
  by (auto simp: word_char_def)

text \<open>No redirection follows.\<close>

lemma parseredirs_none:
  "solid (drop s buf) \<Longrightarrow> ch buf s \<notin> set ''<>'' \<Longrightarrow> parseredirs buf c s = Inr (c, s)"
  by (subst parseredirs.simps) (simp add: peek_at)

lemma parse_back_none: "solid (drop s buf) \<Longrightarrow> ch buf s \<noteq> CHR ''&'' \<Longrightarrow> parse_back buf c s = (c, s)"
  by (subst parse_back.simps) (simp add: peek_at)

lemma ch_ends: "ends (drop s buf) \<Longrightarrow> ch buf s = nul \<or> ch buf s = CHR '')''"
  by (auto simp: ch_drop ends_def split: list.splits)

subsection \<open>Parsing what was printed\<close>

text \<open>The start of a printed command, or what follows it.\<close>

definition starts :: "string \<Rightarrow> bool" where
  "starts r \<longleftrightarrow> r = [] \<or> word_char (hd r) \<or> hd r = CHR ''('' \<or> hd r = CHR '')''"

lemma startsD:
  assumes "starts (drop s buf)"
  shows "solid (drop s buf)" and "ch buf s \<notin> set ''<>|&;''"
  using assms by (auto simp: starts_def solid_def ch_drop nul_def word_char_def whitespace_def symbols_def split: list.splits)

lemma starts_unparse: "cmd_wf c \<Longrightarrow> ends r \<Longrightarrow> starts (unparse c @ r)"
proof (cases c)
  case (EXEC ws)
  moreover assume "cmd_wf c" "ends r"
  ultimately show ?thesis by (cases ws) (auto simp: starts_def ends_def is_word_def neq_Nil_conv)
qed (simp_all add: starts_def paren_def)

lemma parseexec_loop_at:
  "drop s buf = unparse (EXEC ws) @ r \<Longrightarrow> \<forall>w \<in> set ws. is_word w \<Longrightarrow> ends r \<Longrightarrow> length argv + length ws < MAXARGS \<Longrightarrow>
    \<exists>ts. parseexec_loop buf argv (EXEC []) s = Inr (EXEC (argv @ ts), s + length (unparse (EXEC ws))) \<and> map (slice buf) ts = ws"
proof (induction ws arbitrary: s argv)
  case Nil
  then have e: "ends (drop s buf)" by simp
  note p = peek_at [OF ends_solid [OF e]]
  have "gettoken buf s = (nul, s, s, s)" if "ch buf s = nul"
    using that skip_ws_solid [OF ends_solid [OF e]] by (simp add: gettoken_def)
  then have "parseexec_loop buf argv (EXEC []) s = Inr (EXEC argv, s)"
    using ch_ends [OF e] by (subst parseexec_loop.simps) (auto simp: p nul_def)
  then show ?case by simp
next
  case (Cons w ws)
  let ?u = "unparse (EXEC ws)" and ?s = "s + length w + 1"
  have w: "is_word w" and d: "drop s buf = w @ CHR '' '' # ?u @ r" using Cons.prems by simp_all
  have "\<not> word_char (CHR '' '')" by (simp add: word_char_def whitespace_def)
  then have g: "gettoken buf s = (CHR ''a'', s, s + length w, skip_ws buf (s + length w))" "slice buf (s, s + length w) = w"
    using gettoken_word_at [OF d w] by simp_all
  have d2: "drop (s + length w) buf = CHR '' '' # ?u @ r" using drop_past [OF d] by simp
  have d3: "drop ?s buf = ?u @ r" using drop_ConsD(3) [OF d2] by simp
  have op: "starts (drop ?s buf)" using starts_unparse [of "EXEC ws" r] Cons.prems d3 by simp
  have k: "skip_ws buf (s + length w) = ?s"
    using skip_ws_solid [OF startsD(1) [OF op]] drop_ConsD(1,2) [OF d2] by (subst skip_ws.simps) (simp add: whitespace_def)
  have "starts (drop s buf)" using starts_unparse [of "EXEC (w # ws)" r] Cons.prems by simp
  moreover have "ch buf s \<noteq> CHR '')''" using d w by (cases w) (auto simp: ch_drop is_word_def word_char_def symbols_def)
  ultimately have p: "peek buf s ''|)&;'' = (False, s)" using startsD [of s buf] peek_at [of s buf] by simp
  obtain ts where ts: "parseexec_loop buf (argv @ [(s, s + length w)]) (EXEC []) ?s = Inr (EXEC ((argv @ [(s, s + length w)]) @ ts), ?s + length ?u)"
    "map (slice buf) ts = ws" using Cons.IH [OF d3, of "argv @ [(s, s + length w)]"] Cons.prems by auto
  have "parseredirs buf (EXEC []) ?s = Inr (EXEC [], ?s)" using parseredirs_none startsD [OF op] by simp
  then have "parseexec_loop buf argv (EXEC []) s = Inr (EXEC (argv @ (s, s + length w) # ts), ?s + length ?u)"
    using p g(1) k ts(1) Cons.prems(4) by (subst parseexec_loop.simps) (simp add: nul_def)
  then show ?case using ts(2) g(2) by (intro exI [of _ "(s, s + length w) # ts"]) (simp add: algebra_simps)
qed

text \<open>A part in parentheses.\<close>

lemma parseexec_paren:
  assumes d: "drop s buf = paren u @ r" and l: "parseline f buf (s + 1) = Inr (t, s + 1 + length u)"
    and u: "starts (u @ CHR '')'' # r)" and r: "solid r"
  shows "parseexec (Suc (Suc f)) buf s = parseredirs buf t (s + length (paren u))"
proof -
  have d0: "drop s buf = CHR ''('' # u @ CHR '')'' # r" using d by (simp add: paren_def)
  have d1: "drop (s + 1) buf = u @ CHR '')'' # r" using drop_ConsD(3) [OF d0] by simp
  have d2: "drop (s + 1 + length u) buf = CHR '')'' # r" by (rule drop_past [OF d1])
  have p: "peek buf s ''('' = (True, s)" using d0 by (subst peek_at) (simp_all add: ch_drop nul_def whitespace_def)
  have g: "gettoken buf s = (CHR ''('', s, s + 1, s + 1)"
    by (rule gettoken_symbol [OF d0]) (use startsD(1) [of "s + 1" buf] u d1 in simp_all)
  have p2: "peek buf (s + 1 + length u) '')'' = (True, s + 1 + length u)"
    using d2 by (subst peek_at) (simp_all add: ch_drop nul_def whitespace_def)
  have g2: "gettoken buf (s + 1 + length u) = (CHR '')'', s + 1 + length u, s + 1 + length u + 1, s + 1 + length u + 1)"
    by (rule gettoken_symbol [OF d2]) (use r in simp_all)
  show ?thesis using p g p2 g2 l by (simp add: paren_def)
qed

lemma gettoken_gt:
  assumes "drop s buf = CHR ''>'' # r" and "solid r"
  shows "r = [] \<or> hd r \<noteq> CHR ''>'' \<Longrightarrow> gettoken buf s = (CHR ''>'', s, s + 1, s + 1)"
    and "r = CHR ''>'' # r' \<Longrightarrow> solid r' \<Longrightarrow> gettoken buf s = (CHR ''+'', s, s + 2, s + 2)"
proof -
  note d = drop_ConsD [OF assms(1)]
  have s: "skip_ws buf s = s" using assms(1) by (intro skip_ws_solid) (simp add: whitespace_def)
  have s1: "skip_ws buf (Suc s) = Suc s" using d(3) assms(2) by (intro skip_ws_solid) simp
  have c: "ch buf (Suc s) = (case r of [] \<Rightarrow> nul | c # _ \<Rightarrow> c)" using d(3) by (simp add: ch_drop)
  show "gettoken buf s = (CHR ''>'', s, s + 1, s + 1)" if "r = [] \<or> hd r \<noteq> CHR ''>''"
    using that s s1 d(2) c by (auto simp: gettoken_def Let_def nul_def split: list.splits)
  show "gettoken buf s = (CHR ''+'', s, s + 2, s + 2)" if r: "r = CHR ''>'' # r'" "solid r'"
  proof -
    have "drop (Suc (Suc s)) buf = r'" using drop_ConsD(3) [of "Suc s" buf] d(3) r(1) by simp
    then have "skip_ws buf (Suc (Suc s)) = Suc (Suc s)" using r(2) by (intro skip_ws_solid) simp
    then show ?thesis using s d(2) c r(1) by (simp add: gettoken_def Let_def nul_def)
  qed
qed

lemma redir_token:
  assumes d: "drop s buf = redir_op m @ w @ r" and w: "is_word w" and m: "(m, d) \<in> redir_modes"
  obtains tok where "gettoken buf s = (tok, s, s + length (redir_op m), s + length (redir_op m))"
    and "\<And>c f. redircmd c f tok = REDIR c f m d" and "peek buf s ''<>'' = (True, s)"
proof -
  have h: "w \<noteq> []" "word_char (hd w)" using w by (auto simp: is_word_def)
  then have s: "solid (w @ r)" "hd (w @ r) \<noteq> CHR ''>''" by (auto simp: solid_def word_char_def symbols_def)
  have p: "peek buf s ''<>'' = (True, s)"
    by (subst peek_at) (use d in \<open>auto simp: redir_op_def ch_drop nul_def whitespace_def split: if_splits\<close>)
  consider "m = 0" "d = 0" | "m = 0x601" "d = 1" | "m = 0x201" "d = 1" using m by (auto simp: redir_modes_def)
  then show ?thesis
  proof cases
    case 1
    then show ?thesis using gettoken_symbol [of s buf "CHR ''<''" "w @ r"] d s p
      by (intro that [of "CHR ''<''"]) (simp_all add: redir_op_def redircmd_def)
  next
    case 2
    then show ?thesis using gettoken_gt(1) [of s buf "w @ r"] d s p
      by (intro that [of "CHR ''>''"]) (simp_all add: redir_op_def redircmd_def)
  next
    case 3
    have "gettoken buf s = (CHR ''+'', s, s + 2, s + 2)"
      by (rule gettoken_gt(2) [OF _ _ refl]) (use d 3 s in \<open>simp_all add: redir_op_def whitespace_def\<close>)
    then show ?thesis using 3 p by (intro that [of "CHR ''+''"]) (simp_all add: redir_op_def redircmd_def)
  qed
qed

lemma parseredirs_one:
  assumes d: "drop s buf = redir_op m @ w @ r" and w: "is_word w" and m: "(m, d) \<in> redir_modes" and r: "ends r"
  obtains f where "parseredirs buf t s = Inr (REDIR t f m d, s + length (redir_op m @ w))" and "slice buf f = w"
proof -
  let ?q = "s + length (redir_op m)"
  let ?e = "?q + length w"
  obtain tok where g: "gettoken buf s = (tok, s, ?q, ?q)" "\<And>c f. redircmd c f tok = REDIR c f m d" "peek buf s ''<>'' = (True, s)"
    by (rule redir_token [OF d w m], rule that)
  have d2: "drop ?q buf = w @ r" by (rule drop_past [OF d])
  have "r = [] \<or> \<not> word_char (hd r)" using r by (auto simp: ends_def word_char_def symbols_def)
  note g2 = gettoken_word_at [OF d2 w this]
  have e: "ends (drop ?e buf)" using drop_past [OF d2] r by simp
  have "parseredirs buf (REDIR t (?q, ?e) m d) ?e = Inr (REDIR t (?q, ?e) m d, ?e)"
    using parseredirs_none [OF ends_solid [OF e]] ch_ends [OF e] by (auto simp: nul_def)
  then have "parseredirs buf t s = Inr (REDIR t (?q, ?e) m d, ?e)"
    using g g2(1) skip_ws_solid [OF ends_solid [OF e]] by (subst parseredirs.simps) simp
  then show ?thesis using g2(2) by (intro that [of "(?q, ?e)"]) simp_all
qed

text \<open>Nothing follows a command at its end.\<close>

lemma parse_end:
  assumes "ends (drop s' buf)"
  shows "parseexec f buf s = Inr (t, s') \<Longrightarrow> parsepipe (Suc f) buf s = Inr (t, s')"
    and "parsepipe f buf s = Inr (t, s') \<Longrightarrow> parseline (Suc f) buf s = Inr (t, s')"
    and "parseredirs buf t s' = Inr (t, s')"
  using ends_solid [OF assms] ch_ends [OF assms] by (auto simp: peek_at parse_back_none parseredirs_none nul_def)

lemma starts_paren: "starts (paren u @ r)"
  by (simp add: starts_def paren_def)

definition reads_as :: "string \<Rightarrow> nat \<Rightarrow> nat \<Rightarrow> string cmd \<Rightarrow> bool" where
  "reads_as buf f s c \<longleftrightarrow> (\<exists>t. parseline f buf s = Inr (t, s + length (unparse c)) \<and> map_cmd (slice buf) t = c)"

definition reads_back :: "string \<Rightarrow> string cmd \<Rightarrow> bool" where
  "reads_back buf c \<longleftrightarrow>
     (\<forall>s r f. drop s buf = unparse c @ r \<longrightarrow> ends r \<longrightarrow> 4 * length (unparse c) + 4 \<le> f \<longrightarrow> reads_as buf f s c)"

lemma sub_command:
  assumes IH: "reads_back buf c"
    and wf: "cmd_wf c" and d: "drop s buf = paren (unparse c) @ r" and r: "solid r" and f: "4 * length (unparse c) + 6 \<le> f"
  obtains t where "parseexec f buf s = parseredirs buf t (s + length (paren (unparse c)))" and "map_cmd (slice buf) t = c"
    and "drop (s + length (paren (unparse c))) buf = r"
proof -
  define g where "g = f - 2"
  have g: "f = Suc (Suc g)" "4 * length (unparse c) + 4 \<le> g" using f by (simp_all add: g_def)
  have "drop (s + 1) buf = unparse c @ CHR '')'' # r"
    using drop_ConsD(3) [of s buf "CHR ''(''" "unparse c @ CHR '')'' # r"] d by (simp add: paren_def)
  then have "reads_as buf g (s + 1) c" using IH g(2) by (auto simp: reads_back_def)
  then obtain t where t: "parseline g buf (s + 1) = Inr (t, s + 1 + length (unparse c))" "map_cmd (slice buf) t = c"
    by (auto simp: reads_as_def)
  have "starts (unparse c @ CHR '')'' # r)" by (rule starts_unparse [OF wf]) simp
  from parseexec_paren [OF d t(1) this r] show ?thesis using t(2) drop_past [OF d] g(1) by (intro that) simp_all
qed

lemma reads_EXEC:
  assumes "cmd_wf (EXEC ws)" and d: "drop s buf = unparse (EXEC ws) @ r" and r: "ends r"
  shows "reads_as buf (Suc (Suc (Suc f))) s (EXEC ws)"
proof -
  let ?e = "s + length (unparse (EXEC ws))"
  obtain ts where ts: "parseexec_loop buf [] (EXEC []) s = Inr (EXEC ts, ?e)" "map (slice buf) ts = ws"
    using parseexec_loop_at [OF d, of "[]"] assms by auto
  have st: "starts (drop s buf)" using starts_unparse [OF assms(1) r] d by simp
  have "ch buf s \<noteq> CHR ''(''"
  proof (cases ws)
    case Nil
    then show ?thesis using d r ch_ends [of s buf] by (auto simp: nul_def)
  next
    case (Cons w ws')
    then have "w \<noteq> []" "word_char (hd w)" using assms(1) by (simp_all add: is_word_def)
    then show ?thesis using d Cons by (cases w) (auto simp: ch_drop word_char_def symbols_def)
  qed
  then have x: "parseexec (Suc f) buf s = Inr (EXEC ts, ?e)"
    using peek_at [OF startsD(1) [OF st]] parseredirs_none [OF startsD(1) [OF st]] startsD(2) [OF st] ts(1) by simp
  have e: "ends (drop ?e buf)" using drop_past [OF d] r by simp
  note parse_end(2) [OF e parse_end(1) [OF e x]]
  then show ?thesis using ts(2) by (auto simp: reads_as_def)
qed

lemma reads_REDIR:
  assumes IH: "reads_back buf c"
    and wf: "cmd_wf (REDIR c w m d)" and dr: "drop s buf = unparse (REDIR c w m d) @ r" and r: "ends r"
    and f: "4 * length (unparse (REDIR c w m d)) + 2 \<le> f"
  shows "reads_as buf (Suc (Suc f)) s (REDIR c w m d)"
proof -
  have d: "drop s buf = paren (unparse c) @ redir_op m @ w @ r" using dr by simp
  have wf': "cmd_wf c" "is_word w" "(m, d) \<in> redir_modes" using wf by simp_all
  have so: "solid (redir_op m @ w @ r)" by (simp add: redir_op_def whitespace_def)
  have le: "4 * length (unparse c) + 6 \<le> f" using f by (simp add: paren_def)
  obtain t where t: "parseexec f buf s = parseredirs buf t (s + length (paren (unparse c)))" "map_cmd (slice buf) t = c"
    "drop (s + length (paren (unparse c))) buf = redir_op m @ w @ r"
    by (rule sub_command [OF IH wf'(1) d so le], rule that)
  obtain g where g: "parseredirs buf t (s + length (paren (unparse c))) =
      Inr (REDIR t g m d, s + length (paren (unparse c)) + length (redir_op m @ w))" "slice buf g = w"
    by (rule parseredirs_one [OF t(3) wf'(2,3) r], rule that)
  let ?e = "s + length (paren (unparse c)) + length (redir_op m @ w)"
  have e: "ends (drop ?e buf)" using drop_past [of "s + length (paren (unparse c))" buf "redir_op m @ w" r] t(3) r by simp
  have x: "parseexec f buf s = Inr (REDIR t g m d, ?e)" using t(1) g(1) by simp
  note parse_end(2) [OF e parse_end(1) [OF e x]]
  then show ?thesis using t(2) g(2) by (auto simp: reads_as_def)
qed

lemma reads_BACK:
  assumes IH: "reads_back buf c"
    and wf: "cmd_wf c" and dr: "drop s buf = unparse (BACK c) @ r" and r: "ends r"
    and f: "4 * length (unparse (BACK c)) + 2 \<le> f"
  shows "reads_as buf (Suc (Suc f)) s (BACK c)"
proof -
  have d: "drop s buf = paren (unparse c) @ CHR ''&'' # r" using dr by simp
  let ?m = "s + length (paren (unparse c))"
  have le: "4 * length (unparse c) + 6 \<le> f" using f by (simp add: paren_def)
  obtain t where t: "parseexec f buf s = parseredirs buf t ?m" "map_cmd (slice buf) t = c" "drop ?m buf = CHR ''&'' # r"
    by (rule sub_command [OF IH wf d _ le]) (simp_all add: whitespace_def that)
  have s: "solid (drop ?m buf)" "ch buf ?m = CHR ''&''" using t(3) by (simp_all add: whitespace_def ch_drop)
  have e: "ends (drop (?m + 1) buf)" using drop_ConsD(3) [OF t(3)] r by simp
  have "parsepipe (Suc f) buf s = Inr (t, ?m)" using t(1) s by (simp add: parseredirs_none peek_at)
  moreover have "parse_back buf t ?m = (BACK t, ?m + 1)"
    using s peek_at [OF s(1)] gettoken_symbol [OF t(3)] ends_solid [OF r] parse_back_none [OF ends_solid [OF e]] ch_ends [OF e]
    by (subst parse_back.simps) (auto simp: nul_def)
  ultimately have "parseline (Suc (Suc f)) buf s = Inr (BACK t, ?m + 1)"
    using peek_at [OF ends_solid [OF e]] ch_ends [OF e] by (auto simp: nul_def)
  then show ?thesis using t(2) by (simp add: reads_as_def)
qed

lemma reads_PIPE:
  assumes IH: "reads_back buf l" "reads_back buf r" and wf: "cmd_wf l" "cmd_wf r"
    and dr: "drop s buf = unparse (PIPE l r) @ r'" and r': "ends r'" and f: "4 * length (unparse (PIPE l r)) + 1 \<le> f"
  shows "reads_as buf (Suc (Suc (Suc f))) s (PIPE l r)"
proof -
  have d: "drop s buf = paren (unparse l) @ CHR ''|'' # paren (unparse r) @ r'" using dr by simp
  let ?m = "s + length (paren (unparse l))"
  have le: "4 * length (unparse l) + 6 \<le> Suc f" "4 * length (unparse r) + 6 \<le> f" using f by (simp_all add: paren_def)
  obtain t where t: "parseexec (Suc f) buf s = parseredirs buf t ?m" "map_cmd (slice buf) t = l"
    "drop ?m buf = CHR ''|'' # paren (unparse r) @ r'"
    by (rule sub_command [OF IH(1) wf(1) d _ le(1)]) (simp_all add: whitespace_def that)
  have d2: "drop (?m + 1) buf = paren (unparse r) @ r'" using drop_ConsD(3) [OF t(3)] by simp
  let ?e = "?m + 1 + length (paren (unparse r))"
  obtain u where u: "parseexec f buf (?m + 1) = parseredirs buf u ?e" "map_cmd (slice buf) u = r" "drop ?e buf = r'"
    by (rule sub_command [OF IH(2) wf(2) d2 ends_solid [OF r'] le(2)], rule that)
  have e: "ends (drop ?e buf)" using u(3) r' by simp
  have x: "parseexec f buf (?m + 1) = Inr (u, ?e)" by (rule trans [OF u(1) parse_end(3) [OF e]])
  note q = parse_end(1) [OF e x]
  have s: "solid (drop ?m buf)" "ch buf ?m = CHR ''|''" using t(3) by (simp_all add: whitespace_def ch_drop)
  have g: "gettoken buf ?m = (CHR ''|'', ?m, ?m + 1, ?m + 1)"
    by (rule gettoken_symbol [OF t(3)]) (simp_all add: paren_def whitespace_def)
  have "parsepipe (Suc (Suc f)) buf s = Inr (PIPE t u, ?e)"
    using t(1) q g s by (subst parsepipe.simps) (simp add: parseredirs_none peek_at nul_def del: parsepipe.simps parseexec.simps)
  from parse_end(2) [OF e this] show ?thesis using t(2) u(2) by (simp add: reads_as_def)
qed

lemma reads_LIST:
  assumes IH: "reads_back buf l" "reads_back buf r" and wf: "cmd_wf l" "cmd_wf r"
    and dr: "drop s buf = unparse (LIST l r) @ r'" and r': "ends r'" and f: "4 * length (unparse (LIST l r)) + 1 \<le> f"
  shows "reads_as buf (Suc (Suc (Suc f))) s (LIST l r)"
proof -
  have d: "drop s buf = paren (unparse l) @ CHR '';'' # paren (unparse r) @ r'" using dr by simp
  let ?m = "s + length (paren (unparse l))"
  have le: "4 * length (unparse l) + 6 \<le> Suc f" "4 * length (unparse r) + 6 \<le> f" using f by (simp_all add: paren_def)
  obtain t where t: "parseexec (Suc f) buf s = parseredirs buf t ?m" "map_cmd (slice buf) t = l"
    "drop ?m buf = CHR '';'' # paren (unparse r) @ r'"
    by (rule sub_command [OF IH(1) wf(1) d _ le(1)]) (simp_all add: whitespace_def that)
  have d2: "drop (?m + 1) buf = paren (unparse r) @ r'" using drop_ConsD(3) [OF t(3)] by simp
  let ?e = "?m + 1 + length (paren (unparse r))"
  obtain u where u: "parseexec f buf (?m + 1) = parseredirs buf u ?e" "map_cmd (slice buf) u = r" "drop ?e buf = r'"
    by (rule sub_command [OF IH(2) wf(2) d2 ends_solid [OF r'] le(2)], rule that)
  have e: "ends (drop ?e buf)" using u(3) r' by simp
  have x: "parseexec f buf (?m + 1) = Inr (u, ?e)" by (rule trans [OF u(1) parse_end(3) [OF e]])
  note q = parse_end(2) [OF e parse_end(1) [OF e x]]
  have s: "solid (drop ?m buf)" "ch buf ?m = CHR '';''" using t(3) by (simp_all add: whitespace_def ch_drop)
  have p: "parsepipe (Suc (Suc f)) buf s = Inr (t, ?m)" using t(1) s by (subst parsepipe.simps) (simp add: parseredirs_none peek_at del: parseexec.simps)
  have g: "gettoken buf ?m = (CHR '';'', ?m, ?m + 1, ?m + 1)"
    by (rule gettoken_symbol [OF t(3)]) (simp_all add: paren_def whitespace_def)
  have "parseline (Suc (Suc (Suc f))) buf s = Inr (LIST t u, ?e)"
    using p g q s by (subst parseline.simps) (simp add: parse_back_none peek_at nul_def del: parseline.simps parsepipe.simps)
  then show ?thesis using t(2) u(2) by (simp add: reads_as_def)
qed

lemma fuel_step: "3 \<le> f \<Longrightarrow> Suc (Suc (Suc (f - 3))) = f" "2 \<le> f \<Longrightarrow> Suc (Suc (f - 2)) = f"
  by simp_all

lemma unparse_reads_back: "cmd_wf c \<Longrightarrow> reads_back buf c"
proof (induction c)
  case (EXEC ws)
  have "reads_as buf f s (EXEC ws)" if "drop s buf = unparse (EXEC ws) @ r" "ends r" "4 \<le> f" for s r f
    using reads_EXEC [OF EXEC that(1,2), of "f - 3"] that(3) by (simp add: fuel_step)
  then show ?case by (auto simp: reads_back_def)
next
  case (REDIR c w m d)
  have "reads_as buf f s (REDIR c w m d)" if "drop s buf = unparse (REDIR c w m d) @ r" "ends r"
    "4 * length (unparse (REDIR c w m d)) + 4 \<le> f" for s r f
    using reads_REDIR [OF _ REDIR.prems that(1,2), of "f - 2"] REDIR that(3) by (simp add: fuel_step del: unparse.simps)
  then show ?case by (auto simp: reads_back_def simp del: unparse.simps)
next
  case (PIPE l r)
  have "reads_as buf f s (PIPE l r)" if "drop s buf = unparse (PIPE l r) @ r'" "ends r'"
    "4 * length (unparse (PIPE l r)) + 4 \<le> f" for s r' f
    using reads_PIPE [OF _ _ _ _ that(1,2), of "f - 3"] PIPE that(3) by (simp add: fuel_step del: unparse.simps)
  then show ?case by (auto simp: reads_back_def simp del: unparse.simps)
next
  case (LIST l r)
  have "reads_as buf f s (LIST l r)" if "drop s buf = unparse (LIST l r) @ r'" "ends r'"
    "4 * length (unparse (LIST l r)) + 4 \<le> f" for s r' f
    using reads_LIST [OF _ _ _ _ that(1,2), of "f - 3"] LIST that(3) by (simp add: fuel_step del: unparse.simps)
  then show ?case by (auto simp: reads_back_def simp del: unparse.simps)
next
  case (BACK c)
  have "reads_as buf f s (BACK c)" if "drop s buf = unparse (BACK c) @ r" "ends r"
    "4 * length (unparse (BACK c)) + 4 \<le> f" for s r f
    using reads_BACK [OF _ _ that(1,2), of "f - 2"] BACK that(3) by (simp add: fuel_step del: unparse.simps)
  then show ?case by (auto simp: reads_back_def simp del: unparse.simps)
qed

lemma unparse_no_nul: "cmd_wf c \<Longrightarrow> nul \<notin> set (unparse c)"
  by (induction c) (auto simp: is_word_def paren_def redir_op_def nul_def)

lemma parsecmd_printed:
  assumes wf: "cmd_wf c"
  obtains t where "parsecmd (unparse c) = Inr (t, nulterminate t (unparse c @ [nul]))" and "map_cmd (slice (unparse c)) t = c"
    and "cmd_ok (unparse c) t"
proof -
  let ?u = "unparse c"
  have "reads_as ?u (4 * length ?u + 4) 0 c" using unparse_reads_back [OF wf, of ?u] by (auto simp: reads_back_def)
  then obtain t where t: "parseline (4 * length ?u + 4) ?u 0 = Inr (t, length ?u)" "map_cmd (slice ?u) t = c"
    by (auto simp: reads_as_def)
  have "parsed ?u 0 (parseline (4 * length ?u + 4) ?u 0)" by (rule parseline_parsed) simp_all
  then show ?thesis using t by (intro that [of t]) (simp_all add: parsecmd_def peek_at)
qed

text \<open>
  C11. Parsing inverts printing: for every command whose words are not empty and have no blanks, symbols or nuls,
  whose argument lists fit in \<^verbatim>\<open>MAXARGS\<close> and whose redirections have one of the three modes, \<^verbatim>\<open>parsecmd\<close> of its
  line returns that command, with each pointer denoting its word after \<^verbatim>\<open>nulterminate\<close>.
\<close>

theorem parsecmd_unparse:
  assumes wf: "cmd_wf c"
  shows "\<exists>t b. parsecmd (unparse c) = Inr (t, b) \<and> map_cmd (str_at b) t = c"
proof -
  obtain t where t: "parsecmd (unparse c) = Inr (t, nulterminate t (unparse c @ [nul]))" "map_cmd (slice (unparse c)) t = c"
    "cmd_ok (unparse c) t" by (rule parsecmd_printed [OF wf], rule that)
  have "map_cmd (str_at (nulterminate t (unparse c @ [nul]))) t = map_cmd (slice (unparse c)) t"
    by (rule cmd.map_cong [OF refl]) (rule str_at_slice [OF unparse_no_nul [OF wf] t(3)])
  then show ?thesis using t(1,2) by simp
qed

theorem parsecmd_unparse_witness:
  "\<exists>t b. parsecmd ''(ls -l )|((wc )>out)'' = Inr (t, b) \<and>
    map_cmd (str_at b) t = PIPE (EXEC [''ls'', ''-l'']) (REDIR (EXEC [''wc'']) ''out'' 0x601 1)"
proof -
  let ?c = "PIPE (EXEC [''ls'', ''-l'']) (REDIR (EXEC [''wc'']) ''out'' 0x601 1)"
  have "cmd_wf ?c" by (simp add: is_word_def word_char_def whitespace_def symbols_def nul_def MAXARGS_def redir_modes_def)
  moreover have "unparse ?c = ''(ls -l )|((wc )>out)''" by (simp add: paren_def redir_op_def)
  ultimately show ?thesis using parsecmd_unparse [of ?c] by simp
qed

theorem parsecmd_words_witness:
  "\<exists>t b. parsecmd ''(ls )&'' = Inr (t, b) \<and> cmd_ok ''(ls )&'' t \<and> (\<forall>tok \<in> set_cmd t. str_at b tok = slice ''(ls )&'' tok)"
proof -
  let ?c = "BACK (EXEC [''ls''])"
  have wf: "cmd_wf ?c" by (simp add: is_word_def word_char_def whitespace_def symbols_def nul_def MAXARGS_def)
  obtain t where t: "parsecmd (unparse ?c) = Inr (t, nulterminate t (unparse ?c @ [nul]))" by (rule parsecmd_printed [OF wf])
  have u: "unparse ?c = ''(ls )&''" by (simp add: paren_def)
  have "nul \<notin> set (unparse ?c)" by (rule unparse_no_nul [OF wf])
  from parsecmd_words [OF this t] t show ?thesis unfolding u by blast
qed

end
