(* ===== verification/Shell_Run.thy ===== *)
theory Shell_Run
  imports Shell
begin

section \<open>Running a command\<close>

text \<open>
  \<^verbatim>\<open>runcmd\<close> of \<^verbatim>\<open>user/sh.c\<close> as the tree of the system calls that a process makes. Where the code looks at the
  result of a call, the rest of the program is a function of it; \<^verbatim>\<open>exec\<close> goes on only when it fails.
\<close>

datatype prog =
    Exit int
  | Exec "string list" prog
  | Close nat prog
  | Open string nat "int \<Rightarrow> prog"
  | Dup nat prog
  | Pipe "(nat \<times> nat) option \<Rightarrow> prog"
  | Fork "int \<Rightarrow> prog"
  | Wait prog
  | Print string prog

definition sh_panic :: "string \<Rightarrow> prog" where
  "sh_panic s = Print (s @ [nl]) (Exit 1)"

definition fork1 :: "(int \<Rightarrow> prog) \<Rightarrow> prog" where
  "fork1 k = Fork (\<lambda>pid. if pid = -1 then sh_panic ''fork'' else k pid)"

primrec runcmd :: "string cmd \<Rightarrow> prog" where
  "runcmd (EXEC argv) =
     (case argv of
        [] \<Rightarrow> Exit 1
      | a # _ \<Rightarrow> Exec argv (Print (''exec '' @ a @ '' failed'' @ [nl]) (Exit 0)))"
| "runcmd (REDIR c file mode fd) =
     Close fd (Open file mode (\<lambda>r.
     if r < 0 then Print (''open '' @ file @ '' failed'' @ [nl]) (Exit 1) else runcmd c))"
| "runcmd (LIST l r) = fork1 (\<lambda>pid. if pid = 0 then runcmd l else Wait (runcmd r))"
| "runcmd (PIPE l r) =
     Pipe (\<lambda>p. case p of None \<Rightarrow> sh_panic ''pipe'' | Some (p0, p1) \<Rightarrow>
       fork1 (\<lambda>pid. if pid = 0 then Close 1 (Dup p1 (Close p0 (Close p1 (runcmd l))))
       else fork1 (\<lambda>pid. if pid = 0 then Close 0 (Dup p0 (Close p0 (Close p1 (runcmd r))))
       else Close p0 (Close p1 (Wait (Wait (Exit 0)))))))"
| "runcmd (BACK c) = fork1 (\<lambda>pid. if pid = 0 then runcmd c else Exit 0)"

subsection \<open>File descriptors\<close>

text \<open>
  What the calls do to the table of open files, with the result of each call given: \<^verbatim>\<open>dup\<close>, \<^verbatim>\<open>open\<close> and \<^verbatim>\<open>pipe\<close> take the
  lowest free descriptor, as \<^verbatim>\<open>fdalloc\<close> of the kernel does.
\<close>

datatype opened = Other nat | Named string nat | ReadEnd | WriteEnd

type_synonym fdtable = "nat \<Rightarrow> opened option"

definition lowest :: "fdtable \<Rightarrow> nat option" where
  "lowest t = find (\<lambda>d. t d = None) [0..<NOFILE]"

fun follow :: "int list \<Rightarrow> fdtable \<Rightarrow> prog \<Rightarrow> fdtable \<times> prog" where
  "follow [] t q = (t, q)"
| "follow (v # vs) t (Exit n) = (t, Exit n)"
| "follow (v # vs) t (Exec argv k) = follow vs t k"
| "follow (v # vs) t (Close d k) = follow vs (t(d := None)) k"
| "follow (v # vs) t (Open f m k) =
     (case lowest t of
        Some d \<Rightarrow> if v < 0 then follow vs t (k v) else follow vs (t(d := Some (Named f m))) (k (int d))
      | None \<Rightarrow> follow vs t (k (-1)))"
| "follow (v # vs) t (Dup d k) =
     (case (t d, lowest t) of (Some f, Some e) \<Rightarrow> follow vs (t(e := Some f)) k | _ \<Rightarrow> follow vs t k)"
| "follow (v # vs) t (Pipe k) =
     (case lowest t of
        Some a \<Rightarrow>
          (case lowest (t(a := Some ReadEnd)) of
             Some b \<Rightarrow> follow vs (t(a := Some ReadEnd, b := Some WriteEnd)) (k (Some (a, b)))
           | None \<Rightarrow> follow vs t (k None))
      | None \<Rightarrow> follow vs t (k None))"
| "follow (v # vs) t (Fork k) = follow vs t (k v)"
| "follow (v # vs) t (Wait k) = follow vs t k"
| "follow (v # vs) t (Print s k) = follow vs t k"

lemma lowest_Some: "lowest t = Some d \<longleftrightarrow> d < NOFILE \<and> t d = None \<and> (\<forall>i < d. t i \<noteq> None)"
  by (auto simp: lowest_def find_Some_iff)

lemma lowestI: "d < NOFILE \<Longrightarrow> t d = None \<Longrightarrow> \<forall>i < d. t i \<noteq> None \<Longrightarrow> lowest t = Some d"
  by (simp add: lowest_Some)

text \<open>
  C39. The descriptors of a pipeline. When descriptors 0 and 1 are open and two more are free, the command on the left of
  a pipe starts with its standard output replaced by the write end and everything else as before, the command on the right
  with its standard input replaced by the read end, and the parent waits with the table it had: no process keeps an end
  of the pipe that it does not use, so the reader sees the end of the file when the writer exits.
\<close>

theorem runcmd_pipe_ends:
  assumes io: "t 0 \<noteq> None" "t 1 \<noteq> None" and a: "lowest t = Some a" and b: "lowest (t(a := Some ReadEnd)) = Some b"
    and pid: "0 < pid" "0 < pid'"
  shows "follow [0, 0, 0, 0, 0, 0] t (runcmd (PIPE l r)) = (t(1 := Some WriteEnd), runcmd l) \<and>
    follow [0, pid, 0, 0, 0, 0, 0] t (runcmd (PIPE l r)) = (t(0 := Some ReadEnd), runcmd r) \<and>
    follow [0, pid, pid', 0, 0] t (runcmd (PIPE l r)) = (t, Wait (Wait (Exit 0)))"
proof -
  have ab: "t a = None" "t b = None" "b \<noteq> a" using a b by (auto simp: lowest_Some split: if_splits)
  have hi: "a \<noteq> 0" "a \<noteq> 1" "b \<noteq> 0" "b \<noteq> 1" using ab io by metis+
  let ?t = "t(a := Some ReadEnd, b := Some WriteEnd)"
  have l1: "lowest (?t(1 := None)) = Some 1" using hi io by (intro lowestI) (auto simp: NOFILE_def less_Suc_eq)
  have l0: "lowest (?t(0 := None)) = Some 0" by (intro lowestI) (simp_all add: NOFILE_def)
  have e: "?t(1 := None, 1 := Some WriteEnd, a := None, b := None) = t(1 := Some WriteEnd)"
    "?t(0 := None, 0 := Some ReadEnd, a := None, b := None) = t(0 := Some ReadEnd)" "?t(a := None, b := None) = t"
    using hi ab by (auto simp: fun_eq_iff)
  show ?thesis using a b l0 l1 hi ab pid e by (simp add: fork1_def)
qed

theorem runcmd_pipe_ends_witness:
  "follow [0, 0, 0, 0, 0, 0] (\<lambda>d. if d < 3 then Some (Other d) else None) (runcmd (PIPE (EXEC [''ls'']) (EXEC [''wc'']))) =
    (\<lambda>d. if d = 1 then Some WriteEnd else if d < 3 then Some (Other d) else None,
     Exec [''ls''] (Print (''exec ls failed'' @ [nl]) (Exit 0)))"
proof -
  let ?t = "\<lambda>d::nat. if d < 3 then Some (Other d) else None"
  have "lowest ?t = Some 3" "lowest (?t(3 := Some ReadEnd)) = Some 4"
    by (auto intro!: lowestI simp: NOFILE_def)
  from runcmd_pipe_ends [OF _ _ this, of 1 1 "EXEC [''ls'']" "EXEC [''wc'']"] show ?thesis by (auto simp: fun_upd_def)
qed

subsection \<open>The command loop\<close>

text \<open>
  \<^verbatim>\<open>getcmd\<close>: \<open>None\<close> at the end of the input. The prompt goes to descriptor 2, whose \<^verbatim>\<open>write\<close> is \<open>wr\<close>, one character at a time. The buffer is
  cleared first, so its string ends at the first nul.
\<close>

definition getcmd :: "'r reader \<Rightarrow> (string \<Rightarrow> 'w \<Rightarrow> int \<times> 'w) \<Rightarrow> int \<Rightarrow> 'r \<Rightarrow> 'w \<Rightarrow> (string \<times> 'r) option \<times> 'w" where
  "getcmd rd wr nbuf r w =
     (let w = fold (\<lambda>c w. snd (wr [c] w)) ''$ '' w; (buf, r) = gets rd 0 nbuf r; str = takeWhile (\<lambda>c. c \<noteq> nul) buf in
      (if str = [] then None else Some (str, r), w))"

datatype sh_action = Chdir string | Run "(unit, token cmd \<times> string) res" | Done

text \<open>One turn of the loop of \<^verbatim>\<open>main\<close>: \<^verbatim>\<open>cd\<close> is run by the shell itself, on the line without its last character.\<close>

definition sh_turn :: "'r reader \<Rightarrow> (string \<Rightarrow> 'w \<Rightarrow> int \<times> 'w) \<Rightarrow> 'r \<Rightarrow> 'w \<Rightarrow> sh_action \<times> 'r option \<times> 'w" where
  "sh_turn rd wr r w =
     (case getcmd rd wr 100 r w of
        (None, w) \<Rightarrow> (Done, None, w)
      | (Some (buf, r), w) \<Rightarrow>
          if take 3 buf = ''cd '' then (Chdir (drop 3 (butlast buf)), Some r, w) else (Run (parsecmd buf), Some r, w))"

end
