(* ===== verification/Umalloc.thy ===== *)
theory Umalloc
  imports User_Lib
begin

section \<open>The user memory allocator\<close>

text \<open>
  \<^verbatim>\<open>user/umalloc.c\<close>, the allocator of Kernighan and Ritchie. Free blocks form a circular list in address order that
  starts at the static header \<^verbatim>\<open>base\<close>. A header is 16 bytes; sizes count headers. \<^verbatim>\<open>sbrk\<close> is a parameter.
\<close>

subsection \<open>The code\<close>

record uheap =
  hptr :: "nat \<Rightarrow> nat"
  hsize :: "nat \<Rightarrow> u32"
  freep :: nat
  ubase :: nat

definition set_hptr :: "nat \<Rightarrow> nat \<Rightarrow> uheap \<Rightarrow> uheap" where
  "set_hptr p q h = h\<lparr>hptr := (hptr h)(p := q)\<rparr>"

definition set_hsize :: "nat \<Rightarrow> u32 \<Rightarrow> uheap \<Rightarrow> uheap" where
  "set_hsize p n h = h\<lparr>hsize := (hsize h)(p := n)\<rparr>"

text \<open>The address after a block: \<^verbatim>\<open>p + p->s.size\<close>.\<close>

definition block_end :: "nat \<Rightarrow> uheap \<Rightarrow> nat" where
  "block_end p h = p + 16 * unat (hsize h p)"

partial_function (option) free_search :: "nat \<Rightarrow> nat \<Rightarrow> uheap \<Rightarrow> nat option" where
  "free_search bp p h =
     (if bp > p \<and> bp < hptr h p then Some p
      else if p \<ge> hptr h p \<and> (bp > p \<or> bp < hptr h p) then Some p
      else free_search bp (hptr h p) h)"

definition free_link :: "nat \<Rightarrow> nat \<Rightarrow> uheap \<Rightarrow> uheap" where
  "free_link bp p h =
     (let q = hptr h p;
          h = (if block_end bp h = q then set_hptr bp (hptr h q) (set_hsize bp (hsize h bp + hsize h q) h)
               else set_hptr bp q h);
          h = (if block_end p h = bp then set_hptr p (hptr h bp) (set_hsize p (hsize h p + hsize h bp) h)
               else set_hptr p bp h)
      in h\<lparr>freep := p\<rparr>)"

definition ufree :: "nat \<Rightarrow> uheap \<Rightarrow> uheap option" where
  "ufree ap h = map_option (\<lambda>p. free_link (ap - 16) p h) (free_search (ap - 16) (freep h) h)"

text \<open>
  \<^verbatim>\<open>sbrk\<close> takes an \<^verbatim>\<open>int\<close>: the 64-bit product is cut to 32 bits. The result of \<^verbatim>\<open>morecore\<close> is 0 when \<^verbatim>\<open>sbrk\<close> fails.
\<close>

type_synonym 'k sbrk = "int \<Rightarrow> 'k \<Rightarrow> int \<times> 'k"

definition morecore :: "'k sbrk \<Rightarrow> u32 \<Rightarrow> uheap \<times> 'k \<Rightarrow> (nat \<times> uheap \<times> 'k) option" where
  "morecore sbrk nu s =
     (let nu = (if nu < 4096 then 4096 else nu);
          (p, k) = sbrk (sint (ucast (ucast nu * 16 :: u64) :: u32)) (snd s)
      in if p = -1 then Some (0, fst s, k)
         else map_option (\<lambda>h. (freep h, h, k)) (ufree (nat p + 16) (set_hsize (nat p) nu (fst s))))"

partial_function (option) malloc_loop ::
    "'k sbrk \<Rightarrow> u32 \<Rightarrow> nat \<Rightarrow> nat \<Rightarrow> uheap \<times> 'k \<Rightarrow> (nat \<times> uheap \<times> 'k) option" where
  "malloc_loop sbrk nunits prevp p s =
     (if hsize (fst s) p \<ge> nunits then
        if hsize (fst s) p = nunits
        then Some (p + 16, (set_hptr prevp (hptr (fst s) p) (fst s))\<lparr>freep := prevp\<rparr>, snd s)
        else
          (let h = set_hsize p (hsize (fst s) p - nunits) (fst s);
               p = block_end p h
           in Some (p + 16, (set_hsize p nunits h)\<lparr>freep := prevp\<rparr>, snd s))
      else if p = freep (fst s) then
        Option.bind (morecore sbrk nunits s) (\<lambda>(p, s).
        if p = 0 then Some (0, s) else malloc_loop sbrk nunits p (hptr (fst s) p) s)
      else malloc_loop sbrk nunits p (hptr (fst s) p) s)"

definition malloc :: "'k sbrk \<Rightarrow> u32 \<Rightarrow> uheap \<times> 'k \<Rightarrow> (nat \<times> uheap \<times> 'k) option" where
  "malloc sbrk nbytes s =
     (let nunits = ucast ((ucast nbytes + 16 - 1) div 16 + 1 :: u64);
          h = fst s;
          h = (if freep h = 0 then set_hsize (ubase h) 0 ((set_hptr (ubase h) (ubase h) h)\<lparr>freep := ubase h\<rparr>) else h)
      in malloc_loop sbrk nunits (freep h) (hptr h (freep h)) (h, snd s))"

subsection \<open>The free list\<close>

text \<open>
  The free list as a list of addresses and sizes, \<open>base\<close> first: linked in this order, the last one back to \<open>e\<close>.
\<close>

fun first_of :: "(nat \<times> nat) list \<Rightarrow> nat \<Rightarrow> nat" where
  "first_of [] e = e"
| "first_of ((a, n) # L) e = a"

fun linked :: "uheap \<Rightarrow> (nat \<times> nat) list \<Rightarrow> nat \<Rightarrow> bool" where
  "linked h [] e \<longleftrightarrow> True"
| "linked h ((a, n) # L) e \<longleftrightarrow> unat (hsize h a) = n \<and> hptr h a = first_of L e \<and> linked h L e"

text \<open>The blocks are in order and neither overlap nor touch.\<close>

fun spaced :: "(nat \<times> nat) list \<Rightarrow> bool" where
  "spaced ((a, n) # (b, m) # L) \<longleftrightarrow> a + 16 * n < b \<and> spaced ((b, m) # L)"
| "spaced _ \<longleftrightarrow> True"

definition free_list :: "uheap \<Rightarrow> (nat \<times> nat) list \<Rightarrow> bool" where
  "free_list h L \<longleftrightarrow> (\<exists>R. L = (ubase h, 0) # R \<and> (\<forall>(a, n) \<in> set R. 0 < n)) \<and> linked h L (ubase h) \<and> spaced L \<and> freep h \<in> fst ` set L"

lemma first_of_append [simp]: "first_of (L @ M) e = first_of L (first_of M e)"
  by (cases L) auto

lemma linked_append: "linked h (L @ M) e \<longleftrightarrow> linked h L (first_of M e) \<and> linked h M e"
  by (induction L) auto

lemma linked_cong:
  "(\<And>a. a \<in> fst ` set L \<Longrightarrow> hptr h a = hptr h' a \<and> hsize h a = hsize h' a) \<Longrightarrow> linked h L e = linked h' L e"
  by (induction L) (auto split: prod.splits)

lemma spaced_append: "spaced (L @ (a, n) # M) \<longleftrightarrow> spaced (L @ [(a, n)]) \<and> spaced ((a, n) # M)"
  by (induction L rule: spaced.induct) auto

lemma spaced_less: "spaced ((a, n) # L) \<Longrightarrow> (b, m) \<in> set L \<Longrightarrow> a + 16 * n < b"
proof (induction L arbitrary: a n)
  case (Cons x L)
  obtain c k where x: "x = (c, k)" by fastforce
  show ?case
  proof (cases "(b, m) = (c, k)")
    case False
    then have "c + 16 * k < b" using Cons by (auto simp: x)
    then show ?thesis using Cons.prems(1) by (simp add: x)
  qed (use Cons.prems(1) x in simp)
qed simp

lemma spaced_appendD:
  assumes "spaced (L @ (a, n) # M)"
  shows "(b, m) \<in> set L \<Longrightarrow> b + 16 * m < a" and "(b, m) \<in> set M \<Longrightarrow> a + 16 * n < b" and "spaced L" and "spaced M"
proof -
  have am: "spaced ((a, n) # M)" using spaced_append [of L a n M] assms by blast
  then show "(b, m) \<in> set M \<Longrightarrow> a + 16 * n < b" by (rule spaced_less)
  show "(b, m) \<in> set L \<Longrightarrow> b + 16 * m < a" using assms
  proof (induction L)
    case (Cons x L)
    obtain c k where x: "x = (c, k)" by fastforce
    have "spaced ((c, k) # L @ (a, n) # M)" using Cons.prems x by simp
    then have "c + 16 * k < a" "spaced (L @ (a, n) # M)" using spaced_less [of c k "L @ (a, n) # M" a n] by (cases L, auto)+
    then show ?case using Cons x by auto
  qed simp
  show "spaced L" using assms by (induction L rule: spaced.induct) auto
  show "spaced M" using am by (cases M) auto
qed

subsection \<open>Freeing a block\<close>

text \<open>The search stops at the last block before \<open>bp\<close>, wherever in the circle it starts.\<close>

lemma free_search_up:
  "linked h (Z @ (a, n) # Y) e \<Longrightarrow> spaced (Z @ (a, n) # Y) \<Longrightarrow> a < bp \<Longrightarrow> (\<forall>(b, m) \<in> set Y. bp < b) \<Longrightarrow>
    e < bp \<Longrightarrow> e \<le> a \<Longrightarrow> free_search bp (first_of Z a) h = Some a"
proof (induction Z)
  case Nil
  then have "hptr h a = first_of Y e" by simp
  then show ?case using Nil.prems by (cases Y) (auto simp: free_search.simps [of bp a])
next
  case (Cons x Z)
  obtain c k where x: "x = (c, k)" by fastforce
  let ?d = "first_of Z a"
  have d: "hptr h c = ?d" using Cons.prems(1) by (simp add: x)
  have sp: "spaced ((c, k) # Z @ (a, n) # Y)" "spaced (Z @ (a, n) # Y)" using Cons.prems(2) by (cases Z, auto simp: x)+
  have "c < ?d" using spaced_less [OF sp(1)] by (cases Z) fastforce+
  moreover have "?d < bp" using spaced_appendD(1) [OF sp(2)] Cons.prems(3) by (cases Z) fastforce+
  ultimately show ?case using d Cons.IH Cons.prems sp(2) x by (simp add: free_search.simps [of bp c])
qed

lemma free_search_round:
  "linked h Y e \<Longrightarrow> spaced Y \<Longrightarrow> (\<forall>(b, m) \<in> set Y. bp < b) \<Longrightarrow> e < bp \<Longrightarrow>
    free_search bp (first_of Y e) h = free_search bp e h"
proof (induction Y)
  case (Cons x Y)
  obtain c k where x: "x = (c, k)" by fastforce
  have d: "hptr h c = first_of Y e" using Cons.prems(1) by (simp add: x)
  have "spaced Y" using Cons.prems(2) by (cases Y) (auto simp: x)
  moreover have "Y \<noteq> [] \<Longrightarrow> c < first_of Y e" using spaced_less [of c k Y] Cons.prems(2) by (cases Y) (auto simp: x)
  moreover have "bp < c" using Cons.prems(3) by (simp add: x)
  ultimately show ?case using d Cons x by (cases Y) (auto simp: free_search.simps [of bp c])
qed simp

lemma linked_suffix: "linked h (X @ Y) e \<Longrightarrow> linked h Y e"
  by (simp add: linked_append)

lemma free_search_ok:
  assumes l: "linked h (X @ (a, n) # Y) e" and sp: "spaced (X @ (a, n) # Y)" and e: "first_of X a = e"
    and bp: "a < bp" "\<forall>(b, m) \<in> set Y. bp < b" and p: "p \<in> fst ` set (X @ (a, n) # Y)"
  shows "free_search bp p h = Some a"
proof -
  have ea: "e \<le> a" using e spaced_appendD(1) [OF sp] by (cases X) fastforce+
  then have eb: "e < bp" using bp(1) by simp
  have up: "free_search bp (first_of Z a) h = Some a" if "X = W @ Z" for W Z
  proof (rule free_search_up [OF _ _ bp eb ea])
    show "linked h (Z @ (a, n) # Y) e" using l linked_suffix [of h W "Z @ (a, n) # Y"] that by simp
    show "spaced (Z @ (a, n) # Y)"
    proof (cases Z)
      case (Cons z Z')
      then show ?thesis using spaced_append [of W "fst z" "snd z" "Z' @ (a, n) # Y"] sp that by simp
    qed (use sp spaced_append [of X a n Y] in auto)
  qed
  from p consider W Z k where "X = W @ (p, k) # Z" | "p = a" | W Z k where "Y = W @ (p, k) # Z"
    by (auto dest!: split_list)
  then show ?thesis
  proof cases
    case (1 W Z k)
    then show ?thesis using up [of W "(p, k) # Z"] by simp
  next
    case 2
    then show ?thesis using up [of X "[]"] by simp
  next
    case (3 W Z k)
    have "spaced Y" using spaced_appendD(4) [OF sp] .
    then have "spaced ((p, k) # Z)" using spaced_append [of W p k Z] 3 by blast
    moreover have "linked h ((p, k) # Z) e" using linked_suffix [of h "X @ (a, n) # W" "(p, k) # Z" e] l 3 by simp
    ultimately have "free_search bp p h = free_search bp e h"
      using free_search_round [of h "(p, k) # Z" e bp] bp(2) eb 3 by simp
    then show ?thesis using up [of "[]" X] e by simp
  qed
qed

text \<open>Joining a block with the one after it and with the one before it.\<close>

fun join_next :: "nat \<Rightarrow> nat \<Rightarrow> (nat \<times> nat) list \<Rightarrow> (nat \<times> nat) list" where
  "join_next bp n ((q, m) # L) = (if bp + 16 * n = q then (bp, n + m) # L else (bp, n) # (q, m) # L)"
| "join_next bp n [] = [(bp, n)]"

definition insert_block :: "nat \<Rightarrow> nat \<Rightarrow> (nat \<times> nat) list \<Rightarrow> (nat \<times> nat) list" where
  "insert_block bp n L =
     (let X = takeWhile (\<lambda>(a, _). a < bp) L; Y = dropWhile (\<lambda>(a, _). a < bp) L
      in butlast X @ (case last X of (a, k) \<Rightarrow> join_next a k (join_next bp n Y)))"

definition units :: "(nat \<times> nat) list \<Rightarrow> nat" where
  "units L = sum_list (map snd L)"

lemma units_simps [simp]: "units [] = 0" "units ((a, n) # L) = n + units L" "units (L @ M) = units L + units M"
  by (simp_all add: units_def)

lemma units_join [simp]: "units (join_next bp n L) = n + units L"
  by (cases L) auto

lemma first_of_join [simp]: "first_of (join_next bp n L) e = bp"
  by (cases L) auto

lemma unat_add_u32: "unat (a :: u32) + unat b < 2 ^ 32 \<Longrightarrow> unat (a + b) = unat a + unat b"
  by (rule unat_plus_le) simp

text \<open>One of the two steps of \<^verbatim>\<open>free\<close>: block \<open>b\<close>, which is not in the list \<open>Y\<close>, is put in front of it.\<close>

definition link_step :: "nat \<Rightarrow> nat \<Rightarrow> uheap \<Rightarrow> uheap" where
  "link_step b q h =
     (if block_end b h = q then set_hptr b (hptr h q) (set_hsize b (hsize h b + hsize h q) h) else set_hptr b q h)"

lemma free_link_steps: "free_link bp p h = (link_step p bp (link_step bp (hptr h p) h))\<lparr>freep := p\<rparr>"
  by (simp add: free_link_def link_step_def Let_def)

lemma link_step_other:
  "x \<noteq> b \<Longrightarrow> hptr (link_step b q h) x = hptr h x \<and> hsize (link_step b q h) x = hsize h x" "ubase (link_step b q h) = ubase h"
  by (simp_all add: link_step_def set_hptr_def set_hsize_def)

lemma link_step_ok:
  assumes l: "linked h Y e" and b: "b \<notin> fst ` set Y" and n: "unat (hsize h b) = n" and ne: "Y = [] \<Longrightarrow> b + 16 * n \<noteq> e"
    and room: "n + units Y < 2 ^ 32"
  shows "linked (link_step b (first_of Y e) h) (join_next b n Y) e"
proof (cases Y)
  case Nil
  then show ?thesis using ne n by (simp add: link_step_def block_end_def set_hptr_def)
next
  case (Cons y Y')
  obtain q m where y: "y = (q, m)" by fastforce
  have q: "unat (hsize h q) = m" "hptr h q = first_of Y' e" "linked h Y' e" using l by (simp_all add: Cons y)
  have "linked (link_step b q h) Z e \<longleftrightarrow> linked h Z e" if "b \<notin> fst ` set Z" for Z
    using that by (intro linked_cong) (metis link_step_other(1))
  moreover have "unat (hsize h b + hsize h q) = n + m" using room n q(1) by (simp add: unat_add_u32 Cons y)
  ultimately show ?thesis
    using b n q by (simp add: Cons y) (simp add: link_step_def block_end_def set_hptr_def set_hsize_def)
qed

lemma join_next_addrs: "fst ` set (join_next b n Y) \<subseteq> insert b (fst ` set Y)"
proof (cases Y)
  case (Cons y Y')
  then show ?thesis by (cases y) (auto split: if_splits)
qed simp

lemma join_next_spaced:
  assumes "spaced Y" and "\<forall>(c, m) \<in> set Y. b + 16 * n \<le> c"
  shows "spaced (join_next b n Y)"
proof (cases Y)
  case (Cons y Y')
  obtain q m where y: "y = (q, m)" by fastforce
  then show ?thesis using assms by (cases Y') (auto simp: Cons)
qed simp

lemma spaced_pair: "spaced (x # (b, m) # L) \<longleftrightarrow> fst x + 16 * snd x < b \<and> spaced ((b, m) # L)"
  by (cases x) simp

lemma spaced_front: "spaced (X @ [(a, n)]) \<Longrightarrow> spaced ((a, m) # Z) \<Longrightarrow> spaced (X @ (a, m) # Z)"
proof -
  have "spaced (X @ [(a, n)]) = spaced (X @ [(a, m)])" by (induction X rule: spaced.induct) (simp_all add: spaced_pair)
  then show "spaced (X @ [(a, n)]) \<Longrightarrow> spaced ((a, m) # Z) \<Longrightarrow> spaced (X @ (a, m) # Z)"
    using spaced_append [of X a m Z] by blast
qed

text \<open>The place of a block in the list, and what \<^verbatim>\<open>free\<close> makes of the list there.\<close>

lemma insert_block_eq:
  assumes "\<forall>(c, m) \<in> set X. c < bp" and "a < bp" and "\<forall>(c, m) \<in> set Y. bp < c"
  shows "insert_block bp n (X @ (a, k) # Y) = X @ join_next a k (join_next bp n Y)"
proof -
  have "takeWhile (\<lambda>(a, _). a < bp) (X @ (a, k) # Y) = X @ [(a, k)]"
    using assms by (induction X) (cases Y, auto)
  moreover have "dropWhile (\<lambda>(a, _). a < bp) (X @ (a, k) # Y) = Y"
    using assms by (induction X) (cases Y, auto)
  ultimately show ?thesis by (simp add: insert_block_def)
qed

lemma place_of:
  assumes "spaced ((e, k) # L)" and "e < bp" and "bp \<notin> fst ` set L"
  obtains X a n Y where "(e, k) # L = X @ (a, n) # Y" and "\<forall>(c, m) \<in> set X. c < bp" and "a < bp" and "\<forall>(c, m) \<in> set Y. bp < c"
proof -
  let ?P = "\<lambda>(c, _). c < bp"
  have "takeWhile ?P ((e, k) # L) \<noteq> []" using assms(2) by simp
  then obtain X a n where t: "takeWhile ?P ((e, k) # L) = X @ [(a, n)]" by (metis rev_exhaust surj_pair)
  let ?Y = "dropWhile ?P ((e, k) # L)"
  have eq: "(e, k) # L = X @ (a, n) # ?Y" using takeWhile_dropWhile_id [of ?P "(e, k) # L"] t by simp
  have "\<forall>x \<in> set (X @ [(a, n)]). ?P x" using set_takeWhileD [of _ ?P "(e, k) # L"] t by metis
  moreover have "bp < c" if c: "(c, m) \<in> set ?Y" for c m
  proof (cases ?Y)
    case (Cons y Z)
    have "\<not> ?P y" using hd_dropWhile [of ?P "(e, k) # L"] Cons by (metis list.distinct(1) list.sel(1))
    moreover have "y \<in> set L" using Cons set_dropWhileD [of y ?P L] assms(2) by (metis (no_types, lifting) case_prodI dropWhile.simps(2) list.set_intros(1))
    ultimately have "bp < fst y" using assms(3) by (cases y) (metis case_prodI fst_conv image_eqI linorder_neqE_nat)
    moreover have "spaced (y # Z)" using spaced_appendD(4) [of X a n ?Y] assms(1) eq Cons by simp
    ultimately show ?thesis using spaced_less [of "fst y" "snd y" Z c m] c Cons by (cases y) auto
  qed (use c in simp)
  ultimately show ?thesis using that [OF eq] by auto
qed

definition bytes :: "(nat \<times> nat) list \<Rightarrow> nat set" where
  "bytes L = (\<Union>(a, n) \<in> set L. {a..<a + 16 * n})"

lemma bytes_simps [simp]: "bytes [] = {}" "bytes ((a, n) # L) = {a..<a + 16 * n} \<union> bytes L" "bytes (L @ M) = bytes L \<union> bytes M"
  by (auto simp: bytes_def)

lemma bytes_join [simp]: "bytes (join_next b n L) = {b..<b + 16 * n} \<union> bytes L"
proof (cases L)
  case (Cons y L')
  then show ?thesis by (cases y) auto
qed simp

lemma join_next_pos: "0 < n \<Longrightarrow> \<forall>(c, m) \<in> set Y. 0 < m \<Longrightarrow> \<forall>(c, m) \<in> set (join_next b n Y). 0 < m"
  by (cases Y) (auto split: if_splits)

lemma join_next_head: "\<exists>k' Z. join_next a k Y = (a, k') # Z"
  by (cases Y) auto

text \<open>A block that is put back: it lies above \<open>base\<close>, is not empty and overlaps no free block.\<close>

definition returnable :: "nat \<Rightarrow> nat \<Rightarrow> uheap \<Rightarrow> (nat \<times> nat) list \<Rightarrow> bool" where
  "returnable bp n h L \<longleftrightarrow> unat (hsize h bp) = n \<and> 0 < n \<and> ubase h < bp \<and> units L + n < 2 ^ 32 \<and>
     (\<forall>(c, m) \<in> set L. c + 16 * m \<le> bp \<or> bp + 16 * n \<le> c)"

lemma free_link_ok:
  assumes l: "linked h (X @ (a, k) # Y) e" and sp: "spaced (X @ (a, k) # Y)" and bp: "a + 16 * k \<le> bp" "a < bp" "e < bp"
    and n: "unat (hsize h bp) = n" and Y: "\<forall>(c, m) \<in> set Y. bp + 16 * n \<le> c \<and> bp < c" and X: "\<forall>(c, m) \<in> set X. c < bp"
    and room: "n + k + units Y < 2 ^ 32"
  shows "linked (free_link bp a h) (X @ join_next a k (join_next bp n Y)) e"
    and "spaced (X @ join_next a k (join_next bp n Y))"
proof -
  have la: "unat (hsize h a) = k" "hptr h a = first_of Y e" "linked h Y e" "linked h X a" using l by (simp_all add: linked_append)
  let ?h1 = "link_step bp (first_of Y e) h" and ?Z = "join_next bp n Y"
  let ?h2 = "link_step a bp ?h1"
  have bpY: "bp \<notin> fst ` set Y" using Y by auto
  have z: "linked ?h1 ?Z e" by (rule link_step_ok [OF la(3) bpY n]) (use bp room in simp_all)
  have aY: "a \<notin> fst ` set Y" using spaced_appendD(2) [OF sp] by fastforce
  then have aZ: "a \<notin> fst ` set ?Z" using join_next_addrs [of bp n Y] bp(2) by auto
  have "unat (hsize ?h1 a) = k" using la(1) link_step_other(1) [of a bp] bp(2) by simp
  then have "linked (link_step a (first_of ?Z e) ?h1) (join_next a k ?Z) e"
    by (rule link_step_ok [OF z aZ]) (use room join_next_head [of bp n Y] in auto)
  then have j: "linked ?h2 (join_next a k ?Z) e" by simp
  have "a \<notin> fst ` set X" "bp \<notin> fst ` set X" using spaced_appendD(1) [OF sp] X by fastforce+
  then have "linked ?h2 X a = linked h X a" by (intro linked_cong) (metis link_step_other(1))
  then have "linked ?h2 (X @ join_next a k ?Z) e" using j la(4) by (simp add: linked_append)
  then show "linked (free_link bp a h) (X @ join_next a k ?Z) e"
    unfolding free_link_steps la(2) by (rule linked_cong [THEN iffD1, rotated]) simp
  have "spaced ?Z" by (rule join_next_spaced) (use spaced_appendD(4) [OF sp] Y in auto)
  moreover have "\<forall>(c, m) \<in> set ?Z. a + 16 * k \<le> c"
  proof -
    have "\<forall>c \<in> fst ` set ?Z. a + 16 * k \<le> c" using join_next_addrs [of bp n Y] bp(1) spaced_appendD(2) [OF sp] by fastforce
    then show ?thesis by force
  qed
  ultimately have "spaced (join_next a k ?Z)" by (rule join_next_spaced)
  moreover have "spaced (X @ [(a, k)])" using spaced_append [of X a k Y] sp by blast
  ultimately show "spaced (X @ join_next a k ?Z)" using join_next_head [of a k ?Z] spaced_front by metis
qed

lemma ufree_ok:
  assumes fl: "free_list h L" and r: "returnable bp n h L"
  obtains h' where "ufree (bp + 16) h = Some h'" and "free_list h' (insert_block bp n L)" and "ubase h' = ubase h"
proof -
  let ?e = "ubase h"
  obtain R where L: "L = (?e, 0) # R" "\<forall>(c, m) \<in> set R. 0 < m" and li: "linked h L ?e" "spaced L" "freep h \<in> fst ` set L"
    using fl unfolding free_list_def by blast
  have rt: "unat (hsize h bp) = n" "0 < n" "?e < bp" "units L + n < 2 ^ 32" "\<forall>(c, m) \<in> set L. c + 16 * m \<le> bp \<or> bp + 16 * n \<le> c"
    using r by (simp_all add: returnable_def)
  have "bp \<notin> fst ` set R" using rt(2,5) L by fastforce
  then obtain X a k Y where p: "L = X @ (a, k) # Y" "\<forall>(c, m) \<in> set X. c < bp" "a < bp" "\<forall>(c, m) \<in> set Y. bp < c"
    using place_of [of ?e 0 R bp] li(2) rt(3) L(1) by metis
  have fX: "first_of X a = ?e" using p(1) L(1) by (cases X) auto
  have "free_search bp (freep h) h = Some a"
    using free_search_ok [of h X a k Y ?e bp "freep h"] li p fX by simp
  then have u: "ufree (bp + 16) h = Some (free_link bp a h)" by (simp add: ufree_def)
  have apart: "c + 16 * m \<le> bp \<or> bp + 16 * n \<le> c" if "(c, m) \<in> set L" for c m using rt(5) that by blast
  have ak: "a + 16 * k \<le> bp" using apart [of a k] p(1,3) by simp
  have Y: "\<forall>(c, m) \<in> set Y. bp + 16 * n \<le> c \<and> bp < c"
  proof (clarify, rule conjI)
    fix c m assume c: "(c, m) \<in> set Y"
    then show "bp < c" using p(4) by blast
    then show "bp + 16 * n \<le> c" using apart [of c m] c p(1) by simp
  qed
  have room: "n + k + units Y < 2 ^ 32" using rt(4) p(1) by simp
  note f = free_link_ok [OF li(1) [unfolded p(1)] li(2) [unfolded p(1)] ak p(3) rt(3,1) Y p(2) room]
  have ins: "insert_block bp n L = X @ join_next a k (join_next bp n Y)" unfolding p(1) by (rule insert_block_eq [OF p(2-4)])
  have ub: "ubase (free_link bp a h) = ?e" "freep (free_link bp a h) = a" by (simp_all add: free_link_steps link_step_other(2))
  have Ypos: "\<forall>(c, m) \<in> set (join_next bp n Y). 0 < m"
  proof (rule join_next_pos [OF rt(2)])
    show "\<forall>(c, m) \<in> set Y. 0 < m" using L p(1) by (cases X) auto
  qed
  have "\<exists>R. X @ join_next a k (join_next bp n Y) = (?e, 0) # R \<and> (\<forall>(c, m) \<in> set R. 0 < m)"
  proof (cases X)
    case Nil
    then have "a = ?e" "k = 0" using L(1) p(1) by auto
    then have "join_next a k (join_next bp n Y) = (?e, 0) # join_next bp n Y"
      using rt(3) join_next_head [of bp n Y] by auto
    then show ?thesis using Nil Ypos by simp
  next
    case (Cons x X')
    then have "x = (?e, 0)" "\<forall>(c, m) \<in> set X'. 0 < m" "0 < k" using L p(1) by auto
    then show ?thesis using Cons join_next_pos [OF \<open>0 < k\<close> Ypos, of a] by (simp add: ball_Un)
  qed
  moreover have "a \<in> fst ` set (X @ join_next a k (join_next bp n Y))" using join_next_head [of a k "join_next bp n Y"] by force
  ultimately have "free_list (free_link bp a h) (insert_block bp n L)" using f ub by (simp add: free_list_def ins)
  then show ?thesis using that [OF u] ub by simp
qed


subsection \<open>Taking a block\<close>

lemma linked_pred:
  "linked h L e \<Longrightarrow> (a, n) \<in> set L \<Longrightarrow> hptr h a = p \<Longrightarrow> p \<noteq> e \<Longrightarrow> \<exists>A m B. L = A @ (a, n) # (p, m) # B"
proof (induction L)
  case (Cons x L)
  show ?case
  proof (cases "x = (a, n)")
    case True
    then have "p = first_of L e" using Cons.prems by auto
    then obtain m B where "L = (p, m) # B" using Cons.prems(4) by (cases L) auto
    then have "x # L = [] @ (a, n) # (p, m) # B" using True by simp
    then show ?thesis by blast
  next
    case False
    then have "\<exists>A m B. L = A @ (a, n) # (p, m) # B" using Cons by (cases x) auto
    then obtain A m B where "x # L = (x # A) @ (a, n) # (p, m) # B" by auto
    then show ?thesis by blast
  qed
qed simp

text \<open>What remains of the list when the last \<open>N\<close> units of the block after \<open>prevp\<close> are taken.\<close>

definition rest_block :: "nat \<Rightarrow> nat \<Rightarrow> nat \<Rightarrow> (nat \<times> nat) list \<Rightarrow> (nat \<times> nat) list" where
  "rest_block p m N B = (if m = N then B else (p, m - N) # B)"

definition take_step :: "u32 \<Rightarrow> nat \<Rightarrow> nat \<Rightarrow> uheap \<Rightarrow> nat \<times> uheap" where
  "take_step nu prevp p h =
     (if hsize h p = nu then (p, (set_hptr prevp (hptr h p) h)\<lparr>freep := prevp\<rparr>)
      else let h = set_hsize p (hsize h p - nu) h; p = block_end p h in (p, (set_hsize p nu h)\<lparr>freep := prevp\<rparr>))"

lemma malloc_loop_take:
  "nu \<le> hsize h p \<Longrightarrow> malloc_loop sbrk nu prevp p (h, k) = (case take_step nu prevp p h of (bp, h') \<Rightarrow> Some (bp + 16, h', k))"
  by (subst malloc_loop.simps) (simp add: take_step_def Let_def)

lemma spaced_drop: "spaced (A @ (a, n) # (p, m) # B) \<Longrightarrow> m' \<le> m \<Longrightarrow> spaced (A @ (a, n) # B) \<and> spaced (A @ (a, n) # (p, m') # B)"
proof -
  assume s: "spaced (A @ (a, n) # (p, m) # B)" and m: "m' \<le> m"
  have A: "spaced (A @ [(a, n)])" "spaced ((a, n) # (p, m) # B)" using spaced_append [of A a n "(p, m) # B"] s by blast+
  have "spaced ((a, n) # B)" "spaced ((a, n) # (p, m') # B)" using A(2) m by (cases B, auto)+
  then show ?thesis using A(1) spaced_front by blast
qed

lemma take_step_ok:
  assumes l: "linked h (A @ (a, n) # (p, m) # B) e" and sp: "spaced (A @ (a, n) # (p, m) # B)"
    and N: "unat nu = N" "0 < N" "N \<le> m"
  obtains h' where "take_step nu a p h = (p + 16 * (m - N), h')"
    and "linked h' (A @ (a, n) # rest_block p m N B) e" and "spaced (A @ (a, n) # rest_block p m N B)"
    and "unat (hsize h' (p + 16 * (m - N))) = N" and "freep h' = a" and "ubase h' = ubase h"
proof -
  have p: "unat (hsize h p) = m" "hptr h p = first_of B e" "linked h B e" "hptr h a = p" "unat (hsize h a) = n" "linked h A a"
    using l by (simp_all add: linked_append)
  have ap: "a + 16 * n < p" and aA: "a \<notin> fst ` set A" and aB: "a \<notin> fst ` set B" using spaced_appendD(1,2) [OF sp] by fastforce+
  have sp2: "spaced ((A @ [(a, n)]) @ (p, m) # B)" using sp by simp
  have pA: "c < p" if "(c, k) \<in> set A" for c k using spaced_appendD(1) [OF sp2, of c k] that by simp
  have pB: "p + 16 * m < c" if "(c, k) \<in> set B" for c k by (rule spaced_appendD(2) [OF sp2 that])
  note s = spaced_drop [OF sp, of "m - N"]
  show ?thesis
  proof (cases "m = N")
    case True
    then have eq: "hsize h p = nu" using p(1) N(1) by (simp add: word_unat_eq_iff)
    let ?h = "(set_hptr a (first_of B e) h)\<lparr>freep := a\<rparr>"
    have "linked ?h A a = linked h A a" using aA by (intro linked_cong) (auto simp: set_hptr_def)
    moreover have "linked ?h B e = linked h B e" using aB by (intro linked_cong) (auto simp: set_hptr_def)
    ultimately have "linked ?h (A @ (a, n) # B) e" using p by (simp add: linked_append set_hptr_def)
    then show ?thesis using True eq s p(1,2)
      by (intro that [of ?h]) (simp_all add: take_step_def rest_block_def set_hptr_def)
  next
    case False
    let ?b = "p + 16 * (m - N)"
    have "hsize h p \<noteq> nu" using p(1) N(1) False by auto
    moreover have sz: "unat (hsize h p - nu) = m - N" using p(1) N by (simp add: unat_sub word_le_nat_alt)
    ultimately have t: "take_step nu a p h = (?b, (set_hsize ?b nu (set_hsize p (hsize h p - nu) h))\<lparr>freep := a\<rparr>)" (is "_ = (_, ?h)")
      by (simp add: take_step_def block_end_def set_hsize_def Let_def)
    have "linked ?h A a = linked h A a" using pA by (intro linked_cong) (fastforce simp: set_hsize_def)
    moreover have "linked ?h B e = linked h B e" using pB N(3) by (intro linked_cong) (fastforce simp: set_hsize_def)
    ultimately have "linked ?h (A @ (a, n) # (p, m - N) # B) e"
      using p sz ap False N(2,3) by (simp add: linked_append set_hsize_def)
    then show ?thesis using t False s N(1) by (intro that [of ?h]) (simp_all add: rest_block_def set_hsize_def)
  qed
qed


lemma insert_rest:
  assumes sp: "spaced (A @ (a, n) # (p, m) # B)" and N: "0 < N" "N \<le> m" and b: "b = p + 16 * (m - N)"
  shows "insert_block b N (A @ (a, n) # rest_block p m N B) = A @ (a, n) # (p, m) # B"
    and "\<forall>(c, k) \<in> set (A @ (a, n) # rest_block p m N B). c + 16 * k \<le> b \<or> b + 16 * N \<le> c"
proof -
  have sp2: "spaced ((A @ [(a, n)]) @ (p, m) # B)" using sp by simp
  have A: "c + 16 * k < p" if "(c, k) \<in> set (A @ [(a, n)])" for c k by (rule spaced_appendD(1) [OF sp2 that])
  have B: "p + 16 * m < c" if "(c, k) \<in> set B" for c k by (rule spaced_appendD(2) [OF sp2 that])
  have jB: "join_next q k B = (q, k) # B" if "q + 16 * k = p + 16 * m" for q k
  proof (cases B)
    case (Cons y B')
    then show ?thesis using that B [of "fst y" "snd y"] by (cases y) simp
  qed simp
  have aA: "\<forall>(c, k) \<in> set (A @ [(a, n)]). c < b" using A b by fastforce
  have bB: "\<forall>(c, k) \<in> set B. b < c" using B N b by fastforce
  have e: "b + 16 * N = p + 16 * m" using N b by simp
  show "insert_block b N (A @ (a, n) # rest_block p m N B) = A @ (a, n) # (p, m) # B"
  proof (cases "m = N")
    case True
    have "insert_block p N (A @ (a, n) # B) = A @ join_next a n (join_next p N B)"
      by (rule insert_block_eq) (use aA bB True b in auto)
    then show ?thesis using True b A [of a n] jB [of p N] by (simp add: rest_block_def)
  next
    case False
    have "insert_block b N ((A @ [(a, n)]) @ (p, m - N) # B) = (A @ [(a, n)]) @ join_next p (m - N) (join_next b N B)"
      by (rule insert_block_eq [OF aA _ bB]) (use False N b in simp)
    then show ?thesis using False N b jB [OF e] by (simp add: rest_block_def)
  qed
  have "c + 16 * k \<le> b" if "(c, k) \<in> set (A @ [(a, n)])" for c k using A [OF that] b by simp
  moreover have "b + 16 * N \<le> c" if "(c, k) \<in> set B" for c k using B [OF that] e by simp
  ultimately show "\<forall>(c, k) \<in> set (A @ (a, n) # rest_block p m N B). c + 16 * k \<le> b \<or> b + 16 * N \<le> c"
    using b by (auto simp: rest_block_def)
qed

text \<open>The loop of \<^verbatim>\<open>malloc\<close> passes the blocks that are too small.\<close>

lemma malloc_scan:
  "linked h C q \<Longrightarrow> \<forall>(c, m) \<in> set C. m < unat nu \<and> c \<noteq> freep h \<Longrightarrow>
    malloc_loop sbrk nu prevp (first_of C q) (h, k) = malloc_loop sbrk nu (last (prevp # map fst C)) q (h, k)"
proof (induction C arbitrary: prevp)
  case (Cons x C)
  obtain c m where x: "x = (c, m)" by fastforce
  have "unat (hsize h c) = m" "m < unat nu" "c \<noteq> freep h" "hptr h c = first_of C q" using Cons.prems by (simp_all add: x)
  then have "malloc_loop sbrk nu prevp c (h, k) = malloc_loop sbrk nu c (first_of C q) (h, k)"
    by (subst malloc_loop.simps) (simp add: word_le_nat_alt)
  then show ?case using Cons x by simp
qed simp

text \<open>The circle read from the block after \<open>freep\<close>.\<close>

lemma ring_view:
  assumes "free_list h L"
  obtains X n Y where "L = X @ (freep h, n) # Y" and "linked h (Y @ X) (freep h)" and "hptr h (freep h) = first_of (Y @ X) (freep h)"
    and "\<forall>(c, m) \<in> set (Y @ X). c \<noteq> freep h" and "unat (hsize h (freep h)) = n"
proof -
  have l: "linked h L (ubase h)" "spaced L" "freep h \<in> fst ` set L" "\<exists>R. L = (ubase h, 0) # R"
    using assms unfolding free_list_def by blast+
  then obtain X n Y where L: "L = X @ (freep h, n) # Y" by (auto dest!: split_list)
  have f: "ubase h = first_of X (freep h)" using l(4) L by (cases X) auto
  have "linked h (Y @ X) (freep h)" using l(1) f by (auto simp: L linked_append)
  moreover have "\<forall>(c, m) \<in> set (Y @ X). c \<noteq> freep h" using spaced_appendD(1,2) [OF l(2) [unfolded L]] by fastforce
  moreover have "hptr h (freep h) = first_of (Y @ X) (freep h)" "unat (hsize h (freep h)) = n"
    using l(1) f by (auto simp: L linked_append)
  ultimately show ?thesis using that [OF L] by simp
qed


lemma linked_last: "linked h C q \<Longrightarrow> C \<noteq> [] \<Longrightarrow> hptr h (fst (last C)) = q"
  by (induction C) (auto split: if_splits)

lemma linked_size: "linked h L e \<Longrightarrow> (a, n) \<in> set L \<Longrightarrow> unat (hsize h a) = n"
  by (induction L) auto

text \<open>The first block that fits, in the order of the circle, and the block before it.\<close>

lemma malloc_loop_fits:
  assumes fl: "free_list h L" and ex: "(c, j) \<in> set L" "unat nu \<le> j" and nu: "0 < unat nu"
  obtains A a n p m B where "L = A @ (a, n) # (p, m) # B" and "unat nu \<le> m"
    and "malloc_loop sbrk nu (freep h) (hptr h (freep h)) (h, k) = malloc_loop sbrk nu a p (h, k)"
proof -
  obtain X n Y where v: "L = X @ (freep h, n) # Y" "linked h (Y @ X) (freep h)" "hptr h (freep h) = first_of (Y @ X) (freep h)"
    "\<forall>(c, m) \<in> set (Y @ X). c \<noteq> freep h" "unat (hsize h (freep h)) = n"
    using ring_view [OF fl] by blast
  have l: "linked h L (ubase h)" "(ubase h, 0) \<in> set L" using fl unfolding free_list_def by auto
  define S where "S = (Y @ X) @ [(freep h, n)]"
  have "linked h S (hptr h (freep h))" using v(2,5) by (simp add: S_def linked_append)
  have SL: "set S = set L" by (auto simp: S_def v(1))
  then have "\<exists>x \<in> set S. unat nu \<le> snd x" using ex by force
  then obtain C y D where S: "S = C @ y # D" and y: "unat nu \<le> snd y" and C: "\<forall>x \<in> set C. \<not> unat nu \<le> snd x"
    using split_list_first_prop [of S "\<lambda>x. unat nu \<le> snd x"] by blast
  obtain p m where ym: "y = (p, m)" by fastforce
  have "C @ butlast (y # D) = Y @ X" using arg_cong [OF S, of butlast] by (simp add: S_def butlast_append)
  then have Cf: "\<forall>(c, m) \<in> set C. c \<noteq> freep h" using v(4) by (metis Un_iff set_append)
  have lC: "linked h C p" using \<open>linked h S (hptr h (freep h))\<close> by (simp add: S ym linked_append)
  have fS: "hptr h (freep h) = first_of C p"
    using v(3) arg_cong [OF S [unfolded S_def], of "\<lambda>S. first_of S 0"] by (simp add: ym)
  let ?a = "last (freep h # map fst C)"
  have "malloc_loop sbrk nu (freep h) (hptr h (freep h)) (h, k) = malloc_loop sbrk nu ?a p (h, k)"
    unfolding fS by (rule malloc_scan [OF lC]) (use C Cf in fastforce)
  moreover have "hptr h ?a = p" using fS linked_last [OF lC] by (cases "C = []") (simp_all add: last_map)
  moreover have "?a \<in> fst ` set L"
  proof (cases "C = []")
    case False
    then have "last C \<in> set L" unfolding SL [symmetric] S by simp
    then show ?thesis using False by (simp add: last_map)
  qed (simp add: v(1))
  moreover have pm: "unat (hsize h p) = m" using linked_size [OF l(1)] SL S ym by auto
  moreover have "p \<noteq> ubase h" using pm linked_size [OF l] y nu ym by auto
  ultimately obtain n' A m' B where "L = A @ (?a, n') # (p, m') # B" using linked_pred [OF l(1)] by fastforce
  moreover from this have "m' = m" using l(1) pm by (simp add: linked_append)
  ultimately show ?thesis using that y ym \<open>malloc_loop sbrk nu (freep h) (hptr h (freep h)) (h, k) = malloc_loop sbrk nu ?a p (h, k)\<close> by simp
qed


lemma malloc_fit:
  assumes fl: "free_list h L" and ex: "(c, j) \<in> set L" "N \<le> j" and N: "unat nu = N" "0 < N" and room: "units L < 2 ^ 32"
  obtains bp h' L' where "malloc_loop sbrk nu (freep h) (hptr h (freep h)) (h, k) = Some (bp + 16, h', k)"
    and "free_list h' L'" and "returnable bp N h' L'" and "insert_block bp N L' = L" and "ubase h' = ubase h"
proof -
  obtain A a n p m B where L: "L = A @ (a, n) # (p, m) # B" "N \<le> m"
    and go: "malloc_loop sbrk nu (freep h) (hptr h (freep h)) (h, k) = malloc_loop sbrk nu a p (h, k)"
    using malloc_loop_fits [OF fl ex(1), of nu] ex(2) N by metis
  obtain R where f: "L = (ubase h, 0) # R" "\<forall>(c, m) \<in> set R. 0 < m" "linked h L (ubase h)" "spaced L"
    using fl unfolding free_list_def by blast
  let ?b = "p + 16 * (m - N)" and ?L = "A @ (a, n) # rest_block p m N B"
  obtain h' where t: "take_step nu a p h = (?b, h')" "linked h' ?L (ubase h)" "spaced ?L" "unat (hsize h' ?b) = N" "freep h' = a" "ubase h' = ubase h"
    by (rule take_step_ok [OF f(3,4) [unfolded L(1)] N L(2)], rule that)
  have "unat (hsize h p) = m" using linked_size [OF f(3)] L(1) by simp
  then have "malloc_loop sbrk nu (freep h) (hptr h (freep h)) (h, k) = Some (?b + 16, h', k)"
    using go malloc_loop_take [of nu h p sbrk a k] L(2) N(1) t(1) by (simp add: word_le_nat_alt)
  moreover have "\<exists>R. ?L = (ubase h, 0) # R \<and> (\<forall>(c, m) \<in> set R. 0 < m)"
  proof (cases A)
    case Nil
    then show ?thesis using f(1,2) L by (auto simp: rest_block_def)
  next
    case (Cons x A')
    then have "?L = (ubase h, 0) # A' @ (a, n) # rest_block p m N B" "\<forall>(c, m) \<in> set (A' @ (a, n) # B). 0 < m"
      using f(1,2) L by auto
    then show ?thesis using L(2) by (auto simp: rest_block_def)
  qed
  then have "free_list h' ?L" using t by (simp add: free_list_def)
  moreover note ins = insert_rest [OF f(4) [unfolded L(1)] N(2) L(2) refl]
  moreover have "units ?L + N = units L" using L by (simp add: rest_block_def)
  moreover have "ubase h < p"
  proof -
    have "spaced ((A @ [(a, n)]) @ (p, m) # B)" using f(4) L(1) by simp
    moreover have "(ubase h, 0) \<in> set (A @ [(a, n)])" using f(1) L by (cases A) auto
    ultimately show ?thesis using spaced_appendD(1) [of "A @ [(a, n)]" p m B "ubase h" 0] by simp
  qed
  ultimately show ?thesis using that [of ?b h' ?L] t(4,6) N room L(1) by (simp add: returnable_def)
qed

subsection \<open>Growing the heap\<close>

text \<open>
  What \<^verbatim>\<open>malloc\<close> relies on of \<^verbatim>\<open>sbrk\<close>: a call that asks for more memory fails with -1 or returns the old end of
  the process's memory, which is above all blocks and above the data segment that holds \<^verbatim>\<open>base\<close>.
\<close>

definition sbrk_grows :: "'k sbrk \<Rightarrow> uheap \<Rightarrow> (nat \<times> nat) list \<Rightarrow> bool" where
  "sbrk_grows sbrk h L \<longleftrightarrow> (\<forall>n k. 0 < n \<longrightarrow> fst (sbrk n k) = -1 \<or>
     int (ubase h) < fst (sbrk n k) \<and> (\<forall>(c, m) \<in> set L. int (c + 16 * m) \<le> fst (sbrk n k)))"

definition core_units :: "nat \<Rightarrow> nat" where
  "core_units N = max 4096 N"

lemma core_bytes:
  assumes "unat (nu :: u32) = N" and "16 * core_units N < 2 ^ 31" and nu: "nu' = (if nu < 4096 then 4096 else nu)"
  shows "unat nu' = core_units N" and "sint (ucast (ucast nu' * 16 :: u64) :: u32) = int (16 * core_units N)"
proof -
  show u: "unat nu' = core_units N" using assms by (simp add: core_units_def word_less_nat_alt)
  have c: "unat (ucast nu' :: u64) = unat nu'"
    by (simp add: unsigned_ucast_eq take_bit_nat_eq_self unat_less_exp [THEN less_le_trans])
  have "unat (ucast nu' * 16 :: u64) = 16 * core_units N" using u c assms(2) by (simp add: unat_word_ariths)
  then have "unat (ucast (ucast nu' * 16 :: u64) :: u32) = 16 * core_units N"
    using assms(2) by (simp add: unsigned_ucast_eq take_bit_nat_eq_self)
  then have "uint (ucast (ucast nu' * 16 :: u64) :: u32) = int (16 * core_units N)" by (metis int_nat_eq uint_nat unat_eq_nat_uint)
  then show "sint (ucast (ucast nu' * 16 :: u64) :: u32) = int (16 * core_units N)"
    using assms(2) by (simp add: sint_uint signed_take_bit_int_eq_self)
qed


lemma free_list_set_hsize:
  assumes "free_list h L" and "p \<notin> fst ` set L"
  shows "free_list (set_hsize p n h) L"
proof -
  have "linked (set_hsize p n h) L e = linked h L e" for e using assms(2) by (intro linked_cong) (auto simp: set_hsize_def)
  then show ?thesis using assms(1) by (simp add: free_list_def) (simp add: set_hsize_def)
qed

lemma free_list_addr: "free_list h L \<Longrightarrow> a \<in> fst ` set L \<Longrightarrow> ubase h \<le> a"
  using spaced_less [of "ubase h" 0] by (fastforce simp: free_list_def)

lemma morecore_ok:
  assumes fl: "free_list h L" and sb: "sbrk_grows sbrk h L" and nu: "unat nu = N" and small: "16 * core_units N < 2 ^ 31"
    and room: "units L + core_units N < 2 ^ 32" and b: "0 < ubase h" and call: "sbrk (int (16 * core_units N)) k = (p, k')"
  shows "p = -1 \<Longrightarrow> morecore sbrk nu (h, k) = Some (0, h, k')"
    and "p \<noteq> -1 \<Longrightarrow> \<exists>h'. morecore sbrk nu (h, k) = Some (freep h', h', k') \<and> freep h' \<noteq> 0 \<and>
           free_list h' (insert_block (nat p) (core_units N) L) \<and> ubase h' = ubase h"
proof -
  let ?nu = "if nu < 4096 then 4096 else nu"
  note c = core_bytes [OF nu small refl]
  have m: "morecore sbrk nu (h, k) = (if p = -1 then Some (0, h, k')
      else map_option (\<lambda>h. (freep h, h, k')) (ufree (nat p + 16) (set_hsize (nat p) ?nu h)))"
    using c(2) call by (simp add: morecore_def Let_def)
  then show "p = -1 \<Longrightarrow> morecore sbrk nu (h, k) = Some (0, h, k')" by simp
  assume p: "p \<noteq> -1"
  have pos: "0 < core_units N" by (simp add: core_units_def)
  then have "0 < int (16 * core_units N)" by simp
  then have up: "int (ubase h) < p \<and> (\<forall>(c, m) \<in> set L. int (c + 16 * m) \<le> p)"
    using sb call p unfolding sbrk_grows_def by (metis fst_conv)
  have low: "c + 16 * m \<le> nat p" if "(c, m) \<in> set L" for c m using up that by fastforce
  have "(nat p, m) \<notin> set L" for m
  proof
    assume i: "(nat p, m) \<in> set L"
    then have "m = 0" using low by fastforce
    then have "nat p = ubase h" using fl i by (auto simp: free_list_def)
    then show False using up by linarith
  qed
  then have "nat p \<notin> fst ` set L" by force
  then have fl': "free_list (set_hsize (nat p) ?nu h) L" by (rule free_list_set_hsize [OF fl])
  have "returnable (nat p) (core_units N) (set_hsize (nat p) ?nu h) L"
    using low up c(1) pos room by (auto simp: returnable_def set_hsize_def)
  then obtain h' where h: "ufree (nat p + 16) (set_hsize (nat p) ?nu h) = Some h'"
    "free_list h' (insert_block (nat p) (core_units N) L)" "ubase h' = ubase (set_hsize (nat p) ?nu h)"
    by (rule ufree_ok [OF fl'])
  have "freep h' \<noteq> 0" using free_list_addr [OF h(2), of "freep h'"] h(2,3) b by (simp add: free_list_def set_hsize_def)
  then show "\<exists>h'. morecore sbrk nu (h, k) = Some (freep h', h', k') \<and> freep h' \<noteq> 0 \<and>
      free_list h' (insert_block (nat p) (core_units N) L) \<and> ubase h' = ubase h"
    using m p h by (simp add: set_hsize_def)
qed

lemma malloc_no_fit:
  assumes fl: "free_list h L" and no: "\<forall>(c, m) \<in> set L. m < unat nu"
  shows "malloc_loop sbrk nu (freep h) (hptr h (freep h)) (h, k) =
    Option.bind (morecore sbrk nu (h, k)) (\<lambda>(p, s). if p = 0 then Some (0, s) else malloc_loop sbrk nu p (hptr (fst s) p) s)"
proof -
  obtain X n Y where v: "L = X @ (freep h, n) # Y" "linked h (Y @ X) (freep h)" "hptr h (freep h) = first_of (Y @ X) (freep h)"
    "\<forall>(c, m) \<in> set (Y @ X). c \<noteq> freep h" "unat (hsize h (freep h)) = n"
    using ring_view [OF fl] by blast
  have "malloc_loop sbrk nu (freep h) (hptr h (freep h)) (h, k) = malloc_loop sbrk nu (last (freep h # map fst (Y @ X))) (freep h) (h, k)"
    unfolding v(3) by (rule malloc_scan [OF v(2)]) (use v(1,4) no in auto)
  also have "... = Option.bind (morecore sbrk nu (h, k)) (\<lambda>(p, s). if p = 0 then Some (0, s) else malloc_loop sbrk nu p (hptr (fst s) p) s)"
    using no v(1,5) by (subst malloc_loop.simps) (simp add: word_le_nat_alt)
  finally show ?thesis .
qed

lemma insert_block_has: "\<exists>(c, m) \<in> set (insert_block bp n L). n \<le> m"
proof -
  have j: "\<exists>(c, m) \<in> set (join_next b k Y). n \<le> m" if "n \<le> k \<or> (\<exists>(c, m) \<in> set Y. n \<le> m)" for b k Y
    using that by (cases Y) auto
  have "\<exists>(c, m) \<in> set (join_next bp n Y). n \<le> m" for Y by (rule j) simp
  then have jj: "\<exists>(c, m) \<in> set (join_next a k (join_next bp n Y)). n \<le> m" for a k Y by (rule j [OF disjI2])
  obtain a k where "last (takeWhile (\<lambda>(a, _). a < bp) L) = (a, k)" by fastforce
  then show ?thesis using jj [of a k "dropWhile (\<lambda>(a, _). a < bp) L"] by (auto simp: insert_block_def Let_def)
qed

text \<open>An allocator that is not set up yet has the list of \<^verbatim>\<open>base\<close> alone.\<close>

definition heap_ok :: "uheap \<Rightarrow> (nat \<times> nat) list \<Rightarrow> bool" where
  "heap_ok h L \<longleftrightarrow> 0 < ubase h \<and> (if freep h = 0 then L = [(ubase h, 0)] else free_list h L)"

lemma malloc_start:
  assumes "heap_ok h L" and nu: "nu = ucast ((ucast nbytes + 16 - 1) div 16 + 1 :: u64)"
  obtains g where "malloc sbrk nbytes (h, k) = malloc_loop sbrk nu (freep g) (hptr g (freep g)) (g, k)"
    and "free_list g L" and "ubase g = ubase h"
proof (cases "freep h = 0")
  case True
  let ?g = "set_hsize (ubase h) 0 ((set_hptr (ubase h) (ubase h) h)\<lparr>freep := ubase h\<rparr>)"
  show ?thesis by (rule that [of ?g]) (use assms True in \<open>simp_all add: malloc_def heap_ok_def free_list_def set_hsize_def set_hptr_def\<close>)
qed (use assms that [of h] in \<open>simp add: malloc_def heap_ok_def\<close>)

lemma malloc_units: "unat (ucast ((ucast (nbytes :: u32) + 16 - 1) div 16 + 1 :: u64) :: u32) = (unat nbytes + 15) div 16 + 1"
proof -
  have n: "unat nbytes < 2 ^ 32" using unat_less_exp [of nbytes] by simp
  have c: "unat (ucast nbytes :: u64) = unat nbytes"
    by (simp add: unsigned_ucast_eq take_bit_nat_eq_self unat_less_exp [THEN less_le_trans])
  have "unat (15 + ucast nbytes :: u64) = unat nbytes + 15" using n c by (simp add: unat_word_ariths)
  then have "unat ((15 + ucast nbytes) div 16 + 1 :: u64) = (unat nbytes + 15) div 16 + 1" using n by (simp add: unat_word_ariths unat_div)
  then show ?thesis using n by (simp add: unsigned_ucast_eq take_bit_nat_eq_self)
qed

lemma units_insert:
  assumes "free_list h L" and "ubase h < bp"
  shows "units (insert_block bp n L) = units L + n" and "bytes (insert_block bp n L) = bytes L \<union> {bp..<bp + 16 * n}"
proof -
  let ?P = "\<lambda>(a, _). a < bp"
  have "takeWhile ?P L \<noteq> []" using assms by (auto simp: free_list_def)
  then obtain X a k where t: "takeWhile ?P L = X @ [(a, k)]" by (metis rev_exhaust surj_pair)
  have i: "insert_block bp n L = X @ join_next a k (join_next bp n (dropWhile ?P L))" by (simp add: insert_block_def t)
  have L: "L = X @ (a, k) # dropWhile ?P L" using takeWhile_dropWhile_id [of ?P L] t by simp
  show "units (insert_block bp n L) = units L + n" by (subst (2) L) (simp add: i)
  show "bytes (insert_block bp n L) = bytes L \<union> {bp..<bp + 16 * n}" by (subst (2) L) (auto simp: i)
qed

text \<open>
  C8. Freeing a block refines the insertion into the list of free blocks: \<^verbatim>\<open>free\<close> returns, the list stays in address
  order with neighbours joined, and the free bytes are those of before and those of the block.
\<close>

theorem ufree_refines:
  assumes "free_list h L" and "returnable bp n h L"
  shows "\<exists>h'. ufree (bp + 16) h = Some h' \<and> free_list h' (insert_block bp n L) \<and>
    bytes (insert_block bp n L) = bytes L \<union> {bp..<bp + 16 * n} \<and> bytes L \<inter> {bp..<bp + 16 * n} = {}"
proof -
  obtain h' where "ufree (bp + 16) h = Some h'" "free_list h' (insert_block bp n L)" by (rule ufree_ok [OF assms], rule that)
  moreover have "bytes L \<inter> {bp..<bp + 16 * n} = {}" using assms(2) by (fastforce simp: bytes_def returnable_def)
  moreover have "ubase h < bp" using assms(2) by (simp add: returnable_def)
  ultimately show ?thesis using units_insert(2) [OF assms(1)] by blast
qed

lemma malloc_more:
  assumes fl: "free_list h L" and sb: "sbrk_grows sbrk h L" and nu: "unat nu = N" "0 < N" and small: "16 * core_units N < 2 ^ 31"
    and room: "units L + core_units N < 2 ^ 32" and b: "0 < ubase h" and call: "sbrk (int (16 * core_units N)) k = (p, k')"
    and no: "\<forall>(c, m) \<in> set L. m < N"
  shows "p = -1 \<Longrightarrow> malloc_loop sbrk nu (freep h) (hptr h (freep h)) (h, k) = Some (0, h, k')"
    and "p \<noteq> -1 \<Longrightarrow> \<exists>bp h' L'. malloc_loop sbrk nu (freep h) (hptr h (freep h)) (h, k) = Some (bp + 16, h', k') \<and>
      free_list h' L' \<and> returnable bp N h' L' \<and> insert_block bp N L' = insert_block (nat p) (core_units N) L"
proof -
  note lp = malloc_no_fit [OF fl no [folded nu(1)], of sbrk k] and mc = morecore_ok [OF fl sb nu(1) small room b call]
  show "p = -1 \<Longrightarrow> malloc_loop sbrk nu (freep h) (hptr h (freep h)) (h, k) = Some (0, h, k')" using lp mc(1) by simp
  assume p: "p \<noteq> -1"
  let ?L = "insert_block (nat p) (core_units N) L"
  obtain g where g: "morecore sbrk nu (h, k) = Some (freep g, g, k')" "freep g \<noteq> 0" "free_list g ?L" using mc(2) [OF p] by blast
  have "ubase h < nat p"
  proof -
    have "0 < int (16 * core_units N)" by (simp add: core_units_def)
    then show ?thesis using sb call p unfolding sbrk_grows_def by (metis fst_conv zless_nat_conj zless_nat_eq_int_zless)
  qed
  then have "units ?L < 2 ^ 32" using units_insert(1) [OF fl] room by simp
  moreover obtain c j where "(c, j) \<in> set ?L" "N \<le> j" using insert_block_has [of "nat p" "core_units N" L] by (auto simp: core_units_def)
  ultimately obtain bp h' L' where "malloc_loop sbrk nu (freep g) (hptr g (freep g)) (g, k') = Some (bp + 16, h', k')"
    "free_list h' L'" "returnable bp N h' L'" "insert_block bp N L' = ?L"
    using malloc_fit [OF g(3) _ _ nu] by metis
  then show "\<exists>bp h' L'. malloc_loop sbrk nu (freep h) (hptr h (freep h)) (h, k) = Some (bp + 16, h', k') \<and>
      free_list h' L' \<and> returnable bp N h' L' \<and> insert_block bp N L' = insert_block (nat p) (core_units N) L"
    using lp g(1,2) by fastforce
qed


text \<open>
  C9. \<^verbatim>\<open>malloc\<close> returns for every request that fits into an \<^verbatim>\<open>int\<close> of bytes. It returns 0 only when no block fits and
  \<^verbatim>\<open>sbrk\<close> fails, with the list unchanged. Otherwise it returns a block of enough bytes that overlaps no free block, and
  putting it back gives the list of before, or the one with the new memory of \<^verbatim>\<open>sbrk\<close>.
\<close>

theorem malloc_takes:
  assumes ok: "heap_ok h L" and sb: "sbrk_grows sbrk h L" and N: "N = (unat nbytes + 15) div 16 + 1"
    and small: "16 * core_units N < 2 ^ 31" and room: "units L + core_units N < 2 ^ 32"
    and call: "sbrk (int (16 * core_units N)) k = (p, k')"
  shows "\<exists>r h' L'' k''. malloc sbrk nbytes (h, k) = Some (r, h', k'') \<and>
    (if r = 0 then free_list h' L \<and> (\<forall>(c, m) \<in> set L. m < N) \<and> p = -1
     else free_list h' L'' \<and> returnable (r - 16) N h' L'' \<and> unat nbytes \<le> 16 * (N - 1) \<and>
       insert_block (r - 16) N L'' = (if \<forall>(c, m) \<in> set L. m < N then insert_block (nat p) (core_units N) L else L))"
proof -
  define nu :: u32 where "nu = ucast ((ucast nbytes + 16 - 1) div 16 + 1 :: u64)"
  have nu: "unat nu = N" "0 < N" unfolding nu_def malloc_units N by simp_all
  obtain g where g: "malloc sbrk nbytes (h, k) = malloc_loop sbrk nu (freep g) (hptr g (freep g)) (g, k)" "free_list g L" "ubase g = ubase h"
    by (rule malloc_start [OF ok nu_def], rule that)
  have sb': "sbrk_grows sbrk g L" and b: "0 < ubase g" using sb ok g(3) by (simp_all add: sbrk_grows_def heap_ok_def)
  have enough: "unat nbytes \<le> 16 * (N - 1)" using N by simp
  show ?thesis
  proof (cases "\<forall>(c, m) \<in> set L. m < N")
    case True
    note more = malloc_more [OF g(2) sb' nu small room b call True]
    show ?thesis
    proof (cases "p = -1")
      case p: True
      show ?thesis by (rule exI [of _ 0]) (simp add: g more(1) [OF p] p True)
    next
      case False
      then obtain bp h' L' where "malloc sbrk nbytes (h, k) = Some (bp + 16, h', k')" "free_list h' L'" "returnable bp N h' L'"
        "insert_block bp N L' = insert_block (nat p) (core_units N) L" using more(2) g(1) by auto
      then show ?thesis using True enough by (intro exI [of _ "bp + 16"]) (simp, blast)
    qed
  next
    case False
    then obtain c j where cj: "(c, j) \<in> set L" "N \<le> j" by auto
    have "units L < 2 ^ 32" using room by simp
    then obtain bp h' L' where "malloc sbrk nbytes (h, k) = Some (bp + 16, h', k)" "free_list h' L'" "returnable bp N h' L'"
      "insert_block bp N L' = L" using malloc_fit [OF g(2) cj nu] unfolding g(1) by metis
    then show ?thesis using False enough by (intro exI [of _ "bp + 16"]) (simp, blast)
  qed
qed

subsection \<open>Witnesses\<close>

definition uheap_ex :: uheap where
  "uheap_ex = \<lparr>hptr = (\<lambda>a. if a = 100 then 4096 else 100), hsize = (\<lambda>a. if a = 4096 then 2 else if a = 4128 then 3 else 0),
     freep = 100, ubase = 100\<rparr>"

theorem ufree_refines_witness:
  "\<exists>h'. ufree 4144 uheap_ex = Some h' \<and> free_list h' [(100, 0), (4096, 5)] \<and> bytes [(100, 0), (4096, 5)] = {4096..<4176}"
proof -
  let ?L = "[(100, 0), (4096, 2)]"
  have "free_list uheap_ex ?L" by (simp add: free_list_def uheap_ex_def)
  moreover have "returnable 4128 3 uheap_ex ?L" by (simp add: returnable_def uheap_ex_def)
  moreover have "insert_block 4128 3 ?L = [(100, 0), (4096, 5)]" by (simp add: insert_block_def)
  ultimately show ?thesis using ufree_refines [of uheap_ex ?L 4128 3] by auto
qed

text \<open>A break that starts at 8192 and a limit on each request.\<close>

definition sbrk_ex :: "nat sbrk" where
  "sbrk_ex n k = (if n > 2 ^ 20 then (-1, k) else (int (8192 + k), k + nat n))"

theorem malloc_takes_witness:
  "\<exists>r h' L'' k''. malloc sbrk_ex 100 (uheap_ex, 0) = Some (r, h', k'') \<and> r \<noteq> 0 \<and> free_list h' L'' \<and> returnable (r - 16) 8 h' L'' \<and>
     insert_block (r - 16) 8 L'' = [(100, 0), (4096, 2), (8192, 4096)]"
proof -
  let ?L = "[(100, 0), (4096, 2)] :: (nat \<times> nat) list"
  have "heap_ok uheap_ex ?L" by (simp add: heap_ok_def free_list_def uheap_ex_def)
  moreover have "sbrk_grows sbrk_ex uheap_ex ?L" by (auto simp: sbrk_grows_def sbrk_ex_def uheap_ex_def)
  moreover have "(8::nat) = (unat (100 :: u32) + 15) div 16 + 1" by simp
  moreover have "16 * core_units 8 < 2 ^ 31" "units ?L + core_units 8 < 2 ^ 32" by (simp_all add: core_units_def)
  moreover have "sbrk_ex (int (16 * core_units 8)) 0 = (8192, 65536)" by (simp add: sbrk_ex_def core_units_def)
  ultimately have "\<exists>r h' L'' k''. malloc sbrk_ex 100 (uheap_ex, 0) = Some (r, h', k'') \<and>
    (if r = 0 then free_list h' ?L \<and> (\<forall>(c, m) \<in> set ?L. m < 8) \<and> (8192::int) = -1
     else free_list h' L'' \<and> returnable (r - 16) 8 h' L'' \<and> unat (100 :: u32) \<le> 16 * (8 - 1) \<and>
       insert_block (r - 16) 8 L'' = (if \<forall>(c, m) \<in> set ?L. m < 8 then insert_block (nat 8192) (core_units 8) ?L else ?L))"
    by (rule malloc_takes)
  moreover have "insert_block 8192 (core_units 8) ?L = [(100, 0), (4096, 2), (8192, 4096)]" by (simp add: insert_block_def core_units_def)
  ultimately show ?thesis by (elim exE conjE) (auto split: if_splits)
qed

end
