(* ===== verification/Asm.thy ===== *)
theory Asm
  imports Trap
begin

section \<open>The assembly of the kernel\<close>

text \<open>
  \<^verbatim>\<open>kernel/trampoline.S\<close>, \<^verbatim>\<open>kernel/swtch.S\<close>, \<^verbatim>\<open>kernel/kernelvec.S\<close> and \<^verbatim>\<open>kernel/entry.S\<close> as lists of instructions, with an
  interpreter for the instructions they use. The state of the interpreter is the registers and the kernel state: the
  control registers are those of \<open>khart\<close>, which the C code reads and writes too, and memory is that of the C code.
\<close>

subsection \<open>Registers and instructions\<close>

datatype reg =
    ZERO | RA | SP | GP | TP | T0 | T1 | T2 | T3 | T4 | T5 | T6
  | A0 | A1 | A2 | A3 | A4 | A5 | A6 | A7
  | S0 | S1 | S2 | S3 | S4 | S5 | S6 | S7 | S8 | S9 | S10 | S11

datatype csr = SSCRATCH | SATP | MSCRATCH | SIP | MHARTID

datatype instr =
    Sd reg u64 reg
  | Ld reg u64 reg
  | Csrrw reg csr reg
  | Csrr reg csr
  | Csrw csr reg
  | Sfence_vma
  | Addi reg reg u64
  | Add reg reg reg
  | Mul reg reg reg
  | Li reg u64
  | Call string
  | Jr reg
  | Sret
  | Mret

text \<open>
  The registers sp, tp and ra are fields of the record \<open>hart\<close>, where \<^verbatim>\<open>r_sp\<close>, \<^verbatim>\<open>r_tp\<close> and \<^verbatim>\<open>r_ra\<close> find them; the register zero reads
  as 0 and ignores writes.
\<close>

type_synonym 'z asm_state = "(reg \<Rightarrow> u64) \<times> 'z kvm_scheme"

definition xreg :: "'z asm_state \<Rightarrow> reg \<Rightarrow> u64" where
  "xreg st r =
     (let h = khart (snd st) in
      if r = ZERO then 0 else if r = SP then reg_sp h else if r = TP then reg_tp h else if r = RA then reg_ra h else fst st r)"

definition set_xreg :: "reg \<Rightarrow> u64 \<Rightarrow> 'z asm_state \<Rightarrow> 'z asm_state" where
  "set_xreg r v st =
     (if r = ZERO then st
      else if r = SP then (fst st, upd_hart (\<lambda>h. h\<lparr>reg_sp := v\<rparr>) (snd st))
      else if r = TP then (fst st, upd_hart (\<lambda>h. h\<lparr>reg_tp := v\<rparr>) (snd st))
      else if r = RA then (fst st, upd_hart (\<lambda>h. h\<lparr>reg_ra := v\<rparr>) (snd st))
      else ((fst st)(r := v), snd st))"

definition get_csr :: "csr \<Rightarrow> 'z asm_state \<Rightarrow> u64" where
  "get_csr c st =
     (let h = khart (snd st) in
      case c of SSCRATCH \<Rightarrow> reg_sscratch h | SATP \<Rightarrow> reg_satp h | MSCRATCH \<Rightarrow> reg_mscratch h | SIP \<Rightarrow> reg_sip h | MHARTID \<Rightarrow> reg_mhartid h)"

definition set_csr :: "csr \<Rightarrow> u64 \<Rightarrow> 'z asm_state \<Rightarrow> 'z asm_state" where
  "set_csr c v st =
     (fst st, upd_hart (\<lambda>h.
        case c of
          SSCRATCH \<Rightarrow> h\<lparr>reg_sscratch := v\<rparr>
        | SATP \<Rightarrow> h\<lparr>reg_satp := v\<rparr>
        | MSCRATCH \<Rightarrow> h\<lparr>reg_mscratch := v\<rparr>
        | SIP \<Rightarrow> h\<lparr>reg_sip := v\<rparr>
        | MHARTID \<Rightarrow> h) (snd st))"

text \<open>
  Address translation. Machine mode and a zero \<^verbatim>\<open>satp\<close> use addresses as they are; otherwise the tables under the root in
  \<^verbatim>\<open>satp\<close> are walked, and the page must be valid, allow the access and not be a user page (\<^verbatim>\<open>sstatus.SUM\<close> is never set).
  All leaves of xv6's tables are at level 0.
\<close>

definition satp_root :: "u64 \<Rightarrow> u64" where
  "satp_root satp = push_bit 12 (take_bit 44 satp)"

definition phys :: "bool \<Rightarrow> bool \<Rightarrow> u64 \<Rightarrow> memory \<Rightarrow> u64 \<Rightarrow> u64 option" where
  "phys wr machine satp m va =
     (if machine \<or> satp = 0 then Some va
      else if va \<ge> MAXVA then None
      else
        (let page = PGROUNDDOWN va; pte = walk_ro 2 m (satp_root satp) page; e = load64 m pte in
         if pte = 0 \<or> e AND PTE_V = 0 \<or> e AND (if wr then PTE_W else PTE_R) = 0 \<or> e AND PTE_U \<noteq> 0 then None
         else Some (PTE2PA e + (va - page))))"

definition ram :: "'z asm_state \<Rightarrow> memory" where
  "ram st = mem (snd st)"

definition set_ram :: "memory \<Rightarrow> 'z asm_state \<Rightarrow> 'z asm_state" where
  "set_ram m st = (fst st, set_mem m (snd st))"

definition st_phys :: "bool \<Rightarrow> bool \<Rightarrow> 'z asm_state \<Rightarrow> u64 \<Rightarrow> u64 option" where
  "st_phys wr machine st va = phys wr machine (get_csr SATP st) (ram st) va"

subsection \<open>Execution\<close>

text \<open>How a piece of code ends: at a jump, a call (with the code after it), a return from a trap, or a page fault.\<close>

datatype 's asm_exit = Jumped u64 's | Called string "instr list" 's | SretTo 's | MretTo 's | PageFault | Ended 's

fun run_asm :: "bool \<Rightarrow> instr list \<Rightarrow> 'z asm_state \<Rightarrow> 'z asm_state asm_exit" where
  "run_asm mm [] st = Ended st"
| "run_asm mm (Sd r off b # is) st =
     (case st_phys True mm st (xreg st b + off) of
        None \<Rightarrow> PageFault
      | Some a \<Rightarrow> run_asm mm is (set_ram (store64 (ram st) a (xreg st r)) st))"
| "run_asm mm (Ld r off b # is) st =
     (case st_phys False mm st (xreg st b + off) of
        None \<Rightarrow> PageFault
      | Some a \<Rightarrow> run_asm mm is (set_xreg r (load64 (ram st) a) st))"
| "run_asm mm (Csrrw r c r' # is) st = run_asm mm is (set_xreg r (get_csr c st) (set_csr c (xreg st r') st))"
| "run_asm mm (Csrr r c # is) st = run_asm mm is (set_xreg r (get_csr c st) st)"
| "run_asm mm (Csrw c r # is) st = run_asm mm is (set_csr c (xreg st r) st)"
| "run_asm mm (Sfence_vma # is) st = run_asm mm is st"
| "run_asm mm (Addi r r1 n # is) st = run_asm mm is (set_xreg r (xreg st r1 + n) st)"
| "run_asm mm (Add r r1 r2 # is) st = run_asm mm is (set_xreg r (xreg st r1 + xreg st r2) st)"
| "run_asm mm (Mul r r1 r2 # is) st = run_asm mm is (set_xreg r (xreg st r1 * xreg st r2) st)"
| "run_asm mm (Li r n # is) st = run_asm mm is (set_xreg r n st)"
| "run_asm mm (Call f # is) st = Called f is st"
| "run_asm mm (Jr r # is) st = Jumped (xreg st r) st"
| "run_asm mm (Sret # is) st = SretTo st"
| "run_asm mm (Mret # is) st = MretTo st"

subsection \<open>The code\<close>

definition uservec :: "instr list" where
  "uservec = [
     Csrrw A0 SSCRATCH A0,
     Sd RA 40 A0, Sd SP 48 A0, Sd GP 56 A0, Sd TP 64 A0, Sd T0 72 A0, Sd T1 80 A0, Sd T2 88 A0, Sd S0 96 A0, Sd S1 104 A0,
     Sd A1 120 A0, Sd A2 128 A0, Sd A3 136 A0, Sd A4 144 A0, Sd A5 152 A0, Sd A6 160 A0, Sd A7 168 A0,
     Sd S2 176 A0, Sd S3 184 A0, Sd S4 192 A0, Sd S5 200 A0, Sd S6 208 A0, Sd S7 216 A0, Sd S8 224 A0, Sd S9 232 A0,
     Sd S10 240 A0, Sd S11 248 A0, Sd T3 256 A0, Sd T4 264 A0, Sd T5 272 A0, Sd T6 280 A0,
     Csrr T0 SSCRATCH, Sd T0 112 A0,
     Ld SP 8 A0, Ld TP 32 A0, Ld T0 16 A0, Ld T1 0 A0, Csrw SATP T1, Sfence_vma,
     Jr T0]"

definition userret :: "instr list" where
  "userret = [
     Csrw SATP A1, Sfence_vma,
     Ld T0 112 A0, Csrw SSCRATCH T0,
     Ld RA 40 A0, Ld SP 48 A0, Ld GP 56 A0, Ld TP 64 A0, Ld T0 72 A0, Ld T1 80 A0, Ld T2 88 A0, Ld S0 96 A0, Ld S1 104 A0,
     Ld A1 120 A0, Ld A2 128 A0, Ld A3 136 A0, Ld A4 144 A0, Ld A5 152 A0, Ld A6 160 A0, Ld A7 168 A0,
     Ld S2 176 A0, Ld S3 184 A0, Ld S4 192 A0, Ld S5 200 A0, Ld S6 208 A0, Ld S7 216 A0, Ld S8 224 A0, Ld S9 232 A0,
     Ld S10 240 A0, Ld S11 248 A0, Ld T3 256 A0, Ld T4 264 A0, Ld T5 272 A0, Ld T6 280 A0,
     Csrrw A0 SSCRATCH A0,
     Sret]"

definition swtch :: "instr list" where
  "swtch = [
     Sd RA 0 A0, Sd SP 8 A0, Sd S0 16 A0, Sd S1 24 A0, Sd S2 32 A0, Sd S3 40 A0, Sd S4 48 A0, Sd S5 56 A0, Sd S6 64 A0,
     Sd S7 72 A0, Sd S8 80 A0, Sd S9 88 A0, Sd S10 96 A0, Sd S11 104 A0,
     Ld RA 0 A1, Ld SP 8 A1, Ld S0 16 A1, Ld S1 24 A1, Ld S2 32 A1, Ld S3 40 A1, Ld S4 48 A1, Ld S5 56 A1, Ld S6 64 A1,
     Ld S7 72 A1, Ld S8 80 A1, Ld S9 88 A1, Ld S10 96 A1, Ld S11 104 A1,
     Jr RA]"

definition kernelvec :: "instr list" where
  "kernelvec = [
     Addi SP SP (-256),
     Sd RA 0 SP, Sd SP 8 SP, Sd GP 16 SP, Sd TP 24 SP, Sd T0 32 SP, Sd T1 40 SP, Sd T2 48 SP, Sd S0 56 SP, Sd S1 64 SP,
     Sd A0 72 SP, Sd A1 80 SP, Sd A2 88 SP, Sd A3 96 SP, Sd A4 104 SP, Sd A5 112 SP, Sd A6 120 SP, Sd A7 128 SP,
     Sd S2 136 SP, Sd S3 144 SP, Sd S4 152 SP, Sd S5 160 SP, Sd S6 168 SP, Sd S7 176 SP, Sd S8 184 SP, Sd S9 192 SP,
     Sd S10 200 SP, Sd S11 208 SP, Sd T3 216 SP, Sd T4 224 SP, Sd T5 232 SP, Sd T6 240 SP,
     Call ''kerneltrap'',
     Ld RA 0 SP, Ld SP 8 SP, Ld GP 16 SP, Ld T0 32 SP, Ld T1 40 SP, Ld T2 48 SP, Ld S0 56 SP, Ld S1 64 SP,
     Ld A0 72 SP, Ld A1 80 SP, Ld A2 88 SP, Ld A3 96 SP, Ld A4 104 SP, Ld A5 112 SP, Ld A6 120 SP, Ld A7 128 SP,
     Ld S2 136 SP, Ld S3 144 SP, Ld S4 152 SP, Ld S5 160 SP, Ld S6 168 SP, Ld S7 176 SP, Ld S8 184 SP, Ld S9 192 SP,
     Ld S10 200 SP, Ld S11 208 SP, Ld T3 216 SP, Ld T4 224 SP, Ld T5 232 SP, Ld T6 240 SP,
     Addi SP SP 256,
     Sret]"

definition timervec :: "instr list" where
  "timervec = [
     Csrrw A0 MSCRATCH A0, Sd A1 0 A0, Sd A2 8 A0, Sd A3 16 A0,
     Ld A1 24 A0, Ld A2 32 A0, Ld A3 0 A1, Add A3 A3 A2, Sd A3 0 A1,
     Li A1 2, Csrw SIP A1,
     Ld A3 16 A0, Ld A2 8 A0, Ld A1 0 A0, Csrrw A0 MSCRATCH A0,
     Mret]"

text \<open>\<^verbatim>\<open>la sp, stack0\<close>: the address of \<^verbatim>\<open>stack0\<close> is the linker's. What follows the call of \<^verbatim>\<open>start\<close> is a loop.\<close>

definition kentry :: "u64 \<Rightarrow> instr list" where
  "kentry stack0 = [Li SP stack0, Li A0 (1024 * 4), Csrr A1 MHARTID, Addi A1 A1 1, Mul A0 A0 A1, Add SP SP A0, Call ''start'']"

subsection \<open>Laws of the state\<close>

lemma xreg_set_xreg [simp]: "xreg (set_xreg r v st) r' = (if r' = r \<and> r \<noteq> ZERO then v else xreg st r')"
  by (simp add: xreg_def set_xreg_def upd_hart_def Let_def)

lemma set_xreg_frame [simp]: "ram (set_xreg r v st) = ram st" "get_csr c (set_xreg r v st) = get_csr c st"
  by (simp_all add: set_xreg_def ram_def get_csr_def upd_hart_def Let_def split: csr.split)

lemma set_csr_frame [simp]: "ram (set_csr c v st) = ram st" "xreg (set_csr c v st) r = xreg st r"
  by (simp_all add: set_csr_def ram_def xreg_def upd_hart_def Let_def split: csr.split)

lemma get_set_csr [simp]: "get_csr c (set_csr c' v st) = (if c = c' \<and> c \<noteq> MHARTID then v else get_csr c st)"
  by (simp add: get_csr_def set_csr_def upd_hart_def Let_def split: csr.split)

lemma set_ram_frame [simp]: "ram (set_ram m st) = m" "xreg (set_ram m st) r = xreg st r" "get_csr c (set_ram m st) = get_csr c st"
  by (simp_all add: set_ram_def ram_def xreg_def get_csr_def set_mem_def Let_def)

text \<open>The rest of the kernel state, which no instruction touches.\<close>

definition other_regs :: "hart \<Rightarrow> hart" where
  "other_regs h = h\<lparr>reg_sp := 0, reg_tp := 0, reg_ra := 0, reg_satp := 0, reg_sscratch := 0, reg_mscratch := 0, reg_sip := 0\<rparr>"

definition same_os :: "'z kvm_scheme \<Rightarrow> 'z kvm_scheme \<Rightarrow> bool" where
  "same_os s t \<longleftrightarrow> s\<lparr>mem := mem t, khart := khart t\<rparr> = t \<and> other_regs (khart t) = other_regs (khart s)"

lemma same_os_refl [simp]: "same_os s s"
  by (simp add: same_os_def)

lemma same_os_trans: "same_os s t \<Longrightarrow> same_os t u \<Longrightarrow> same_os s u"
proof -
  assume st: "same_os s t" and tu: "same_os t u"
  have "t = s\<lparr>mem := mem t, khart := khart t\<rparr>" "u = t\<lparr>mem := mem u, khart := khart u\<rparr>" using st tu by (simp_all add: same_os_def)
  then have "u = s\<lparr>mem := mem t, khart := khart t\<rparr>\<lparr>mem := mem u, khart := khart u\<rparr>" by metis
  then have "u = s\<lparr>mem := mem u, khart := khart u\<rparr>" by simp
  then show "same_os s u" using st tu by (simp add: same_os_def)
qed

lemma same_os_sym: "same_os s t \<Longrightarrow> same_os t s"
proof -
  assume st: "same_os s t"
  then have "s\<lparr>mem := mem t, khart := khart t\<rparr> = t" by (simp add: same_os_def)
  then have "t\<lparr>mem := mem s, khart := khart s\<rparr> = s\<lparr>mem := mem t, khart := khart t\<rparr>\<lparr>mem := mem s, khart := khart s\<rparr>" by simp
  then have "t\<lparr>mem := mem s, khart := khart s\<rparr> = s" by simp
  then show "same_os t s" using st by (simp add: same_os_def)
qed

lemma same_os_step [simp]:
  "same_os s (snd (set_xreg r v st)) \<longleftrightarrow> same_os s (snd st)" "same_os s (snd (set_csr c v st)) \<longleftrightarrow> same_os s (snd st)"
  "same_os s (snd (set_ram m st)) \<longleftrightarrow> same_os s (snd st)"
proof -
  have "same_os (snd st) (snd (set_xreg r v st))" "same_os (snd st) (snd (set_csr c v st))" "same_os (snd st) (snd (set_ram m st))"
    by (simp_all add: same_os_def set_xreg_def set_csr_def set_ram_def set_mem_def upd_hart_def other_regs_def split: csr.split)
  then show "same_os s (snd (set_xreg r v st)) \<longleftrightarrow> same_os s (snd st)" "same_os s (snd (set_csr c v st)) \<longleftrightarrow> same_os s (snd st)"
    "same_os s (snd (set_ram m st)) \<longleftrightarrow> same_os s (snd st)"
    using same_os_trans same_os_sym by blast+
qed

subsection \<open>Saving and restoring registers\<close>

text \<open>
  Where \<open>n\<close> bytes at the virtual address \<open>va\<close> are the \<open>n\<close> bytes at \<open>pa\<close>, and writing them does not change that.
\<close>

definition window :: "nat \<Rightarrow> bool \<Rightarrow> u64 \<Rightarrow> memory \<Rightarrow> u64 \<Rightarrow> u64 \<Rightarrow> bool" where
  "window n mm satp m va pa \<longleftrightarrow>
     (\<forall>m' wr off. (\<forall>x. n \<le> unat (x - pa) \<longrightarrow> m' x = m x) \<longrightarrow> unat off + 8 \<le> n \<longrightarrow> phys wr mm satp m' (va + off) = Some (pa + off))"

lemma window_phys: "window n mm satp m va pa \<Longrightarrow> unat off + 8 \<le> n \<Longrightarrow> phys wr mm satp m (va + off) = Some (pa + off)"
  unfolding window_def by blast

lemma window_cong: "window n mm satp m va pa \<Longrightarrow> (\<And>x. n \<le> unat (x - pa) \<Longrightarrow> m' x = m x) \<Longrightarrow> window n mm satp m' va pa"
  unfolding window_def by simp

lemma window_machine: "mm \<or> satp = 0 \<Longrightarrow> window n mm satp m a a"
  by (simp add: window_def phys_def)

text \<open>Slots for registers: aligned offsets below \<open>n\<close>, no offset and no register twice.\<close>

definition slots_ok :: "nat \<Rightarrow> (reg \<times> u64) list \<Rightarrow> bool" where
  "slots_ok n ss \<longleftrightarrow> distinct (map fst ss) \<and> distinct (map snd ss) \<and> ZERO \<notin> fst ` set ss \<and>
     (\<forall>(r, off) \<in> set ss. unat off mod 8 = 0 \<and> unat off + 8 \<le> n)"

definition saves :: "(reg \<times> u64) list \<Rightarrow> reg \<Rightarrow> instr list" where
  "saves ss b = map (\<lambda>(r, off). Sd r off b) ss"

definition loads :: "(reg \<times> u64) list \<Rightarrow> reg \<Rightarrow> instr list" where
  "loads ss b = map (\<lambda>(r, off). Ld r off b) ss"

fun saved :: "u64 \<Rightarrow> (reg \<times> u64) list \<Rightarrow> 'z asm_state \<Rightarrow> 'z asm_state" where
  "saved pa [] st = st"
| "saved pa ((r, off) # ss) st = saved pa ss (set_ram (store64 (ram st) (pa + off) (xreg st r)) st)"

fun loaded :: "u64 \<Rightarrow> (reg \<times> u64) list \<Rightarrow> 'z asm_state \<Rightarrow> 'z asm_state" where
  "loaded pa [] st = st"
| "loaded pa ((r, off) # ss) st = loaded pa ss (set_xreg r (load64 (ram st) (pa + off)) st)"

lemma saved_frame [simp]:
  "xreg (saved pa ss st) r = xreg st r" "get_csr c (saved pa ss st) = get_csr c st" "same_os s (snd (saved pa ss st)) \<longleftrightarrow> same_os s (snd st)"
proof -
  show "xreg (saved pa ss st) r = xreg st r" "get_csr c (saved pa ss st) = get_csr c st"
    by (induction pa ss st rule: saved.induct) simp_all
  show "same_os s (snd (saved pa ss st)) \<longleftrightarrow> same_os s (snd st)" by (induction pa ss st rule: saved.induct) simp_all
qed

lemma loaded_frame [simp]: "ram (loaded pa ss st) = ram st" "get_csr c (loaded pa ss st) = get_csr c st" "same_os s (snd (loaded pa ss st)) \<longleftrightarrow> same_os s (snd st)"
proof -
  show "ram (loaded pa ss st) = ram st" "get_csr c (loaded pa ss st) = get_csr c st"
    by (induction pa ss st rule: loaded.induct) simp_all
  show "same_os s (snd (loaded pa ss st)) \<longleftrightarrow> same_os s (snd st)" by (induction pa ss st rule: loaded.induct) simp_all
qed


lemma slots_ok_ConsD: "slots_ok n ((r, off) # ss) \<Longrightarrow> slots_ok n ss \<and> r \<notin> fst ` set ss \<and> off \<notin> snd ` set ss \<and> r \<noteq> ZERO \<and> unat off mod 8 = 0 \<and> unat off + 8 \<le> n"
  by (auto simp: slots_ok_def)

lemma run_saves:
  "slots_ok n ss \<Longrightarrow> window n mm (get_csr SATP st) (ram st) (xreg st b) pa \<Longrightarrow>
    run_asm mm (saves ss b @ is) st = run_asm mm is (saved pa ss st)"
proof (induction pa ss st rule: saved.induct)
  case (2 pa r off ss st)
  have o: "unat off + 8 \<le> n" "slots_ok n ss" using slots_ok_ConsD [OF 2(2)] by simp_all
  let ?st = "set_ram (store64 (ram st) (pa + off) (xreg st r)) st"
  have "window n mm (get_csr SATP ?st) (ram ?st) (xreg ?st b) pa" using window_cong [OF 2(3)] store64_in [OF o(1)] by simp
  moreover have "st_phys True mm st (xreg st b + off) = Some (pa + off)" unfolding st_phys_def by (rule window_phys [OF 2(3) o(1)])
  ultimately show ?case using 2(1) o(2) by (simp add: saves_def)
qed (simp add: saves_def)

lemma run_loads:
  "slots_ok n ss \<Longrightarrow> window n mm (get_csr SATP st) (ram st) (xreg st b) pa \<Longrightarrow> b \<notin> fst ` set ss \<Longrightarrow>
    run_asm mm (loads ss b @ is) st = run_asm mm is (loaded pa ss st)"
proof (induction pa ss st rule: loaded.induct)
  case (2 pa r off ss st)
  have o: "unat off + 8 \<le> n" "slots_ok n ss" using slots_ok_ConsD [OF 2(2)] by simp_all
  have "st_phys False mm st (xreg st b + off) = Some (pa + off)" unfolding st_phys_def by (rule window_phys [OF 2(3) o(1)])
  then show ?case using 2 o(2) by (simp add: loads_def)
qed (simp add: loads_def)

text \<open>What is in memory after saving, and in the registers after loading.\<close>

lemma slots_apart:
  assumes "unat a mod 8 = 0" "unat b mod 8 = 0" "a \<noteq> b" "unat a + 8 \<le> n" "unat b + 8 \<le> n" "n < 2 ^ 63"
  shows "apart (pa + a) 8 (pa + b) 8"
proof -
  have *: "8 \<le> unat (x - y) \<and> 8 \<le> unat (y - x)"
    if "unat x mod 8 = 0" "unat y mod 8 = 0" "unat x < unat y" "unat y < 2 ^ 63" for x y :: u64
  proof -
    have d: "unat (y - x) = unat y - unat x" using that(3) by (intro unat_minus_le) (simp add: word_le_nat_alt)
    moreover have "8 dvd unat y - unat x" using that(1,2) by (intro dvd_diff_nat) auto
    ultimately have "8 \<le> unat (y - x)" using that(3) by (auto dest: dvd_imp_le)
    moreover have "unat (x - y) = 2 ^ 64 - (unat y - unat x)" using unat_uminus [of "y - x"] d that(3) by auto
    ultimately show ?thesis using that(4) by simp
  qed
  have "unat a \<noteq> unat b" using assms(3) unat_eqI by blast
  then consider "unat a < unat b" | "unat b < unat a" by linarith
  then show ?thesis using * [of a b] * [of b a] assms by cases (simp_all add: apart_def)
qed

lemma slots_ok_mem:
  assumes "slots_ok n ss" and "(r, off) \<in> set ss"
  shows "unat off mod 8 = 0" and "unat off + 8 \<le> n" and "map_of ss r = Some off" and "map_of (map prod.swap ss) off = Some r"
proof -
  show "unat off mod 8 = 0" "unat off + 8 \<le> n" "map_of ss r = Some off" using assms by (auto simp: slots_ok_def)
  have "map fst (map prod.swap ss) = map snd ss" by simp
  then have "distinct (map fst (map prod.swap ss))" using assms(1) unfolding slots_ok_def by metis
  then show "map_of (map prod.swap ss) off = Some r" using assms(2) by (intro map_of_is_SomeI) (assumption, force)
qed

lemma ram_saved:
  "slots_ok n ss \<Longrightarrow> n < 2 ^ 63 \<Longrightarrow> unat off mod 8 = 0 \<Longrightarrow> unat off + 8 \<le> n \<Longrightarrow>
    load64 (ram (saved pa ss st)) (pa + off) =
      (case map_of (map prod.swap ss) off of Some r \<Rightarrow> xreg st r | None \<Rightarrow> load64 (ram st) (pa + off))"
proof (induction pa ss st rule: saved.induct)
  case (2 pa r o' ss st)
  note c = slots_ok_ConsD [OF 2(2)]
  have no: "map_of (map prod.swap ss) o' = None" using c by (force simp: map_of_eq_None_iff)
  show ?case
  proof (cases "off = o'")
    case True
    then show ?thesis using 2 c no by simp
  next
    case False
    then have "apart (pa + off) 8 (pa + o') 8" using slots_apart [of off o' n pa] 2(3-5) c by simp
    then show ?thesis using 2 c False by (simp add: load64_store64_apart split: option.split)
  qed
qed simp

lemma ram_saved_outside:
  "slots_ok n ss \<Longrightarrow> n \<le> unat (x - pa) \<Longrightarrow> ram (saved pa ss st) x = ram st x"
proof (induction pa ss st rule: saved.induct)
  case (2 pa r o' ss st)
  then show ?case using slots_ok_ConsD [OF 2(2)] by (simp add: store64_in [of _ n])
qed simp

lemma xreg_loaded:
  "slots_ok n ss \<Longrightarrow> xreg (loaded pa ss st) r = (case map_of ss r of Some off \<Rightarrow> load64 (ram st) (pa + off) | None \<Rightarrow> xreg st r)"
proof (induction pa ss st rule: loaded.induct)
  case (2 pa r' off ss st)
  note c = slots_ok_ConsD [OF 2(2)]
  have "map_of ss r' = None" using c by (simp add: map_of_eq_None_iff)
  then show ?case using 2 c by (simp split: option.split)
qed simp


subsection \<open>The context switch\<close>

text \<open>The slots of \<^verbatim>\<open>struct context\<close>.\<close>

definition ctx_slots :: "(reg \<times> u64) list" where
  "ctx_slots = [(RA, 0), (SP, 8), (S0, 16), (S1, 24), (S2, 32), (S3, 40), (S4, 48), (S5, 56), (S6, 64), (S7, 72), (S8, 80),
     (S9, 88), (S10, 96), (S11, 104)]"

lemma ctx_slots_ok: "slots_ok 112 ctx_slots"
  by (simp add: slots_ok_def ctx_slots_def)

lemma swtch_slots: "swtch = saves ctx_slots A0 @ loads ctx_slots A1 @ [Jr RA]"
  by (simp add: swtch_def saves_def loads_def ctx_slots_def)

text \<open>a0 and a1 point to two contexts, at \<open>old\<close> and \<open>new\<close>, that do not overlap each other or the tables that map them.\<close>

definition contexts :: "bool \<Rightarrow> 'z asm_state \<Rightarrow> u64 \<Rightarrow> u64 \<Rightarrow> bool" where
  "contexts mm st old new \<longleftrightarrow> window 112 mm (get_csr SATP st) (ram st) (xreg st A0) old \<and>
     (\<forall>x. unat (x - new) < 112 \<longrightarrow> 112 \<le> unat (x - old)) \<and>
     (\<forall>m'. (\<forall>x. 112 \<le> unat (x - old) \<longrightarrow> m' x = ram st x) \<longrightarrow> window 112 mm (get_csr SATP st) m' (xreg st A1) new)"

lemma swtch_ok:
  assumes c: "contexts mm st old new"
  shows "run_asm mm swtch st = Jumped (load64 (ram st) new) (loaded new ctx_slots (saved old ctx_slots st))"
    and "(r, off) \<in> set ctx_slots \<Longrightarrow> xreg (loaded new ctx_slots (saved old ctx_slots st)) r = load64 (ram st) (new + off)"
    and "(r, off) \<in> set ctx_slots \<Longrightarrow> load64 (ram (loaded new ctx_slots (saved old ctx_slots st))) (old + off) = xreg st r"
    and "r \<notin> fst ` set ctx_slots \<Longrightarrow> xreg (loaded new ctx_slots (saved old ctx_slots st)) r = xreg st r"
proof -
  have wo: "window 112 mm (get_csr SATP st) (ram st) (xreg st A0) old"
    and ap: "\<And>x. unat (x - new) < 112 \<Longrightarrow> 112 \<le> unat (x - old)"
    and keep: "\<And>m'. (\<And>x. 112 \<le> unat (x - old) \<Longrightarrow> m' x = ram st x) \<Longrightarrow> window 112 mm (get_csr SATP st) m' (xreg st A1) new"
    using c unfolding contexts_def by blast+
  let ?s = "saved old ctx_slots st"
  note o = ctx_slots_ok and out = ram_saved_outside [OF ctx_slots_ok, of _ old st]
  have new: "load64 (ram ?s) (new + off) = load64 (ram st) (new + off)" if "unat off + 8 \<le> 112" for off
    using that by (rule load64_in) (simp, rule out [OF ap])
  have w: "window 112 mm (get_csr SATP ?s) (ram ?s) (xreg ?s A1) new" using keep [of "ram ?s"] out by simp
  show x: "xreg (loaded new ctx_slots ?s) r = load64 (ram st) (new + off)" if "(r, off) \<in> set ctx_slots" for r off
    using xreg_loaded [OF o, of new ?s r] new slots_ok_mem [OF o that] by simp
  have "run_asm mm swtch st = run_asm mm (loads ctx_slots A1 @ [Jr RA]) ?s" unfolding swtch_slots by (rule run_saves [OF o wo])
  also have "\<dots> = run_asm mm [Jr RA] (loaded new ctx_slots ?s)" by (rule run_loads [OF o w]) (simp add: ctx_slots_def)
  finally show "run_asm mm swtch st = Jumped (load64 (ram st) new) (loaded new ctx_slots ?s)"
    using x [of RA 0] by (simp add: ctx_slots_def)
  show "load64 (ram (loaded new ctx_slots ?s)) (old + off) = xreg st r" if "(r, off) \<in> set ctx_slots" for r off
    using ram_saved [OF o, of off old st] slots_ok_mem [OF o that] by simp
  show "r \<notin> fst ` set ctx_slots \<Longrightarrow> xreg (loaded new ctx_slots ?s) r = xreg st r"
    using xreg_loaded [OF o, of new ?s r] by (simp add: map_of_eq_None_iff [THEN iffD2])
qed


text \<open>
  C16. A thread that calls \<^verbatim>\<open>swtch\<close> goes on where the other thread stopped, with the callee-saved registers from its context;
  all other registers are untouched. Whenever some later call of \<^verbatim>\<open>swtch\<close> loads the context that was saved, and its 112
  bytes are as they were left, that call returns to the caller of the first one, with its stack pointer and
  callee-saved registers.
\<close>

theorem swtch_resumes:
  fixes st :: "'z asm_state"
  assumes "contexts mm st old new"
  shows "\<exists>st1. run_asm mm swtch st = Jumped (load64 (ram st) new) st1 \<and>
    (\<forall>r. xreg st1 r = (case map_of ctx_slots r of Some off \<Rightarrow> load64 (ram st) (new + off) | None \<Rightarrow> xreg st r)) \<and>
    same_os (snd st) (snd st1) \<and>
    (\<forall>(st2 :: 'z asm_state) old2. contexts mm st2 old2 old \<longrightarrow> (\<forall>x. unat (x - old) < 112 \<longrightarrow> ram st2 x = ram st1 x) \<longrightarrow>
      (\<exists>st3. run_asm mm swtch st2 = Jumped (xreg st RA) st3 \<and>
        (\<forall>r. xreg st3 r = (if r \<in> fst ` set ctx_slots then xreg st r else xreg st2 r))))"
proof -
  let ?st1 = "loaded new ctx_slots (saved old ctx_slots st)"
  have "xreg ?st1 r = (case map_of ctx_slots r of Some off \<Rightarrow> load64 (ram st) (new + off) | None \<Rightarrow> xreg st r)" for r
  proof (cases "map_of ctx_slots r")
    case None
    then have "r \<notin> fst ` set ctx_slots" by (simp add: map_of_eq_None_iff)
    then show ?thesis using swtch_ok(4) [OF assms] None by simp
  next
    case (Some off)
    then show ?thesis using swtch_ok(2) [OF assms map_of_SomeD [OF Some]] by simp
  qed
  moreover have "same_os (snd st) (snd ?st1)" by simp
  moreover have "\<exists>st3. run_asm mm swtch st2 = Jumped (xreg st RA) st3 \<and>
      (\<forall>r. xreg st3 r = (if r \<in> fst ` set ctx_slots then xreg st r else xreg st2 r))"
    if c: "contexts mm st2 old2 old" and same: "\<And>x. unat (x - old) < 112 \<Longrightarrow> ram st2 x = ram ?st1 x" for st2 :: "'z asm_state" and old2
  proof -
    have prior: "load64 (ram st2) (old + off) = xreg st r" if "(r, off) \<in> set ctx_slots" for r off
    proof -
      have "load64 (ram st2) (old + off) = load64 (ram ?st1) (old + off)"
        using slots_ok_mem(2) [OF ctx_slots_ok that] by (rule load64_in) (simp, rule same)
      then show ?thesis using swtch_ok(3) [OF assms that] by simp
    qed
    let ?st3 = "loaded old ctx_slots (saved old2 ctx_slots st2)"
    have "load64 (ram st2) old = xreg st RA" using prior [of RA 0] by (simp add: ctx_slots_def)
    moreover have "xreg ?st3 r = (if r \<in> fst ` set ctx_slots then xreg st r else xreg st2 r)" for r
      using swtch_ok(2,4) [OF c, of r] prior by auto
    ultimately show ?thesis using swtch_ok(1) [OF c] by auto
  qed
  ultimately show ?thesis using swtch_ok(1) [OF assms] by blast
qed

subsection \<open>Traps in the kernel\<close>

text \<open>The slots on the stack; tp is saved but not restored.\<close>

definition kv_slots :: "(reg \<times> u64) list" where
  "kv_slots = [(GP, 16), (T0, 32), (T1, 40), (T2, 48), (S0, 56), (S1, 64), (A0, 72), (A1, 80), (A2, 88), (A3, 96), (A4, 104),
     (A5, 112), (A6, 120), (A7, 128), (S2, 136), (S3, 144), (S4, 152), (S5, 160), (S6, 168), (S7, 176), (S8, 184), (S9, 192),
     (S10, 200), (S11, 208), (T3, 216), (T4, 224), (T5, 232), (T6, 240)]"

definition kv_saved :: "(reg \<times> u64) list" where
  "kv_saved = [(RA, 0), (SP, 8), (GP, 16), (TP, 24)] @ tl kv_slots"

definition kernelvec_rest :: "instr list" where
  "kernelvec_rest = loads [(RA, 0)] SP @ Ld SP 8 SP # loads kv_slots SP @ [Addi SP SP 256, Sret]"

lemma kv_slots_ok: "slots_ok 256 kv_slots" "slots_ok 256 kv_saved" "slots_ok 256 [(RA, 0)]"
  by (simp_all add: slots_ok_def kv_saved_def kv_slots_def)

lemma kernelvec_slots: "kernelvec = Addi SP SP (-256) # saves kv_saved SP @ Call ''kerneltrap'' # kernelvec_rest"
  by (simp add: kernelvec_def kernelvec_rest_def saves_def loads_def kv_saved_def kv_slots_def)

lemma kv_regs: "r = ZERO \<or> r = RA \<or> r = SP \<or> r = TP \<or> r \<in> fst ` set kv_slots"
  by (cases r) (simp_all add: kv_slots_def)


lemma kernelvec_rest_ok:
  assumes w: "window 256 mm (get_csr SATP st) (ram st) (xreg st SP) pa" and sp: "load64 (ram st) (pa + 8) = xreg st SP"
  obtains st3 where "run_asm mm kernelvec_rest st = SretTo st3" and "same_os (snd st) (snd st3)" and "ram st3 = ram st"
    and "\<And>c. get_csr c st3 = get_csr c st"
    and "\<And>r. xreg st3 r = (if r = RA then load64 (ram st) pa else if r = SP then xreg st SP + 256 else
      case map_of kv_slots r of Some off \<Rightarrow> load64 (ram st) (pa + off) | None \<Rightarrow> xreg st r)"
proof -
  let ?a = "loaded pa [(RA, 0)] st"
  let ?b = "set_xreg SP (load64 (ram ?a) (pa + 8)) ?a"
  let ?c = "loaded pa kv_slots ?b"
  let ?d = "set_xreg SP (xreg ?c SP + 256) ?c"
  have "run_asm mm kernelvec_rest st = run_asm mm (Ld SP 8 SP # loads kv_slots SP @ [Addi SP SP 256, Sret]) ?a"
    unfolding kernelvec_rest_def by (rule run_loads [OF kv_slots_ok(3) w]) simp
  also have "\<dots> = run_asm mm (loads kv_slots SP @ [Addi SP SP 256, Sret]) ?b"
    using window_phys [OF w, of 8 False] by (simp add: st_phys_def)
  also have "\<dots> = run_asm mm [Addi SP SP 256, Sret] ?c" by (rule run_loads [OF kv_slots_ok(1)]) (use w sp in \<open>simp_all add: kv_slots_def\<close>)
  finally have "run_asm mm kernelvec_rest st = SretTo ?d" by simp
  moreover have "same_os (snd st) (snd ?d)" by simp
  moreover have "xreg ?d r = (if r = RA then load64 (ram st) pa else if r = SP then xreg st SP + 256 else
      case map_of kv_slots r of Some off \<Rightarrow> load64 (ram st) (pa + off) | None \<Rightarrow> xreg st r)" for r
    using sp xreg_loaded [OF kv_slots_ok(1), of pa ?b] by (auto simp: kv_slots_def split: option.split)
  ultimately show ?thesis by (intro that [of ?d]) simp_all
qed

text \<open>What \<^verbatim>\<open>kernelvec\<close> saved, loaded again by the code after the call.\<close>

lemma kernelvec_back:
  assumes w: "window 256 mm (get_csr SATP st2) (ram st2) (xreg st2 SP) pa" and sp: "xreg st2 SP = xreg st SP"
    and same: "\<And>x. unat (x - pa) < 256 \<Longrightarrow> ram st2 x = ram (saved pa kv_saved st) x"
  shows "\<exists>st3. run_asm mm kernelvec_rest st2 = SretTo st3 \<and> same_os (snd st2) (snd st3) \<and> ram st3 = ram st2 \<and>
    (\<forall>c. get_csr c st3 = get_csr c st2) \<and>
    (\<forall>r. xreg st3 r = (if r = TP then xreg st2 TP else if r = SP then xreg st SP + 256 else xreg st r))"
proof -
  have slot: "load64 (ram st2) (pa + off) = xreg st r" if m: "(r, off) \<in> set kv_saved" for r off
  proof -
    note o = slots_ok_mem [OF kv_slots_ok(2) m]
    have "load64 (ram st2) (pa + off) = load64 (ram (saved pa kv_saved st)) (pa + off)" using o(2) by (rule load64_in) (simp, rule same)
    then show ?thesis using ram_saved [OF kv_slots_ok(2), of off pa st] o by simp
  qed
  have s8: "load64 (ram st2) (pa + 8) = xreg st2 SP" using slot [of SP 8] sp by (simp add: kv_saved_def)
  obtain st3 where st3: "run_asm mm kernelvec_rest st2 = SretTo st3" "same_os (snd st2) (snd st3)" "ram st3 = ram st2"
    "\<And>c. get_csr c st3 = get_csr c st2" "\<And>r. xreg st3 r = (if r = RA then load64 (ram st2) pa else if r = SP then xreg st2 SP + 256 else
      case map_of kv_slots r of Some off \<Rightarrow> load64 (ram st2) (pa + off) | None \<Rightarrow> xreg st2 r)"
    by (rule kernelvec_rest_ok [OF w s8], rule that)
  have ra: "load64 (ram st2) pa = xreg st RA" using slot [of RA 0] by (simp add: kv_saved_def)
  have "xreg st3 r = (if r = TP then xreg st2 TP else if r = SP then xreg st SP + 256 else xreg st r)" for r
  proof (cases "map_of kv_slots r")
    case None
    then have "r = ZERO \<or> r = RA \<or> r = SP \<or> r = TP" using kv_regs [of r] by (auto simp: map_of_eq_None_iff)
    then show ?thesis using st3(5) [of r] ra None sp by (auto simp: xreg_def)
  next
    case (Some off)
    then have m: "(r, off) \<in> set kv_slots" by (rule map_of_SomeD)
    then have "(r, off) \<in> set kv_saved" by (simp add: kv_saved_def kv_slots_def) argo
    moreover have "r \<noteq> SP" "r \<noteq> TP" "r \<noteq> RA" using Some by (auto simp: kv_slots_def)
    ultimately show ?thesis using st3(5) [of r] Some slot by simp
  qed
  then show ?thesis using st3(1-4) by blast
qed

text \<open>
  C17. A trap in the kernel is invisible to the code it interrupts. \<^verbatim>\<open>kernelvec\<close> calls \<^verbatim>\<open>kerneltrap\<close> 256 bytes further down the stack with
  the other registers as they were. When that returns with its stack pointer and the 256 bytes above it as it found them,
  possibly on another hart, the code executes \<^verbatim>\<open>sret\<close> with every register as it was at the trap, except for tp, which is that of
  the hart it runs on now.
\<close>

theorem kernelvec_transparent:
  fixes st :: "'z asm_state"
  assumes w: "window 256 mm (get_csr SATP st) (ram st) (xreg st SP - 256) pa"
  shows "\<exists>rest st1. run_asm mm kernelvec st = Called ''kerneltrap'' rest st1 \<and> same_os (snd st) (snd st1) \<and>
    (\<forall>r. xreg st1 r = (if r = SP then xreg st SP - 256 else xreg st r)) \<and> (\<forall>x. 256 \<le> unat (x - pa) \<longrightarrow> ram st1 x = ram st x) \<and>
    (\<forall>st2 :: 'z asm_state. window 256 mm (get_csr SATP st2) (ram st2) (xreg st2 SP) pa \<longrightarrow> xreg st2 SP = xreg st1 SP \<longrightarrow>
      (\<forall>x. unat (x - pa) < 256 \<longrightarrow> ram st2 x = ram st1 x) \<longrightarrow>
      (\<exists>st3. run_asm mm rest st2 = SretTo st3 \<and> same_os (snd st2) (snd st3) \<and> ram st3 = ram st2 \<and>
        (\<forall>c. get_csr c st3 = get_csr c st2) \<and> (\<forall>r. xreg st3 r = (if r = TP then xreg st2 TP else xreg st r))))"
proof -
  let ?a = "set_xreg SP (xreg st SP - 256) st"
  let ?b = "saved pa kv_saved ?a"
  have run: "run_asm mm kernelvec st = Called ''kerneltrap'' kernelvec_rest ?b"
    using run_saves [OF kv_slots_ok(2), of mm ?a SP pa] w by (simp add: kernelvec_slots)
  have regs: "xreg ?b r = (if r = SP then xreg st SP - 256 else xreg st r)" for r by simp
  have out: "256 \<le> unat (x - pa) \<Longrightarrow> ram ?b x = ram st x" for x using ram_saved_outside [OF kv_slots_ok(2), of x pa ?a] by simp
  have os: "same_os (snd st) (snd ?b)" by simp
  have "\<exists>st3. run_asm mm kernelvec_rest st2 = SretTo st3 \<and> same_os (snd st2) (snd st3) \<and> ram st3 = ram st2 \<and>
      (\<forall>c. get_csr c st3 = get_csr c st2) \<and> (\<forall>r. xreg st3 r = (if r = TP then xreg st2 TP else xreg st r))"
    if w2: "window 256 mm (get_csr SATP st2) (ram st2) (xreg st2 SP) pa" and sp2: "xreg st2 SP = xreg ?b SP"
      and same: "\<And>x. unat (x - pa) < 256 \<Longrightarrow> ram st2 x = ram ?b x" for st2 :: "'z asm_state"
  proof -
    have "xreg st2 SP = xreg ?a SP" using sp2 by simp
    note back' = kernelvec_back [OF w2 this same]
    have "(if r = TP then xreg st2 TP else if r = SP then xreg ?a SP + 256 else xreg ?a r) = (if r = TP then xreg st2 TP else xreg st r)" for r by simp
    then show ?thesis using back' by simp
  qed
  then show ?thesis using run regs out os by blast
qed


subsection \<open>The timer interrupt\<close>

definition tv_slots :: "(reg \<times> u64) list" where
  "tv_slots = [(A1, 0), (A2, 8), (A3, 16)]"

definition timervec_rest :: "instr list" where
  "timervec_rest = [Ld A1 24 A0, Ld A2 32 A0, Ld A3 0 A1, Add A3 A3 A2, Sd A3 0 A1, Li A1 2, Csrw SIP A1,
     Ld A3 16 A0, Ld A2 8 A0, Ld A1 0 A0, Csrrw A0 MSCRATCH A0, Mret]"

lemma tv_slots_ok: "slots_ok 40 tv_slots"
  by (simp add: slots_ok_def tv_slots_def)

lemma timervec_slots: "timervec = Csrrw A0 MSCRATCH A0 # saves tv_slots A0 @ timervec_rest"
  by (simp add: timervec_def timervec_rest_def saves_def tv_slots_def)

lemma st_phys_machine [simp]: "st_phys wr True st a = Some a"
  by (simp add: st_phys_def phys_def)

text \<open>
  C18. The timer interrupt in machine mode. With \<^verbatim>\<open>mscratch\<close> pointing to a scratch area that holds the address of the comparison
  register and the interval, \<^verbatim>\<open>timervec\<close> advances the comparison register by the interval, makes a software interrupt
  pending for supervisor mode, and returns with every register and \<^verbatim>\<open>mscratch\<close> as they were; of memory only the register and
  the 40 bytes of the scratch area may change.
\<close>

theorem timervec_rearms:
  assumes sc: "sc = get_csr MSCRATCH st" and c: "c = load64 (ram st) (sc + 24)" and ap: "apart c 8 sc 40"
  shows "\<exists>st'. run_asm True timervec st = MretTo st' \<and> same_os (snd st) (snd st') \<and> (\<forall>r. xreg st' r = xreg st r) \<and>
    (\<forall>k. get_csr k st' = (if k = SIP then 2 else get_csr k st)) \<and>
    load64 (ram st') c = load64 (ram st) c + load64 (ram st) (sc + 32) \<and>
    (\<forall>x. 8 \<le> unat (x - c) \<longrightarrow> 40 \<le> unat (x - sc) \<longrightarrow> ram st' x = ram st x)"
proof -
  define a where "a = set_xreg A0 sc (set_csr MSCRATCH (xreg st A0) st)"
  define b where "b = saved sc tv_slots a"
  have a: "xreg a r = (if r = A0 then sc else xreg st r)" "ram a = ram st"
    "get_csr k a = (if k = MSCRATCH then xreg st A0 else get_csr k st)" for r k
    by (auto simp: a_def)
  have far: "40 \<le> unat (x - sc)" if x: "unat (x - c) < 8" for x
  proof -
    have "x = c + of_nat (unat (x - c))" by simp
    then show ?thesis using apart_offset [OF ap x] by metis
  qed
  have out: "ram b x = ram st x" if "40 \<le> unat (x - sc)" for x unfolding b_def a(2) [symmetric] by (rule ram_saved_outside [OF tv_slots_ok that])
  have bc: "load64 (ram b) c = load64 (ram st) c" using load64_in [of 0 8 c "ram b" "ram st"] out [OF far] by simp
  have bs: "load64 (ram b) sc = xreg st A1" "load64 (ram b) (sc + 8) = xreg st A2" "load64 (ram b) (sc + 16) = xreg st A3"
    "load64 (ram b) (sc + 24) = c" "load64 (ram b) (sc + 32) = load64 (ram st) (sc + 32)"
    using ram_saved [OF tv_slots_ok, of 0 sc a] ram_saved [OF tv_slots_ok, of 8 sc a] ram_saved [OF tv_slots_ok, of 16 sc a]
      ram_saved [OF tv_slots_ok, of 24 sc a] ram_saved [OF tv_slots_ok, of 32 sc a] c
    by (simp_all add: b_def a tv_slots_def)
  let ?m = "store64 (ram b) c (load64 (ram st) c + load64 (ram st) (sc + 32))"
  have ms: "load64 ?m (sc + off) = load64 (ram b) (sc + off)" if "unat off + 8 \<le> 40" for off
  proof (rule load64_in [OF that])
    fix x assume x: "unat (x - sc) < 40"
    then have "8 \<le> unat (x - c)" using far [of x] by linarith
    then show "?m x = ram b x" by (rule store64_outside)
  qed simp
  note m = ms [of 0] ms [of 8] ms [of 16]
  define st' where "st' = set_xreg A0 (xreg st A0) (set_csr MSCRATCH sc (set_xreg A1 (xreg st A1) (set_xreg A2 (xreg st A2) (set_xreg A3 (xreg st A3)
    (set_csr SIP 2 (set_xreg A1 2 (set_ram ?m (set_xreg A3 (load64 (ram st) c + load64 (ram st) (sc + 32)) (set_xreg A3 (load64 (ram st) c)
    (set_xreg A2 (load64 (ram st) (sc + 32)) (set_xreg A1 c b)))))))))))"
  have "run_asm True timervec st = run_asm True timervec_rest b"
    using run_saves [OF tv_slots_ok window_machine, of True a A0 timervec_rest] sc by (simp add: timervec_slots b_def a_def)
  also have "\<dots> = MretTo st'" using m bs bc by (simp add: timervec_rest_def st'_def b_def a)
  finally have run: "run_asm True timervec st = MretTo st'" .
  have "xreg st' r = xreg st r" "get_csr k st' = (if k = SIP then 2 else get_csr k st)" for r k
    by (auto simp: st'_def b_def a sc)
  moreover have "ram st' = ?m" by (simp add: st'_def)
  moreover have "same_os (snd st) (snd st')" by (simp add: st'_def b_def a_def)
  ultimately show ?thesis using run out by (auto simp: store64_outside)
qed


subsection \<open>Entry\<close>

text \<open>Hart \<open>i\<close> enters \<^verbatim>\<open>start\<close> at the top of its own 4096 bytes of \<^verbatim>\<open>stack0\<close>.\<close>

lemma kentry_stack:
  "\<exists>st'. run_asm True (kentry stack0) st = Called ''start'' [] st' \<and> xreg st' SP = stack0 + 4096 * get_csr MHARTID st + 4096"
  by (simp add: kentry_def algebra_simps)

subsection \<open>Examples\<close>

text \<open>A hart that does not translate addresses, with some value in every register.\<close>

definition asm_ex :: "memory \<Rightarrow> unit kpipe_ext asm_state" where
  "asm_ex m = (\<lambda>r. 7, set_mem m (upd_hart (\<lambda>h. h\<lparr>reg_satp := 0, reg_mscratch := 0x80001000, reg_sp := 0x80009000, reg_ra := 0x80000040\<rparr>) kpipe_ex))"

lemma asm_ex: "ram (asm_ex m) = m" "get_csr SATP (asm_ex m) = 0" "get_csr MSCRATCH (asm_ex m) = 0x80001000"
  "xreg (asm_ex m) RA = 0x80000040" "xreg (asm_ex m) SP = 0x80009000" "xreg (asm_ex m) T0 = 7"
  by (simp_all add: asm_ex_def ram_def get_csr_def xreg_def set_mem_def upd_hart_def)

lemma contexts_bare:
  assumes "get_csr SATP st = 0" and ap: "apart (xreg st A1) 112 (xreg st A0) 112"
  shows "contexts mm st (xreg st A0) (xreg st A1)"
proof -
  have "112 \<le> unat (x - xreg st A0)" if x: "unat (x - xreg st A1) < 112" for x
  proof -
    have "x = xreg st A1 + of_nat (unat (x - xreg st A1))" by simp
    then show ?thesis using apart_offset [OF ap x] by metis
  qed
  then show ?thesis using assms(1) by (simp add: contexts_def window_machine)
qed

text \<open>A switch to a context whose saved ra is \<^verbatim>\<open>0x80003000\<close>, and back.\<close>

theorem swtch_resumes_witness:
  "\<exists>st1 st3. run_asm False swtch (set_xreg A0 0x1000 (set_xreg A1 0x2000 (asm_ex (store64 (\<lambda>_. 0) 0x2000 0x80003000)))) = Jumped 0x80003000 st1 \<and>
     run_asm False swtch (set_xreg A0 0x2000 (set_xreg A1 0x1000 st1)) = Jumped 0x80000040 st3 \<and> xreg st3 SP = 0x80009000"
proof -
  let ?st = "set_xreg A0 0x1000 (set_xreg A1 0x2000 (asm_ex (store64 (\<lambda>_. 0) 0x2000 0x80003000)))"
  have c: "contexts False ?st 0x1000 0x2000" using contexts_bare [of ?st False] by (simp add: asm_ex apart_def)
  obtain st1 where st1: "run_asm False swtch ?st = Jumped (load64 (ram ?st) 0x2000) st1" "same_os (snd ?st) (snd st1)"
    and resume: "\<And>(st2 :: unit kpipe_ext asm_state) old2. contexts False st2 old2 0x1000 \<Longrightarrow> (\<forall>x. unat (x - 0x1000) < 112 \<longrightarrow> ram st2 x = ram st1 x) \<Longrightarrow>
      \<exists>st3. run_asm False swtch st2 = Jumped (xreg ?st RA) st3 \<and> (\<forall>r. xreg st3 r = (if r \<in> fst ` set ctx_slots then xreg ?st r else xreg st2 r))"
    using swtch_resumes [OF c] by blast
  have "get_csr SATP st1 = 0"
  proof -
    have "st1 = loaded 0x2000 ctx_slots (saved 0x1000 ctx_slots ?st)" using swtch_ok(1) [OF c] st1(1) by simp
    then show ?thesis by (simp add: asm_ex)
  qed
  then have "contexts False (set_xreg A0 0x2000 (set_xreg A1 0x1000 st1)) 0x2000 0x1000"
    using contexts_bare [of "set_xreg A0 0x2000 (set_xreg A1 0x1000 st1)" False] by (simp add: apart_def)
  then obtain st3 where "run_asm False swtch (set_xreg A0 0x2000 (set_xreg A1 0x1000 st1)) = Jumped (xreg ?st RA) st3"
    "\<forall>r. xreg st3 r = (if r \<in> fst ` set ctx_slots then xreg ?st r else xreg (set_xreg A0 0x2000 (set_xreg A1 0x1000 st1)) r)"
    using resume by fastforce
  moreover have "load64 (ram ?st) 0x2000 = 0x80003000" "xreg ?st RA = 0x80000040" "SP \<in> fst ` set ctx_slots" "xreg ?st SP = 0x80009000"
    by (simp_all add: asm_ex ctx_slots_def)
  ultimately show ?thesis using st1(1) by (intro exI [of _ st1] exI [of _ st3]) simp
qed

theorem kernelvec_transparent_witness:
  "\<exists>rest st1 st3. run_asm False kernelvec (asm_ex (\<lambda>_. 0)) = Called ''kerneltrap'' rest st1 \<and> run_asm False rest st1 = SretTo st3 \<and>
     (\<forall>r. xreg st3 r = xreg (asm_ex (\<lambda>_. 0)) r)"
proof -
  let ?st = "asm_ex (\<lambda>_. 0)"
  have w: "window 256 False (get_csr SATP ?st) (ram ?st) (xreg ?st SP - 256) 0x80008F00" by (simp add: asm_ex window_machine)
  let ?st1 = "saved 0x80008F00 kv_saved (set_xreg SP 0x80008F00 ?st)"
  have run: "run_asm False kernelvec ?st = Called ''kerneltrap'' kernelvec_rest ?st1"
    using run_saves [OF kv_slots_ok(2), of False "set_xreg SP 0x80008F00 ?st" SP "0x80008F00"] by (simp add: kernelvec_slots asm_ex window_machine)
  have w1: "window 256 False (get_csr SATP ?st1) (ram ?st1) (xreg ?st1 SP) 0x80008F00" by (simp add: asm_ex window_machine)
  obtain rest st1 where r: "run_asm False kernelvec ?st = Called ''kerneltrap'' rest st1"
    and k: "\<And>st2 :: unit kpipe_ext asm_state. window 256 False (get_csr SATP st2) (ram st2) (xreg st2 SP) 0x80008F00 \<Longrightarrow> xreg st2 SP = xreg st1 SP \<Longrightarrow>
      (\<forall>x. unat (x - 0x80008F00) < 256 \<longrightarrow> ram st2 x = ram st1 x) \<Longrightarrow>
      \<exists>st3. run_asm False rest st2 = SretTo st3 \<and> (\<forall>r. xreg st3 r = (if r = TP then xreg st2 TP else xreg ?st r))"
    using kernelvec_transparent [OF w] by (elim exE conjE) (rule that, assumption, fast)
  have st1: "st1 = ?st1" using run r by simp
  then obtain st3 where "run_asm False rest st1 = SretTo st3" "\<forall>r. xreg st3 r = (if r = TP then xreg st1 TP else xreg ?st r)"
    using k [OF w1] by auto
  moreover have "xreg st1 TP = xreg ?st TP" by (simp add: st1)
  ultimately show ?thesis using r by (intro exI [of _ rest] exI [of _ st1] exI [of _ st3]) simp
qed

theorem timervec_rearms_witness:
  "\<exists>st'. run_asm True timervec (asm_ex (store64 (store64 (\<lambda>_. 0) 0x80001018 0x2004000) 0x80001020 1000000)) = MretTo st' \<and>
     load64 (ram st') 0x2004000 = 1000000 \<and> get_csr SIP st' = 2"
proof -
  let ?m = "store64 (store64 (\<lambda>_. 0) 0x80001018 0x2004000) 0x80001020 1000000"
  have l: "load64 ?m 0x80001018 = 0x2004000" "load64 ?m 0x2004000 = 0" "load64 ?m 0x80001020 = 1000000"
    by (simp_all add: load64_store64_apart apart_def load64_zeros)
  have "apart (0x2004000 :: u64) 8 0x80001000 40" by (simp add: apart_def)
  then show ?thesis using timervec_rearms [of "0x80001000" "asm_ex ?m" "0x2004000"] l by (auto simp: asm_ex)
qed

end
