(* ===== verification/Trampoline.thy ===== *)
theory Trampoline
  imports Asm Trap_Path
begin

section \<open>The trampoline and the whole path of a system call\<close>

text \<open>
  \<^verbatim>\<open>uservec\<close> and \<^verbatim>\<open>userret\<close> of \<^verbatim>\<open>kernel/trampoline.S\<close> around the C code of \<^verbatim>\<open>kernel/trap.c\<close>: what a system call does to the registers
  of the process that makes it.
\<close>

subsection \<open>Pages that the process's table maps for the kernel\<close>

text \<open>A page that the table at \<open>pt\<close> maps at \<open>va\<close> for reading and writing by the kernel, and that is not part of the table.\<close>

definition maps_page :: "memory \<Rightarrow> u64 \<Rightarrow> u64 \<Rightarrow> u64 \<Rightarrow> bool" where
  "maps_page m pt va pa \<longleftrightarrow> page_aligned va \<and> unat va + 4096 \<le> 2 ^ 38 \<and>
     (let pte = walk_ro 2 m pt va; e = load64 m pte in
      pte \<noteq> 0 \<and> e AND PTE_V \<noteq> 0 \<and> e AND PTE_R \<noteq> 0 \<and> e AND PTE_W \<noteq> 0 \<and> e AND PTE_U = 0 \<and> PTE2PA e = pa) \<and>
     (\<forall>a \<in> set (walk_path 2 m pt va). \<forall>i < 8. 4096 \<le> unat (a + of_nat i - pa))"

lemma maps_page_cong:
  assumes "maps_page m pt va pa" and same: "\<And>x. 4096 \<le> unat (x - pa) \<Longrightarrow> m' x = m x"
  shows "maps_page m' pt va pa"
proof -
  have "m' (a + of_nat i) = m (a + of_nat i)" if "a \<in> set (walk_path 2 m pt va)" "i < 8" for a i
    using assms(1) that by (intro same) (simp add: maps_page_def)
  from walk_ro_cong [of 2 m pt va m', OF this] show ?thesis using assms(1) by (auto simp: maps_page_def Let_def)
qed

lemma satp_root_MAKE_SATP:
  assumes "page_aligned pt" and "unat pt < 2 ^ 56"
  shows "satp_root (MAKE_SATP pt) = pt" and "MAKE_SATP pt \<noteq> 0"
proof -
  have low: "\<not> bit pt n" if "n < 12" for n
    by (rule not_bit_low [OF _ that]) (use assms(1) in \<open>auto simp: page_aligned_def\<close>)
  have high: "\<not> bit pt n" if "56 \<le> n" for n using assms(2) that by (rule not_bit_high)
  show "satp_root (MAKE_SATP pt) = pt"
  proof (rule bit_word_eqI)
    fix n assume n: "n < LENGTH(64)"
    have "bit (satp_root (MAKE_SATP pt)) n \<longleftrightarrow> 12 \<le> n \<and> n < 56 \<and> bit pt n"
      using n by (auto simp: satp_root_def MAKE_SATP_def SATP_SV39_def bit_simps)
    then show "bit (satp_root (MAKE_SATP pt)) n = bit pt n" using low high by (meson not_le)
  qed
  have "bit (MAKE_SATP pt) 63" by (simp add: MAKE_SATP_def SATP_SV39_def bit_simps)
  then show "MAKE_SATP pt \<noteq> 0" by auto
qed

lemma maps_page_window:
  assumes m: "maps_page m pt va pa" and pt: "page_aligned pt" "unat pt < 2 ^ 56"
  shows "window 4096 False (MAKE_SATP pt) m va pa"
  unfolding window_def
proof (intro allI impI)
  fix m' :: memory and wr and off :: u64
  assume same: "\<forall>x. 4096 \<le> unat (x - pa) \<longrightarrow> m' x = m x" and off: "unat off + 8 \<le> 4096"
  have m': "maps_page m' pt va pa" using maps_page_cong [OF m] same by blast
  have va: "unat va mod 4096 = 0" "unat va + 4096 \<le> 2 ^ 38" using m by (simp_all add: maps_page_def page_aligned_def)
  have u: "unat (va + off) = unat va + unat off" using va off by (intro unat_plus_le) simp
  have "unat (PGROUNDDOWN (va + off)) = unat va" unfolding unat_PGROUNDDOWN u using va(1) off by (auto simp: div_add1_eq)
  then have pg: "PGROUNDDOWN (va + off) = va" by (rule unat_eqI)
  have "\<not> MAXVA \<le> va + off" using u va off by (simp add: word_le_nat_alt MAXVA_val)
  then show "phys wr False (MAKE_SATP pt) m' (va + off) = Some (pa + off)"
    using m' satp_root_MAKE_SATP [OF pt] by (simp add: phys_def pg maps_page_def Let_def)
qed

subsection \<open>Into the kernel\<close>

text \<open>The slots of \<^verbatim>\<open>struct trapframe\<close> for the registers other than a0, whose slot is at 112.\<close>

definition tf_slots :: "(reg \<times> u64) list" where
  "tf_slots = [(RA, 40), (SP, 48), (GP, 56), (TP, 64), (T0, 72), (T1, 80), (T2, 88), (S0, 96), (S1, 104), (A1, 120), (A2, 128),
     (A3, 136), (A4, 144), (A5, 152), (A6, 160), (A7, 168), (S2, 176), (S3, 184), (S4, 192), (S5, 200), (S6, 208), (S7, 216),
     (S8, 224), (S9, 232), (S10, 240), (S11, 248), (T3, 256), (T4, 264), (T5, 272), (T6, 280)]"

lemma tf_slots_ok: "slots_ok 4096 tf_slots"
  by (simp add: slots_ok_def tf_slots_def)

lemma tf_slots_range: "(r, off) \<in> set tf_slots \<Longrightarrow> 40 \<le> unat off \<and> unat off + 8 \<le> 288 \<and> off \<noteq> 112"
proof -
  have "list_all (\<lambda>(r, off). 40 \<le> unat off \<and> unat off + 8 \<le> 288 \<and> off \<noteq> 112) tf_slots" by (simp add: tf_slots_def)
  then show "(r, off) \<in> set tf_slots \<Longrightarrow> 40 \<le> unat off \<and> unat off + 8 \<le> 288 \<and> off \<noteq> 112" by (auto simp: list_all_iff)
qed

lemma tf_regs: "r = ZERO \<or> r = A0 \<or> (\<exists>off. (r, off) \<in> set tf_slots)"
  by (cases r) (simp_all add: tf_slots_def)

definition uservec_rest :: "instr list" where
  "uservec_rest = [Csrr T0 SSCRATCH, Sd T0 112 A0, Ld SP 8 A0, Ld TP 32 A0, Ld T0 16 A0, Ld T1 0 A0, Csrw SATP T1, Sfence_vma, Jr T0]"

lemma uservec_slots: "uservec = Csrrw A0 SSCRATCH A0 # saves tf_slots A0 @ uservec_rest"
  by (simp add: uservec_def uservec_rest_def saves_def tf_slots_def)

lemma userret_slots:
  "userret = Csrw SATP A1 # Sfence_vma # Ld T0 112 A0 # Csrw SSCRATCH T0 # loads tf_slots A0 @ [Csrrw A0 SSCRATCH A0, Sret]"
  by (simp add: userret_def loads_def tf_slots_def)

lemma load64_slot:
  assumes "unat a mod 8 = 0" "unat b mod 8 = 0" "unat a + 8 \<le> 4096" "unat b + 8 \<le> 4096"
  shows "load64 (store64 m (pa + a) v) (pa + b) = (if a = b then v else load64 m (pa + b))"
  using slots_apart [of b a 4096 pa] assms by (simp add: load64_store64_apart)

lemma uservec_ok:
  assumes w: "window 4096 False (get_csr SATP st) (ram st) (get_csr SSCRATCH st) tf"
  obtains st1 where "run_asm False uservec st = Jumped (load64 (ram st) (tf + 16)) st1" and "same_os (snd st) (snd st1)"
    and "\<And>r off. (r, off) \<in> set tf_slots \<Longrightarrow> load64 (ram st1) (tf + off) = xreg st r" and "load64 (ram st1) (tf + 112) = xreg st A0"
    and "\<And>off. unat off mod 8 = 0 \<Longrightarrow> unat off + 8 \<le> 40 \<Longrightarrow> load64 (ram st1) (tf + off) = load64 (ram st) (tf + off)"
    and "\<And>x. 4096 \<le> unat (x - tf) \<Longrightarrow> ram st1 x = ram st x"
    and "xreg st1 SP = load64 (ram st) (tf + 8)" and "xreg st1 TP = load64 (ram st) (tf + 32)" and "get_csr SATP st1 = load64 (ram st) tf"
proof -
  let ?va = "get_csr SSCRATCH st"
  define a where "a = set_xreg A0 ?va (set_csr SSCRATCH (xreg st A0) st)"
  define b where "b = saved tf tf_slots a"
  have a: "xreg a A0 = ?va" "ram a = ram st" "get_csr SSCRATCH a = xreg st A0" "get_csr SATP a = get_csr SATP st" by (simp_all add: a_def)
  have wa: "window 4096 False (get_csr SATP a) (ram a) (xreg a A0) tf" using w a by simp
  have out: "ram b x = ram st x" if "4096 \<le> unat (x - tf)" for x unfolding b_def a(2) [symmetric] by (rule ram_saved_outside [OF tf_slots_ok that])
  let ?m = "store64 (ram b) (tf + 112) (xreg st A0)"
  have m_out: "?m x = ram st x" if "4096 \<le> unat (x - tf)" for x using store64_in [of 112 4096 x tf] out that by simp
  then have wm: "window 4096 False (get_csr SATP st) ?m ?va tf" by (rule window_cong [OF w])
  have low: "load64 ?m (tf + off) = load64 (ram st) (tf + off)" if off: "unat off mod 8 = 0" "unat off + 8 \<le> 40" for off
  proof -
    have "off \<noteq> 112" using off(2) by auto
    moreover have "map_of (map prod.swap tf_slots) off = None" using off(2) tf_slots_range by (fastforce simp: map_of_eq_None_iff)
    ultimately show ?thesis using off ram_saved [OF tf_slots_ok, of off tf a] load64_slot [of 112 off] by (simp add: b_def a)
  qed
  have slot: "load64 ?m (tf + off) = xreg st r" if "(r, off) \<in> set tf_slots" for r off
  proof -
    note o = slots_ok_mem [OF tf_slots_ok that]
    have "r \<noteq> A0" "off \<noteq> 112" using that tf_slots_range [OF that] by (auto simp: tf_slots_def)
    then show ?thesis using o ram_saved [OF tf_slots_ok, of off tf a] load64_slot [of 112 off] by (simp add: b_def a_def)
  qed
  define st1 where "st1 = set_csr SATP (load64 (ram st) tf) (set_xreg T1 (load64 (ram st) tf) (set_xreg T0 (load64 (ram st) (tf + 16))
    (set_xreg TP (load64 (ram st) (tf + 32)) (set_xreg SP (load64 (ram st) (tf + 8)) (set_ram ?m (set_xreg T0 (xreg st A0) b))))))"
  have "run_asm False uservec st = run_asm False uservec_rest b"
    using run_saves [OF tf_slots_ok wa] by (simp add: uservec_slots a_def b_def)
  also have "\<dots> = Jumped (load64 (ram st) (tf + 16)) st1"
  proof -
    have b: "xreg b A0 = ?va" "get_csr SSCRATCH b = xreg st A0" "get_csr SATP b = get_csr SATP st" by (simp_all add: b_def a)
    have wb: "window 4096 False (get_csr SATP st) (ram b) ?va tf" by (rule window_cong [OF w out])
    note ph = window_phys [OF wb, of 112 True] window_phys [OF wm, of 8 False] window_phys [OF wm, of 32 False] window_phys [OF wm, of 16 False] window_phys [OF wm, of 0 False]
    show ?thesis using ph low [of 0] low [of 8] low [of 16] low [of 32] by (simp add: uservec_rest_def st1_def st_phys_def b)
  qed
  finally have run: "run_asm False uservec st = Jumped (load64 (ram st) (tf + 16)) st1" .
  have "ram st1 = ?m" "same_os (snd st) (snd st1)" by (simp_all add: st1_def b_def a_def)
  then show ?thesis using run slot low m_out load64_slot [of 112 112 "ram b" tf] by (intro that [of st1]) (simp_all add: st1_def)
qed


subsection \<open>Back to user space\<close>

lemma userret_ok:
  assumes w: "window 4096 False (xreg st A1) (ram st) (xreg st A0) tf"
  obtains st' where "run_asm False userret st = SretTo st'" and "same_os (snd st) (snd st')" and "ram st' = ram st"
    and "\<And>r off. (r, off) \<in> set tf_slots \<Longrightarrow> xreg st' r = load64 (ram st) (tf + off)" and "xreg st' A0 = load64 (ram st) (tf + 112)"
    and "get_csr SSCRATCH st' = xreg st A0" and "get_csr SATP st' = xreg st A1"
proof -
  let ?v = "load64 (ram st) (tf + 112)"
  define a where "a = set_csr SSCRATCH ?v (set_xreg T0 ?v (set_csr SATP (xreg st A1) st))"
  define b where "b = loaded tf tf_slots a"
  have a: "xreg a A0 = xreg st A0" "ram a = ram st" "get_csr SSCRATCH a = ?v" "get_csr SATP a = xreg st A1" by (simp_all add: a_def)
  have noA0: "A0 \<notin> fst ` set tf_slots" by (simp add: tf_slots_def)
  define st' where "st' = set_xreg A0 ?v (set_csr SSCRATCH (xreg st A0) b)"
  have "run_asm False userret st = run_asm False (loads tf_slots A0 @ [Csrrw A0 SSCRATCH A0, Sret]) a"
    using window_phys [OF w, of 112 False] by (simp add: userret_slots st_phys_def a_def)
  also have "\<dots> = run_asm False [Csrrw A0 SSCRATCH A0, Sret] b"
    unfolding b_def by (rule run_loads [OF tf_slots_ok _ noA0]) (use w a in simp)
  also have "\<dots> = SretTo st'"
  proof -
    have "xreg b A0 = xreg st A0" using noA0 xreg_loaded [OF tf_slots_ok, of tf a A0] by (simp add: b_def a map_of_eq_None_iff [THEN iffD2])
    then show ?thesis by (simp add: st'_def b_def a)
  qed
  finally have run: "run_asm False userret st = SretTo st'" .
  have "xreg st' r = load64 (ram st) (tf + off)" if m: "(r, off) \<in> set tf_slots" for r off
  proof -
    have "r \<noteq> A0" using noA0 m by force
    then show ?thesis using xreg_loaded [OF tf_slots_ok, of tf a r] slots_ok_mem(3) [OF tf_slots_ok m] by (simp add: st'_def b_def a)
  qed
  moreover have "same_os (snd st) (snd st')" by (simp add: st'_def b_def a_def)
  ultimately show ?thesis using run by (intro that [of st']) (simp_all add: st'_def b_def a)
qed

subsection \<open>A system call\<close>

lemma same_os_kernel:
  fixes s t :: "'z ktrap_scheme"
  assumes "same_os s t"
  shows "procs t = procs s" "curproc t = curproc s" "sym_usertrap t = sym_usertrap s" "sym_userret t = sym_userret s" "ktrampoline t = ktrampoline s"
    "r_sstatus (khart t) = r_sstatus (khart s)" "r_scause (khart t) = r_scause (khart s)" "r_sepc (khart t) = r_sepc (khart s)"
proof -
  have t: "t = s\<lparr>mem := mem t, khart := khart t\<rparr>" and h: "other_regs (khart t) = other_regs (khart s)" using assms by (simp_all add: same_os_def)
  show "procs t = procs s" "curproc t = curproc s" "sym_usertrap t = sym_usertrap s" "sym_userret t = sym_userret s" "ktrampoline t = ktrampoline s"
    by (subst t, simp)+
  show "r_sstatus (khart t) = r_sstatus (khart s)" "r_scause (khart t) = r_scause (khart s)" "r_sepc (khart t) = r_sepc (khart s)"
    using arg_cong [OF h, of reg_sstatus] arg_cong [OF h, of reg_scause] arg_cong [OF h, of reg_sepc]
    by (simp_all add: other_regs_def csr_defs)
qed

text \<open>
  What the way back needs of the process when its handler has returned: the process is the current one, and its page table, which may be
  another than before, maps its trap frame.
\<close>

definition frame_mapped :: "nat \<Rightarrow> 'z ktrap_scheme \<Rightarrow> bool" where
  "frame_mapped p u \<longleftrightarrow>
     (let pt = p_pagetable (procs u p) in
      curproc u = Some p \<and> page_aligned pt \<and> unat pt < 2 ^ 56 \<and> maps_page (mem u) pt TRAPFRAME (p_trapframe (procs u p)))"

text \<open>The state of a process in user space: its own table, the trap frame mapped and ready.\<close>

definition in_user :: "nat \<Rightarrow> (reg \<Rightarrow> u64) \<times> 'z ktrap_scheme \<Rightarrow> bool" where
  "in_user p st \<longleftrightarrow>
     (let s = snd st in
      frame_mapped p s \<and> get_csr SATP st = MAKE_SATP (p_pagetable (procs s p)) \<and> get_csr SSCRATCH st = TRAPFRAME \<and>
      get_tf p tf_kernel_trap s = sym_usertrap s \<and> r_sstatus (khart s) AND SSTATUS_SPP = 0)"

lemma user_ready_SPP: "user_ready p t \<Longrightarrow> r_sstatus (khart t) AND SSTATUS_SPP = 0"
  by (rule bit_word_eqI) (auto simp: user_ready_def bit_and_iff)

lemma userret_frame:
  fixes t :: "'z ktrap_scheme"
  assumes m: "frame_mapped p t" and g: "g A0 = TRAPFRAME" "g A1 = MAKE_SATP (p_pagetable (procs t p))" and ready: "user_ready p t"
  obtains st' where "run_asm False userret (g, t) = SretTo st'" and "in_user p st'" and "r_sepc (khart (snd st')) = r_sepc (khart t)"
    and "\<And>r off. (r, off) \<in> set tf_slots \<Longrightarrow> xreg st' r = get_tf p off t" and "xreg st' A0 = get_tf p (tf_a 0) t"
proof -
  let ?pt = "p_pagetable (procs t p)" and ?tf = "p_trapframe (procs t p)"
  have x: "xreg (g, t) A0 = TRAPFRAME" "xreg (g, t) A1 = MAKE_SATP ?pt" "ram (g, t) = mem t" using g by (simp_all add: xreg_def ram_def)
  have w: "window 4096 False (xreg (g, t) A1) (ram (g, t)) (xreg (g, t) A0) ?tf"
    unfolding x by (rule maps_page_window) (use m in \<open>simp_all add: frame_mapped_def Let_def\<close>)
  obtain st' where st': "run_asm False userret (g, t) = SretTo st'" "same_os t (snd st')" "ram st' = mem t"
    "\<And>r off. (r, off) \<in> set tf_slots \<Longrightarrow> xreg st' r = load64 (mem t) (?tf + off)" "xreg st' A0 = load64 (mem t) (?tf + 112)"
    "get_csr SSCRATCH st' = TRAPFRAME" "get_csr SATP st' = MAKE_SATP ?pt"
    by (rule userret_ok [OF w], rule that) (simp_all add: x)
  note os = same_os_kernel [OF st'(2)]
  have "in_user p st'"
    using m ready st'(3,6,7) os user_ready_SPP [OF ready] by (simp add: in_user_def frame_mapped_def ram_def user_ready_def get_tf_def Let_def)
  then show ?thesis using st' os by (intro that [of st']) (simp_all add: get_tf_def tf_a_def)
qed

text \<open>The registers of the process, other than a0, as its frame has them.\<close>

definition frame_reg :: "nat \<Rightarrow> 'z kproc_scheme \<Rightarrow> reg \<Rightarrow> u64" where
  "frame_reg p s r = (case map_of tf_slots r of Some off \<Rightarrow> get_tf p off s | None \<Rightarrow> 0)"

lemma frame_regI:
  assumes "\<And>r off. (r, off) \<in> set tf_slots \<Longrightarrow> get_tf p off s = xreg st r"
  shows "r \<noteq> A0 \<Longrightarrow> frame_reg p s r = xreg st r"
proof (cases "map_of tf_slots r")
  case None
  then have "\<nexists>off. (r, off) \<in> set tf_slots" by (force simp: map_of_eq_None_iff)
  then show "r \<noteq> A0 \<Longrightarrow> frame_reg p s r = xreg st r" using tf_regs [of r] None by (auto simp: frame_reg_def xreg_def)
qed (use assms in \<open>auto simp: frame_reg_def dest: map_of_SomeD\<close>)

text \<open>The rest of \<^verbatim>\<open>usertrap\<close> when the handler has returned, \<^verbatim>\<open>usertrapret\<close> and \<^verbatim>\<open>userret\<close>.\<close>

lemma usertrap_userret:
  fixes s :: "'z ktrap_scheme"
  assumes pre: "r_sstatus (khart s) AND SSTATUS_SPP = 0" "r_scause (khart s) = 8" "curproc s = Some p" "\<not> p_killed (procs s p)"
      "map_of syscalls (sint (ucast (get_tf p (tf_a 7) s) :: u32)) = Some f" "f (at_syscall p s) = Inr (v, u)"
    and alive: "\<not> p_killed (procs u p)" and fm: "frame_mapped p u"
  shows "\<exists>fn a0 a1 t. usertrap s = Inr (ToUser (fn, a0, a1) t) \<and>
    (\<forall>g. g A0 = a0 \<longrightarrow> g A1 = a1 \<longrightarrow>
      (\<exists>st'. run_asm False userret (g, t) = SretTo st' \<and> (\<forall>r. xreg st' r = (if r = A0 then v else frame_reg p u r)) \<and>
        r_sepc (khart (snd st')) = get_tf p tf_epc u \<and> in_user p st'))"
proof -
  have cu: "curproc u = Some p" and mu: "maps_page (mem u) (p_pagetable (procs u p)) TRAPFRAME (p_trapframe (procs u p))"
    using fm by (simp_all add: frame_mapped_def Let_def)
  obtain t where t: "usertrap s = Inr (ToUser (TRAMPOLINE + (sym_userret u - ktrampoline u), TRAPFRAME, MAKE_SATP (p_pagetable (procs u p))) t)"
    "user_ready p t" "procs t = procs u" "curproc t = Some p" "get_tf p (tf_a 0) t = v" "r_sepc (khart t) = get_tf p tf_epc u"
    "\<And>off. 40 \<le> unat off \<Longrightarrow> unat off + 8 \<le> 4096 \<Longrightarrow> apart off 8 (tf_a 0) 8 \<Longrightarrow> get_tf p off t = get_tf p off u"
    "\<And>x. 4096 \<le> unat (x - p_trapframe (procs u p)) \<Longrightarrow> mem t x = mem u x"
    by (rule usertrap_syscall [OF pre cu alive], rule that)
  have mt: "frame_mapped p t" using fm maps_page_cong [OF mu t(8)] t(3,4) by (simp add: frame_mapped_def Let_def)
  have slot: "get_tf p off t = get_tf p off u" if m: "(r, off) \<in> set tf_slots" for r off
  proof -
    have o: "40 \<le> unat off" "unat off + 8 \<le> 288" "off \<noteq> 112" using tf_slots_range [OF m] by simp_all
    have "apart off 8 (tf_a 0) 8" using slots_apart [of off 112 4096 0] slots_ok_mem(1,2) [OF tf_slots_ok m] o(3) by (simp add: tf_a_def)
    then show ?thesis using t(7) [of off] o by simp
  qed
  have "\<exists>st'. run_asm False userret (g, t) = SretTo st' \<and> (\<forall>r. xreg st' r = (if r = A0 then v else frame_reg p u r)) \<and>
      r_sepc (khart (snd st')) = get_tf p tf_epc u \<and> in_user p st'"
    if g: "g A0 = TRAPFRAME" "g A1 = MAKE_SATP (p_pagetable (procs u p))" for g
  proof -
    have gt: "g A1 = MAKE_SATP (p_pagetable (procs t p))" using g(2) t(3) by simp
    obtain st' where st': "run_asm False userret (g, t) = SretTo st'" "in_user p st'" "r_sepc (khart (snd st')) = r_sepc (khart t)"
      "\<And>r off. (r, off) \<in> set tf_slots \<Longrightarrow> xreg st' r = get_tf p off t" "xreg st' A0 = get_tf p (tf_a 0) t"
      by (rule userret_frame [where g = g, OF mt g(1) gt t(2)], rule that)
    have "frame_reg p u r = xreg st' r" if "r \<noteq> A0" for r by (rule frame_regI [OF _ that]) (simp add: st'(4) slot)
    then show ?thesis using st'(1-3,5) t(5,6) by (intro exI [of _ st']) simp
  qed
  then show ?thesis using t(1) by blast
qed

text \<open>
  C15. The registers of a process on the way of a system call, through the assembly and the C code. \<^verbatim>\<open>uservec\<close> jumps to \<^verbatim>\<open>usertrap\<close>, which runs the
  handler that the number in a7 selects in a state in which the trap frame has every register of the process as it was at the
  \<^verbatim>\<open>ecall\<close>, and as pc the address after it; nothing else of memory and no process has changed. When the handler stops (panics, sleeps, exits) so
  does \<^verbatim>\<open>usertrap\<close>. When it returns \<open>v\<close>, the process exits if it has been killed; if not, and as long as its page table maps its trap
  frame, the kernel goes back through \<^verbatim>\<open>userret\<close> to user mode, whatever the C code did with the registers: the process finds in every
  register and in the pc what the handler left in the frame (for most handlers what was there, for \<^verbatim>\<open>exec\<close> the start of the new program),
  except for a0, which is \<open>v\<close>, and is ready for the next system call. What a handler does after a sleep is not part of this.
\<close>

theorem syscall_carries_registers:
  fixes st :: "(reg \<Rightarrow> u64) \<times> 'z ktrap_scheme"
  assumes user: "in_user p st" and cause: "r_scause (khart (snd st)) = 8"
    and alive: "\<not> p_killed (procs (snd st) p)" and num: "map_of syscalls (sint (ucast (xreg st A7) :: u32)) = Some f"
  shows "\<exists>st1 s. run_asm False uservec st = Jumped (sym_usertrap (snd st)) st1 \<and> s = at_syscall p (snd st1) \<and>
    procs s = procs (snd st) \<and> curproc s = Some p \<and>
    (\<forall>r. (if r = A0 then get_tf p (tf_a 0) s else frame_reg p s r) = xreg st r) \<and> get_tf p tf_epc s = r_sepc (khart (snd st)) + 4 \<and>
    (\<forall>x. 4096 \<le> unat (x - p_trapframe (procs (snd st) p)) \<longrightarrow> mem s x = mem (snd st) x) \<and>
    (\<forall>e. f s = Inl e \<longrightarrow> usertrap (snd st1) = Inl e) \<and>
    (\<forall>v u. f s = Inr (v, u) \<longrightarrow> p_killed (procs u p) \<longrightarrow> usertrap (snd st1) = exit (-1) (set_tf p (tf_a 0) v u)) \<and>
    (\<forall>v u. f s = Inr (v, u) \<longrightarrow> \<not> p_killed (procs u p) \<longrightarrow> frame_mapped p u \<longrightarrow>
      (\<exists>fn a0 a1 t. usertrap (snd st1) = Inr (ToUser (fn, a0, a1) t) \<and>
        (\<forall>g. g A0 = a0 \<longrightarrow> g A1 = a1 \<longrightarrow>
          (\<exists>st'. run_asm False userret (g, t) = SretTo st' \<and> (\<forall>r. xreg st' r = (if r = A0 then v else frame_reg p u r)) \<and>
            r_sepc (khart (snd st')) = get_tf p tf_epc u \<and> in_user p st'))))"
proof -
  let ?s = "snd st" and ?tf = "p_trapframe (procs (snd st) p)" and ?pt = "p_pagetable (procs (snd st) p)"
  have i: "curproc ?s = Some p" "page_aligned ?pt" "unat ?pt < 2 ^ 56" "get_csr SATP st = MAKE_SATP ?pt" "get_csr SSCRATCH st = TRAPFRAME"
    "maps_page (mem ?s) ?pt TRAPFRAME ?tf" "get_tf p tf_kernel_trap ?s = sym_usertrap ?s" "r_sstatus (khart ?s) AND SSTATUS_SPP = 0"
    using user by (simp_all add: in_user_def frame_mapped_def Let_def)
  have w: "window 4096 False (get_csr SATP st) (ram st) (get_csr SSCRATCH st) ?tf"
    unfolding i(4,5) ram_def by (rule maps_page_window [OF i(6,2,3)])
  obtain st1 where st1: "run_asm False uservec st = Jumped (load64 (ram st) (?tf + 16)) st1" "same_os ?s (snd st1)"
    "\<And>r off. (r, off) \<in> set tf_slots \<Longrightarrow> load64 (ram st1) (?tf + off) = xreg st r" "load64 (ram st1) (?tf + 112) = xreg st A0"
    "\<And>x. 4096 \<le> unat (x - ?tf) \<Longrightarrow> ram st1 x = ram st x"
    by (rule uservec_ok [OF w], rule that)
  note os = same_os_kernel [OF st1(2)]
  have slot1: "get_tf p off (snd st1) = xreg st r" if "(r, off) \<in> set tf_slots" for r off
    using st1(3) [OF that] os(1) by (simp add: get_tf_def ram_def)
  have pre: "r_sstatus (khart (snd st1)) AND SSTATUS_SPP = 0" "r_scause (khart (snd st1)) = 8" "curproc (snd st1) = Some p"
    "\<not> p_killed (procs (snd st1) p)" "map_of syscalls (sint (ucast (get_tf p (tf_a 7) (snd st1)) :: u32)) = Some f"
    using i(1,8) cause alive num os slot1 [of A7 168] by (simp_all add: tf_slots_def tf_a_def)
  let ?a = "at_syscall p (snd st1)"
  have jump: "load64 (ram st) (?tf + 16) = sym_usertrap ?s" using i(7) by (simp add: get_tf_def ram_def tf_defs)
  have "get_tf p off ?a = xreg st r" if "(r, off) \<in> set tf_slots" for r off
    using slot1 [OF that] tf_slots_range [OF that] at_syscall_fields(5) [where off = off and p = p and s = "snd st1"] by simp
  moreover have a0: "get_tf p (tf_a 0) ?a = xreg st A0"
    using st1(4) os(1) at_syscall_fields(5) [where off = 112 and p = p and s = "snd st1"] by (simp add: tf_a_def get_tf_def [of _ _ "snd st1"] ram_def)
  ultimately have regs: "(if r = A0 then get_tf p (tf_a 0) ?a else frame_reg p ?a r) = xreg st r" for r
    using frame_regI [of p ?a st r] by simp
  have epc: "get_tf p tf_epc ?a = r_sepc (khart ?s) + 4" using at_syscall_fields(2) [where p = p and s = "snd st1"] os(8) by simp
  have out: "mem ?a x = mem ?s x" if "4096 \<le> unat (x - ?tf)" for x
    using that st1(5) [OF that] os(1) by (simp add: at_syscall_def Let_def set_tf_outside tf_defs ram_def)
  have "procs ?a = procs ?s" "curproc ?a = Some p" using at_syscall_fields(3,4) [where p = p and s = "snd st1"] os(1) pre(3) by simp_all
  then show ?thesis
    using st1(1) [unfolded jump] regs epc out usertrap_stops [OF pre] usertrap_killed [OF pre] usertrap_userret [OF pre]
    by (intro exI [of _ st1] exI [of _ ?a]) simp
qed

subsection \<open>Example\<close>

text \<open>
  A page table at \<^verbatim>\<open>0x80010000\<close> that maps the trap frame at \<^verbatim>\<open>0x80013000\<close>, and process 0 asking for its pid, number 11,
  from address \<^verbatim>\<open>0x40\<close>.
\<close>

definition user_table :: memory where
  "user_table =
     store64 (store64 (store64 (store64 (\<lambda>_. 0) 0x800107F8 (PA2PTE 0x80011000 OR PTE_V)) 0x80011FF8 (PA2PTE 0x80012000 OR PTE_V))
       0x80012FF0 (PA2PTE 0x80013000 OR (PTE_V OR PTE_R OR PTE_W))) 0x80013010 0x80002000"

definition tramp_ex :: "(reg \<Rightarrow> u64) \<times> ktrap" where
  "tramp_ex = ((\<lambda>_. 5)(A7 := 11), ktrap_ex\<lparr>mem := user_table, sym_usertrap := 0x80002000,
     khart := (khart ktrap_ex)\<lparr>reg_sstatus := 0, reg_scause := 8, reg_sepc := 0x40, reg_satp := MAKE_SATP 0x80010000, reg_sscratch := TRAPFRAME\<rparr>,
     procs := (procs ktrap_ex)(0 := (procs ktrap_ex 0)\<lparr>p_pagetable := 0x80010000, p_trapframe := 0x80013000\<rparr>)\<rparr>)"

lemma user_table_loads:
  "load64 user_table 0x800107F8 = PA2PTE 0x80011000 OR PTE_V" "load64 user_table 0x80011FF8 = PA2PTE 0x80012000 OR PTE_V"
  "load64 user_table 0x80012FF0 = PA2PTE 0x80013000 OR (PTE_V OR PTE_R OR PTE_W)" "load64 user_table 0x80013010 = 0x80002000"
  by (simp_all add: user_table_def load64_store64_apart apart_def)

lemma trapframe_index: "PX 2 TRAPFRAME = 255" "PX 1 TRAPFRAME = 511" "PX 0 TRAPFRAME = 510"
  by (simp_all add: PX_def PXSHIFT_def PXMASK_def PGSHIFT_def TRAPFRAME_def TRAMPOLINE_def MAXVA_def PGSIZE_def push_bit_eq_mult drop_bit_eq_div)

lemma user_table_pte:
  "PTE2PA (PA2PTE 0x80011000 OR PTE_V) = 0x80011000" "PTE2PA (PA2PTE 0x80012000 OR PTE_V) = 0x80012000"
  "PTE2PA (PA2PTE 0x80013000 OR (PTE_V OR PTE_R OR PTE_W)) = 0x80013000" "(PA2PTE 0x80011000 OR PTE_V) AND PTE_V \<noteq> 0"
  "(PA2PTE 0x80012000 OR PTE_V) AND PTE_V \<noteq> 0"
  by (simp_all add: PTE2PA_def PA2PTE_def pte_flag_defs)

lemma user_table_maps: "maps_page user_table 0x80010000 TRAPFRAME 0x80013000"
proof -
  have l: "(2::nat) = Suc (Suc 0)" by simp
  have "walk_ro 2 user_table 0x80010000 TRAPFRAME = 0x80012FF0" "walk_path 2 user_table 0x80010000 TRAPFRAME = [0x800107F8, 0x80011FF8, 0x80012FF0]"
    using trapframe_index user_table_loads user_table_pte by (simp_all add: l pte_addr_def Let_def)
  moreover have "4096 \<le> unat (a + of_nat i - (0x80013000 :: u64))" if "a \<in> {0x800107F8, 0x80011FF8, 0x80012FF0}" "i < 8" for a :: u64 and i
  proof -
    have "i \<in> {0, 1, 2, 3, 4, 5, 6, 7}" using that(2) by auto
    then show ?thesis using that(1) by auto
  qed
  ultimately show ?thesis
    using user_table_loads user_table_pte
    by (simp add: maps_page_def page_aligned_def TRAPFRAME_def TRAMPOLINE_def MAXVA_def PGSIZE_def push_bit_eq_mult)
      (simp add: PA2PTE_def pte_flag_defs)
qed


lemma tramp_ex_user:
  "in_user 0 tramp_ex" "r_scause (khart (snd tramp_ex)) = 8" "r_sepc (khart (snd tramp_ex)) = 0x40"
  "\<not> p_killed (procs (snd tramp_ex) 0)" "p_pid (procs (snd tramp_ex) 0) = 0" "xreg tramp_ex A7 = 11" "xreg tramp_ex S3 = 5"
  "p_trapframe (procs (snd tramp_ex) 0) = 0x80013000" "p_pagetable (procs (snd tramp_ex) 0) = 0x80010000" "sym_usertrap (snd tramp_ex) = 0x80002000"
  "mem (snd tramp_ex) = user_table"
  using user_table_maps user_table_loads(4)
  by (simp_all add: in_user_def frame_mapped_def tramp_ex_def get_csr_def xreg_def get_tf_def tf_defs ktrap_ex_fields ksync_ex_def csr_defs page_aligned_def Let_def)

theorem syscall_carries_registers_witness:
  "\<exists>st1 fn a0 a1 t st'. run_asm False uservec tramp_ex = Jumped 0x80002000 st1 \<and> usertrap (snd st1) = Inr (ToUser (fn, a0, a1) t) \<and>
     run_asm False userret ((\<lambda>_. 0)(A0 := a0, A1 := a1), t) = SretTo st' \<and> xreg st' S3 = 5 \<and> xreg st' A0 = 0 \<and> r_sepc (khart (snd st')) = 0x44"
proof -
  note e = tramp_ex_user
  have num: "map_of syscalls (sint (ucast (xreg tramp_ex A7) :: u32)) = Some sys_getpid" by (simp add: e(6) syscalls_def)
  obtain st1 and s :: ktrap where run: "run_asm False uservec tramp_ex = Jumped 0x80002000 st1" and s: "procs s = procs (snd tramp_ex)" "curproc s = Some 0"
    and regs: "\<forall>r. (if r = A0 then get_tf 0 (tf_a 0) s else frame_reg 0 s r) = xreg tramp_ex r" and epc: "get_tf 0 tf_epc s = 0x40 + 4"
    and out: "\<forall>x. 4096 \<le> unat (x - 0x80013000) \<longrightarrow> mem s x = user_table x"
    and ret: "\<forall>v u. sys_getpid s = Inr (v, u) \<longrightarrow> \<not> p_killed (procs u 0) \<longrightarrow> frame_mapped 0 u \<longrightarrow>
      (\<exists>fn a0 a1 t. usertrap (snd st1) = Inr (ToUser (fn, a0, a1) t) \<and>
        (\<forall>g. g A0 = a0 \<longrightarrow> g A1 = a1 \<longrightarrow>
          (\<exists>st'. run_asm False userret (g, t) = SretTo st' \<and> (\<forall>r. xreg st' r = (if r = A0 then v else frame_reg 0 u r)) \<and>
            r_sepc (khart (snd st')) = get_tf 0 tf_epc u \<and> in_user 0 st')))"
    using syscall_carries_registers [OF e(1,2,4) num] unfolding e(3,8,10,11) by (elim exE conjE) (rule that)
  have "maps_page (mem s) 0x80010000 TRAPFRAME 0x80013000" by (rule maps_page_cong [OF user_table_maps]) (use out in blast)
  then have fm: "frame_mapped 0 s" using s by (simp add: frame_mapped_def e page_aligned_def)
  have "sys_getpid s = Inr (0, s)" using s e(5) by (simp add: sys_getpid_def)
  moreover have "\<not> p_killed (procs s 0)" using s(1) e(4) by simp
  ultimately obtain fn a0 a1 t where ut: "usertrap (snd st1) = Inr (ToUser (fn, a0, a1) t)"
    and g: "\<forall>g. g A0 = a0 \<longrightarrow> g A1 = a1 \<longrightarrow>
          (\<exists>st'. run_asm False userret (g, t) = SretTo st' \<and> (\<forall>r. xreg st' r = (if r = A0 then 0 else frame_reg 0 s r)) \<and>
            r_sepc (khart (snd st')) = get_tf 0 tf_epc s \<and> in_user 0 st')" using ret fm by blast
  obtain st' where "run_asm False userret ((\<lambda>_. 0)(A0 := a0, A1 := a1), t) = SretTo st'" "\<forall>r. xreg st' r = (if r = A0 then 0 else frame_reg 0 s r)"
    "r_sepc (khart (snd st')) = 0x44" using spec [OF g, of "(\<lambda>_. 0)(A0 := a0, A1 := a1)"] epc by auto
  moreover have "frame_reg 0 s S3 = 5" using spec [OF regs, of S3] e(7) by simp
  ultimately show ?thesis using run ut by (intro exI conjI) simp_all
qed

end
