(* ===== verification/Grind.thy ===== *)
theory Grind
  imports Xv6_Base "HOL-Library.Signed_Division"
begin

section \<open>The random numbers of grind\<close>

text \<open>
  \<^verbatim>\<open>do_rand\<close> and \<^verbatim>\<open>rand\<close> of \<^verbatim>\<open>user/grind.c\<close>. A \<^verbatim>\<open>long\<close> is an \<open>int\<close> here, with the truncating division of C, and the theorem shows
  that all intermediate values are far from overflow.
\<close>

definition rand_seed :: "u64 \<Rightarrow> int" where
  "rand_seed ctx = uint (ctx mod 0x7ffffffe) + 1"

definition do_rand :: "u64 \<Rightarrow> int \<times> u64" where
  "do_rand ctx =
     (let x = rand_seed ctx;
          hi = x sdiv 127773;
          lo = x smod 127773;
          x = 16807 * lo - 2836 * hi;
          x = (if x < 0 then x + 0x7fffffff else x);
          x = x - 1
      in (x, of_int x))"

text \<open>\<^verbatim>\<open>rand_next\<close> is the state; the result is an \<^verbatim>\<open>int\<close>.\<close>

definition rand :: "u64 \<Rightarrow> int \<times> u64" where
  "rand rand_next = do_rand rand_next"

lemma rand_seed_range: "1 \<le> rand_seed ctx" "rand_seed ctx < 0x7fffffff"
proof -
  have "uint (ctx mod 0x7ffffffe) = uint ctx mod 0x7ffffffe" by (simp add: uint_mod)
  then show "1 \<le> rand_seed ctx" "rand_seed ctx < 0x7fffffff" by (simp_all add: rand_seed_def)
qed

text \<open>The decomposition of the modulus that the comment in the code gives, and what it is good for.\<close>

lemma schrage:
  fixes x :: int
  assumes "1 \<le> x" "x < 0x7fffffff" and hl: "hi = x div 127773" "lo = x mod 127773"
  shows "0 \<le> 16807 * lo" "16807 * lo < 0x7fffffff" "0 \<le> 2836 * hi" "2836 * hi < 0x7fffffff"
    and "(16807 * lo - 2836 * hi) mod 0x7fffffff = 16807 * x mod 0x7fffffff"
proof -
  have lo: "0 \<le> lo" "lo < 127773" unfolding hl by simp_all
  have x: "x = 127773 * hi + lo" unfolding hl by (rule mult_div_mod_eq [symmetric])
  show "0 \<le> 16807 * lo" "16807 * lo < 0x7fffffff" using lo by simp_all
  have "0 \<le> hi" "hi \<le> 16807" using x lo assms(1,2) by linarith+
  then show "0 \<le> 2836 * hi" "2836 * hi < 0x7fffffff" by simp_all
  from x have "16807 * x = 16807 * lo - 2836 * hi + hi * 0x7fffffff" by simp
  then have "16807 * x mod 0x7fffffff = (16807 * lo - 2836 * hi + hi * 0x7fffffff) mod 0x7fffffff" by (rule arg_cong)
  then show "(16807 * lo - 2836 * hi) mod 0x7fffffff = 16807 * x mod 0x7fffffff" by (simp only: mod_mult_self1)
qed

lemma schrage_step:
  fixes a b :: int
  assumes "0 \<le> a" "a < 0x7fffffff" "0 \<le> b" "b < 0x7fffffff"
  shows "(if a - b < 0 then a - b + 0x7fffffff else a - b) = (a - b) mod 0x7fffffff" and "\<bar>a\<bar> < 2 ^ 31" "\<bar>b\<bar> < 2 ^ 31" "\<bar>a - b\<bar> < 2 ^ 31"
proof -
  have "(a - b + 0x7fffffff) mod 0x7fffffff = a - b + 0x7fffffff" if "a - b < 0" using assms that by (intro mod_pos_pos_trivial) simp_all
  moreover have "(a - b) mod 0x7fffffff = a - b" if "\<not> a - b < 0" using assms that by (intro mod_pos_pos_trivial) simp_all
  ultimately show "(if a - b < 0 then a - b + 0x7fffffff else a - b) = (a - b) mod 0x7fffffff" by simp
  show "\<bar>a\<bar> < 2 ^ 31" "\<bar>b\<bar> < 2 ^ 31" "\<bar>a - b\<bar> < 2 ^ 31" using assms by simp_all
qed

text \<open>The product is never 0 modulo the prime.\<close>

lemma rand_product_nonzero:
  fixes x :: int
  assumes "1 \<le> x" "x < 0x7fffffff"
  shows "16807 * x mod 0x7fffffff \<noteq> 0"
proof
  assume "16807 * x mod 0x7fffffff = 0"
  then obtain k where k: "16807 * x = 0x7fffffff * k" by (auto elim: dvdE)
  have "x = 1407677000 * (16807 * x) - 0x7fffffff * (11017 * x)" by simp
  also have "\<dots> = 0x7fffffff * (1407677000 * k - 11017 * x)" unfolding k by (simp add: algebra_simps)
  finally have "0x7fffffff dvd x" by (rule dvdI)
  then show False using assms zdvd_imp_le by fastforce
qed

text \<open>
  C23. \<^verbatim>\<open>do_rand\<close> computes the generator of Park and Miller: with the state mapped to \<open>x\<close> between 1 and 2^31 - 2, the result and
  the new state are 7^5 \<open>x\<close> mod (2^31 - 1), less 1, and no intermediate value needs more than 31 bits and a sign.
\<close>

theorem do_rand_park_miller:
  "let x = rand_seed ctx; y = 7 ^ 5 * x mod (2 ^ 31 - 1) in
    1 \<le> x \<and> x \<le> 2 ^ 31 - 2 \<and> do_rand ctx = (y - 1, of_int (y - 1)) \<and> 0 \<le> y - 1 \<and> y - 1 \<le> 2 ^ 31 - 3 \<and>
    \<bar>16807 * (x smod 127773)\<bar> < 2 ^ 31 \<and> \<bar>2836 * (x sdiv 127773)\<bar> < 2 ^ 31 \<and>
    \<bar>16807 * (x smod 127773) - 2836 * (x sdiv 127773)\<bar> < 2 ^ 31"
proof -
  define x where "x = rand_seed ctx"
  have x: "1 \<le> x" "x < 0x7fffffff" unfolding x_def by (rule rand_seed_range)+
  have d: "x sdiv 127773 = x div 127773" "x smod 127773 = x mod 127773"
    using x by (simp_all add: signed_divide_int_def signed_modulo_int_def sgn_if minus_div_mult_eq_mod)
  note s = schrage [OF x refl refl]
  let ?y = "16807 * x mod 0x7fffffff"
  have y: "0 < ?y" "?y < 0x7fffffff" using rand_product_nonzero [OF x] pos_mod_sign [of "0x7fffffff" "16807 * x"] by simp_all
  note e = schrage_step [OF s(1-4)]
  have "do_rand ctx = (?y - 1, of_int (?y - 1))" unfolding do_rand_def Let_def x_def [symmetric] d e(1) s(5) by (rule refl)
  moreover have "1 \<le> x" "x \<le> 2 ^ 31 - 2" "0 \<le> ?y - 1" "?y - 1 \<le> 2 ^ 31 - 3" "(7 ^ 5 :: int) = 16807" "(2 ^ 31 - 1 :: int) = 0x7fffffff"
    using x y by simp_all
  ultimately show ?thesis using e(2-4) unfolding Let_def x_def [symmetric] d by metis
qed

end
