(* ===== verification/User_Main.thy ===== *)
theory User_Main
  imports User_Tools Grep Format
begin

section \<open>The main functions of the user programs\<close>

text \<open>
  \<^verbatim>\<open>main\<close> of \<^verbatim>\<open>cat\<close>, \<^verbatim>\<open>wc\<close>, \<^verbatim>\<open>grep\<close>, \<^verbatim>\<open>rm\<close>, \<^verbatim>\<open>mkdir\<close>, \<^verbatim>\<open>ln\<close>, \<^verbatim>\<open>kill\<close>, \<^verbatim>\<open>sleep\<close>, \<^verbatim>\<open>ls\<close>, \<^verbatim>\<open>ps\<close>, \<^verbatim>\<open>pstree\<close> and \<^verbatim>\<open>init\<close>. The arguments
  are those after \<^verbatim>\<open>argv[0]\<close>. A program is a function of its system calls; the files that it reads (state \<open>'r\<close>) and what it
  writes (state \<open>'w\<close>) are apart, and the result is the exit status with both. \<open>fd_writer\<close> is \<^verbatim>\<open>write\<close>.
\<close>

abbreviation (input) tab :: char where "tab \<equiv> CHR 0x09"

type_synonym 'w fd_writer = "int \<Rightarrow> 'w writer"
type_synonym 'r opener = "string \<Rightarrow> 'r \<Rightarrow> int \<times> 'r"

text \<open>\<^verbatim>\<open>putc\<close>, \<^verbatim>\<open>fprintf\<close> and \<^verbatim>\<open>printf\<close>: one \<^verbatim>\<open>write\<close> for each character.\<close>

definition putc :: "'w fd_writer \<Rightarrow> int \<Rightarrow> char \<Rightarrow> 'w \<Rightarrow> 'w" where
  "putc wr fd c w = snd (wr fd [c] w)"

definition fprintf :: "'w fd_writer \<Rightarrow> int \<Rightarrow> string \<Rightarrow> varg list \<Rightarrow> 'w \<Rightarrow> 'w option" where
  "fprintf wr fd fmt args w = map_option (\<lambda>out. fold (putc wr fd) out w) (vprintf fmt args)"

definition uprintf :: "'w fd_writer \<Rightarrow> string \<Rightarrow> varg list \<Rightarrow> 'w \<Rightarrow> 'w option" where
  "uprintf wr fmt args w = fprintf wr 1 fmt args w"

text \<open>Print a message and exit.\<close>

definition say_exit :: "'w fd_writer \<Rightarrow> int \<Rightarrow> string \<Rightarrow> varg list \<Rightarrow> int \<Rightarrow> 'r \<Rightarrow> 'w \<Rightarrow> (int \<times> 'r \<times> 'w) option" where
  "say_exit wr fd fmt args status r w = map_option (\<lambda>w. (status, r, w)) (fprintf wr fd fmt args w)"

subsection \<open>\<^verbatim>\<open>cat\<close>, \<^verbatim>\<open>wc\<close> and \<^verbatim>\<open>grep\<close>\<close>

text \<open>
  \<open>rd fd\<close> is \<^verbatim>\<open>read\<close> on a descriptor. The message of \<^verbatim>\<open>cat\<close> about an error goes to descriptor 2 with a newline.
\<close>

definition cat_fd :: "(int \<Rightarrow> 'r reader) \<Rightarrow> 'w fd_writer \<Rightarrow> int \<Rightarrow> 'r \<Rightarrow> 'w \<Rightarrow> ((int \<times> 'r \<times> 'w) + 'r \<times> 'w) option" where
  "cat_fd rd wr fd r w =
     Option.bind (cat (rd fd) (wr 1) r w) (\<lambda>x.
     case x of
       Inl (e, r, w) \<Rightarrow> map_option Inl (say_exit wr 2 (e @ [nl]) [] 1 r w)
     | Inr (r, w) \<Rightarrow> Some (Inr (r, w)))"

fun cat_files :: "'r opener \<Rightarrow> (int \<Rightarrow> 'r reader) \<Rightarrow> (int \<Rightarrow> 'r \<Rightarrow> 'r) \<Rightarrow> 'w fd_writer \<Rightarrow> string list \<Rightarrow> 'r \<Rightarrow> 'w \<Rightarrow> (int \<times> 'r \<times> 'w) option" where
  "cat_files op rd cl wr [] r w = Some (0, r, w)"
| "cat_files op rd cl wr (a # as) r w =
     (let (fd, r) = op a r in
      if fd < 0 then say_exit wr 2 (''cat: cannot open %s'' @ [nl]) [StrArg (Some a)] 1 r w
      else
        Option.bind (cat_fd rd wr fd r w) (\<lambda>x.
        case x of Inl e \<Rightarrow> Some e | Inr (r, w) \<Rightarrow> cat_files op rd cl wr as (cl fd r) w))"

definition cat_main :: "'r opener \<Rightarrow> (int \<Rightarrow> 'r reader) \<Rightarrow> (int \<Rightarrow> 'r \<Rightarrow> 'r) \<Rightarrow> 'w fd_writer \<Rightarrow> string list \<Rightarrow> 'r \<Rightarrow> 'w \<Rightarrow> (int \<times> 'r \<times> 'w) option" where
  "cat_main op rd cl wr args r w =
     (if args = [] then
        Option.bind (cat_fd rd wr 0 r w) (\<lambda>x.
        case x of Inl e \<Rightarrow> Some e | Inr (r, w) \<Rightarrow> Some (0, r, w))
      else cat_files op rd cl wr args r w)"

definition wc_fd :: "(int \<Rightarrow> 'r reader) \<Rightarrow> 'w fd_writer \<Rightarrow> int \<Rightarrow> string \<Rightarrow> 'r \<Rightarrow> 'w \<Rightarrow> ((int \<times> 'r \<times> 'w) + 'r \<times> 'w) option" where
  "wc_fd rd wr fd name r w =
     Option.bind (wc (rd fd) r) (\<lambda>x.
     case x of
       Inl (e, r) \<Rightarrow> map_option Inl (say_exit wr 1 (e @ [nl]) [] 1 r w)
     | Inr ((l, n, c), r) \<Rightarrow>
         map_option (\<lambda>w. Inr (r, w)) (uprintf wr (''%d %d %d %s'' @ [nl]) [IntArg l, IntArg n, IntArg c, StrArg (Some name)] w))"

fun wc_files :: "'r opener \<Rightarrow> (int \<Rightarrow> 'r reader) \<Rightarrow> (int \<Rightarrow> 'r \<Rightarrow> 'r) \<Rightarrow> 'w fd_writer \<Rightarrow> string list \<Rightarrow> 'r \<Rightarrow> 'w \<Rightarrow> (int \<times> 'r \<times> 'w) option" where
  "wc_files op rd cl wr [] r w = Some (0, r, w)"
| "wc_files op rd cl wr (a # as) r w =
     (let (fd, r) = op a r in
      if fd < 0 then say_exit wr 1 (''wc: cannot open %s'' @ [nl]) [StrArg (Some a)] 1 r w
      else
        Option.bind (wc_fd rd wr fd a r w) (\<lambda>x.
        case x of Inl e \<Rightarrow> Some e | Inr (r, w) \<Rightarrow> wc_files op rd cl wr as (cl fd r) w))"

definition wc_main :: "'r opener \<Rightarrow> (int \<Rightarrow> 'r reader) \<Rightarrow> (int \<Rightarrow> 'r \<Rightarrow> 'r) \<Rightarrow> 'w fd_writer \<Rightarrow> string list \<Rightarrow> 'r \<Rightarrow> 'w \<Rightarrow> (int \<times> 'r \<times> 'w) option" where
  "wc_main op rd cl wr args r w =
     (if args = [] then
        Option.bind (wc_fd rd wr 0 '''' r w) (\<lambda>x.
        case x of Inl e \<Rightarrow> Some e | Inr (r, w) \<Rightarrow> Some (0, r, w))
      else wc_files op rd cl wr args r w)"

text \<open>\<^verbatim>\<open>grep\<close> does not look at the result of its writes.\<close>

definition grep_fd :: "(int \<Rightarrow> 'r reader) \<Rightarrow> 'w fd_writer \<Rightarrow> string \<Rightarrow> int \<Rightarrow> 'r \<Rightarrow> 'w \<Rightarrow> ('r \<times> 'w) option" where
  "grep_fd rd wr pat fd r w = map_option (\<lambda>(outs, r). (r, fold (\<lambda>l w. snd (wr 1 l w)) outs w)) (grep (rd fd) pat [] r)"

fun grep_files :: "'r opener \<Rightarrow> (int \<Rightarrow> 'r reader) \<Rightarrow> (int \<Rightarrow> 'r \<Rightarrow> 'r) \<Rightarrow> 'w fd_writer \<Rightarrow> string \<Rightarrow> string list \<Rightarrow> 'r \<Rightarrow> 'w \<Rightarrow> (int \<times> 'r \<times> 'w) option" where
  "grep_files op rd cl wr pat [] r w = Some (0, r, w)"
| "grep_files op rd cl wr pat (a # as) r w =
     (let (fd, r) = op a r in
      if fd < 0 then say_exit wr 1 (''grep: cannot open %s'' @ [nl]) [StrArg (Some a)] 1 r w
      else Option.bind (grep_fd rd wr pat fd r w) (\<lambda>(r, w). grep_files op rd cl wr pat as (cl fd r) w))"

definition grep_main :: "'r opener \<Rightarrow> (int \<Rightarrow> 'r reader) \<Rightarrow> (int \<Rightarrow> 'r \<Rightarrow> 'r) \<Rightarrow> 'w fd_writer \<Rightarrow> string list \<Rightarrow> 'r \<Rightarrow> 'w \<Rightarrow> (int \<times> 'r \<times> 'w) option" where
  "grep_main op rd cl wr args r w =
     (case args of
        [] \<Rightarrow> say_exit wr 2 (''usage: grep pattern [file ...]'' @ [nl]) [] 1 r w
      | [pat] \<Rightarrow> map_option (\<lambda>(r, w). (0, r, w)) (grep_fd rd wr pat 0 r w)
      | pat # files \<Rightarrow> grep_files op rd cl wr pat files r w)"

subsection \<open>Programs that change the file system or other processes\<close>

text \<open>\<^verbatim>\<open>rm\<close> and \<^verbatim>\<open>mkdir\<close> stop at the first failure, and exit with 0 all the same.\<close>

fun rm_loop :: "'r opener \<Rightarrow> 'w fd_writer \<Rightarrow> string list \<Rightarrow> 'r \<Rightarrow> 'w \<Rightarrow> (int \<times> 'r \<times> 'w) option" where
  "rm_loop unlink wr [] r w = Some (0, r, w)"
| "rm_loop unlink wr (a # as) r w =
     (let (v, r) = unlink a r in
      if v < 0 then say_exit wr 2 (''rm: %s failed to delete'' @ [nl]) [StrArg (Some a)] 0 r w
      else rm_loop unlink wr as r w)"

definition rm_main :: "'r opener \<Rightarrow> 'w fd_writer \<Rightarrow> string list \<Rightarrow> 'r \<Rightarrow> 'w \<Rightarrow> (int \<times> 'r \<times> 'w) option" where
  "rm_main unlink wr args r w =
     (if args = [] then say_exit wr 2 (''Usage: rm files...'' @ [nl]) [] 1 r w else rm_loop unlink wr args r w)"

fun mkdir_loop :: "'r opener \<Rightarrow> 'w fd_writer \<Rightarrow> string list \<Rightarrow> 'r \<Rightarrow> 'w \<Rightarrow> (int \<times> 'r \<times> 'w) option" where
  "mkdir_loop mkdir wr [] r w = Some (0, r, w)"
| "mkdir_loop mkdir wr (a # as) r w =
     (let (v, r) = mkdir a r in
      if v < 0 then say_exit wr 2 (''mkdir: %s failed to create'' @ [nl]) [StrArg (Some a)] 0 r w
      else mkdir_loop mkdir wr as r w)"

definition mkdir_main :: "'r opener \<Rightarrow> 'w fd_writer \<Rightarrow> string list \<Rightarrow> 'r \<Rightarrow> 'w \<Rightarrow> (int \<times> 'r \<times> 'w) option" where
  "mkdir_main mkdir wr args r w =
     (if args = [] then say_exit wr 2 (''Usage: mkdir files...'' @ [nl]) [] 1 r w else mkdir_loop mkdir wr args r w)"

definition ln_main :: "(string \<Rightarrow> string \<Rightarrow> 'r \<Rightarrow> int \<times> 'r) \<Rightarrow> 'w fd_writer \<Rightarrow> string list \<Rightarrow> 'r \<Rightarrow> 'w \<Rightarrow> (int \<times> 'r \<times> 'w) option" where
  "ln_main link wr args r w =
     (case args of
        [old, new] \<Rightarrow>
          (let (v, r) = link old new r in
           if v < 0 then say_exit wr 2 (''link %s %s: failed'' @ [nl]) [StrArg (Some old), StrArg (Some new)] 0 r w else Some (0, r, w))
      | _ \<Rightarrow> say_exit wr 2 (''Usage: ln old new'' @ [nl]) [] 1 r w)"

definition kill_main :: "(u32 \<Rightarrow> 'r \<Rightarrow> int \<times> 'r) \<Rightarrow> 'w fd_writer \<Rightarrow> string list \<Rightarrow> 'r \<Rightarrow> 'w \<Rightarrow> (int \<times> 'r \<times> 'w) option" where
  "kill_main kill wr args r w =
     (if args = [] then say_exit wr 2 (''usage: kill pid...'' @ [nl]) [] 1 r w
      else Some (0, fold (\<lambda>a r. snd (kill (atoi a) r)) args r, w))"

definition sleep_main :: "(u32 \<Rightarrow> 'r \<Rightarrow> int \<times> 'r) \<Rightarrow> 'w fd_writer \<Rightarrow> string list \<Rightarrow> 'r \<Rightarrow> 'w \<Rightarrow> (int \<times> 'r \<times> 'w) option" where
  "sleep_main sleep wr args r w =
     (case args of
        [a] \<Rightarrow> Some (0, snd (sleep (atoi a) r), w)
      | _ \<Rightarrow> say_exit wr 2 (''usage: sleep ticks'' @ [nl]) [] 1 r w)"

subsection \<open>\<^verbatim>\<open>ls\<close>\<close>

record ustat_buf =
  us_type :: u16
  us_ino :: u32
  us_size :: u64

text \<open>\<^verbatim>\<open>fstat\<close> and \<^verbatim>\<open>stat\<close>: \<open>None\<close> is the result -1. A directory entry is two bytes of inode number and fourteen of name.\<close>

definition de_number :: "string \<Rightarrow> nat" where
  "de_number bs = of_char (bs ! 0) + 256 * of_char (bs ! 1)"

definition de_string :: "string \<Rightarrow> string" where
  "de_string bs = takeWhile (\<lambda>c. c \<noteq> nul) (take 14 (drop 2 bs))"

definition ls_line :: "string \<Rightarrow> ustat_buf option \<Rightarrow> string \<times> varg list" where
  "ls_line buf st =
     (case st of
        None \<Rightarrow> (''ls: cannot stat %s'' @ [nl], [StrArg (Some buf)])
      | Some st \<Rightarrow> (''%s %d %d %d'' @ [nl], [StrArg (Some (fmtname buf)), IntArg (scast (us_type st)), IntArg (us_ino st), IntArg (ucast (us_size st))]))"

partial_function (option) ls_entries ::
    "'r reader \<Rightarrow> (string \<Rightarrow> 'r \<Rightarrow> ustat_buf option \<times> 'r) \<Rightarrow> 'w fd_writer \<Rightarrow> string \<Rightarrow> 'r \<Rightarrow> 'w \<Rightarrow> ('r \<times> 'w) option" where
  "ls_entries rd stat wr path r w =
     (case rd 16 r of
        (None, r) \<Rightarrow> Some (r, w)
      | (Some bs, r) \<Rightarrow>
          if length bs \<noteq> 16 then Some (r, w)
          else if de_number bs = 0 then ls_entries rd stat wr path r w
          else
            (let buf = path @ CHR ''/'' # de_string bs; (st, r) = stat buf r; (fmt, args) = ls_line buf st in
             Option.bind (uprintf wr fmt args w) (\<lambda>w. ls_entries rd stat wr path r w)))"

definition ls ::
    "'r opener \<Rightarrow> (int \<Rightarrow> 'r \<Rightarrow> ustat_buf option \<times> 'r) \<Rightarrow> (int \<Rightarrow> 'r reader) \<Rightarrow> (string \<Rightarrow> 'r \<Rightarrow> ustat_buf option \<times> 'r) \<Rightarrow>
     (int \<Rightarrow> 'r \<Rightarrow> 'r) \<Rightarrow> 'w fd_writer \<Rightarrow> string \<Rightarrow> 'r \<Rightarrow> 'w \<Rightarrow> ('r \<times> 'w) option" where
  "ls op fstat rd stat cl wr path r w =
     (let (fd, r) = op path r in
      if fd < 0 then Option.bind (fprintf wr 2 (''ls: cannot open %s'' @ [nl]) [StrArg (Some path)] w) (\<lambda>w. Some (r, w))
      else
        (case fstat fd r of
           (None, r) \<Rightarrow> Option.bind (fprintf wr 2 (''ls: cannot stat %s'' @ [nl]) [StrArg (Some path)] w) (\<lambda>w. Some (cl fd r, w))
         | (Some st, r) \<Rightarrow>
             Option.bind
               (if us_type st = 2 then
                  Option.bind (uprintf wr (''%s %d %d %l'' @ [nl])
                    [StrArg (Some (fmtname path)), IntArg (scast (us_type st)), IntArg (us_ino st), LongArg (us_size st)] w) (\<lambda>w. Some (r, w))
                else if us_type st = 1 then
                  if length path + 1 + 14 + 1 > 512 then Option.bind (uprintf wr (''ls: path too long'' @ [nl]) [] w) (\<lambda>w. Some (r, w))
                  else ls_entries (rd fd) stat wr path r w
                else Some (r, w))
               (\<lambda>(r, w). Some (cl fd r, w))))"

fun ls_all ::
    "(string \<Rightarrow> 'r \<Rightarrow> 'w \<Rightarrow> ('r \<times> 'w) option) \<Rightarrow> string list \<Rightarrow> 'r \<Rightarrow> 'w \<Rightarrow> (int \<times> 'r \<times> 'w) option" where
  "ls_all ls1 [] r w = Some (0, r, w)"
| "ls_all ls1 (a # as) r w = Option.bind (ls1 a r w) (\<lambda>(r, w). ls_all ls1 as r w)"

definition ls_main ::
    "'r opener \<Rightarrow> (int \<Rightarrow> 'r \<Rightarrow> ustat_buf option \<times> 'r) \<Rightarrow> (int \<Rightarrow> 'r reader) \<Rightarrow> (string \<Rightarrow> 'r \<Rightarrow> ustat_buf option \<times> 'r) \<Rightarrow>
     (int \<Rightarrow> 'r \<Rightarrow> 'r) \<Rightarrow> 'w fd_writer \<Rightarrow> string list \<Rightarrow> 'r \<Rightarrow> 'w \<Rightarrow> (int \<times> 'r \<times> 'w) option" where
  "ls_main op fstat rd stat cl wr args r w = ls_all (ls op fstat rd stat cl wr) (if args = [] then [''.''] else args) r w"

subsection \<open>\<^verbatim>\<open>ps\<close> and \<^verbatim>\<open>pstree\<close>\<close>

text \<open>
  The result of \<^verbatim>\<open>getprocs\<close> is \<open>None\<close> when it is negative. \<open>ps_state\<close> is the array \<^verbatim>\<open>states\<close>, with null pointers at \<^verbatim>\<open>UNUSED\<close> and
  \<^verbatim>\<open>USED\<close>; an index after its end has no value.
\<close>

record ps_stat = upstat +
  up_state :: nat
  up_size :: u64

definition ps_state :: "nat \<Rightarrow> string option option" where
  "ps_state n =
     (if n < 6 then Some ([None, None, Some ''sleeping'', Some ''runnable'', Some ''running '', Some ''zombie  ''] ! n) else None)"

definition ps_line :: "'w fd_writer \<Rightarrow> ps_stat \<Rightarrow> 'w \<Rightarrow> 'w option" where
  "ps_line wr u w =
     Option.bind (ps_state (up_state u)) (\<lambda>state.
     uprintf wr (''%d'' @ [tab] @ ''%s'' @ [tab] @ ''%l'' @ [tab] @ ''%d'' @ [tab] @ ''%s'' @ [nl])
       [IntArg (word_of_int (up_pid u)), StrArg state, LongArg (up_size u), IntArg (word_of_int (up_ppid u)), StrArg (Some (up_name u))] w)"

fun ps_lines :: "'w fd_writer \<Rightarrow> ps_stat list \<Rightarrow> 'w \<Rightarrow> 'w option" where
  "ps_lines wr [] w = Some w"
| "ps_lines wr (u # us) w = Option.bind (ps_line wr u w) (ps_lines wr us)"

definition ps_main :: "ps_stat list option \<Rightarrow> 'w fd_writer \<Rightarrow> 'w \<Rightarrow> (int \<times> 'w) option" where
  "ps_main procs wr w =
     (case procs of
        None \<Rightarrow> Some (- 1, w)
      | Some us \<Rightarrow>
          Option.bind (uprintf wr (''pid'' @ [tab] @ ''state'' @ [tab, tab] @ ''size'' @ [tab] @ ''ppid'' @ [tab] @ ''name'' @ [nl]) [] w) (\<lambda>w.
          Option.bind (ps_lines wr us w) (\<lambda>w. Some (0, w))))"

fun put_tree_line :: "'w fd_writer \<Rightarrow> tree_line \<Rightarrow> 'w \<Rightarrow> 'w option" where
  "put_tree_line wr (NotFound pid) w = uprintf wr (''pid %d not found'' @ [nl]) [IntArg (word_of_int pid)] w"
| "put_tree_line wr (TreeEntry n name pid) w =
     Option.bind (uprintf wr (concat (replicate n ''  '')) [] w)
       (uprintf wr (''%s(%d)'' @ [nl]) [StrArg (Some name), IntArg (word_of_int pid)])"

fun put_tree :: "'w fd_writer \<Rightarrow> tree_line list \<Rightarrow> 'w \<Rightarrow> 'w option" where
  "put_tree wr [] w = Some w"
| "put_tree wr (l # ts) w = Option.bind (put_tree_line wr l w) (put_tree wr ts)"

definition pstree_main :: "nat \<Rightarrow> upstat list option \<Rightarrow> 'w fd_writer \<Rightarrow> string list \<Rightarrow> 'w \<Rightarrow> (int \<times> 'w) option" where
  "pstree_main fuel procs wr args w =
     (let pid = (case args of [a] \<Rightarrow> sint (atoi a) | _ \<Rightarrow> 1) in
      case procs of
        None \<Rightarrow> Some (- 1, w)
      | Some us \<Rightarrow> Option.bind (mktree fuel us 0 pid) (\<lambda>ts. Option.bind (put_tree wr ts w) (\<lambda>w. Some (0, w))))"

subsection \<open>\<^verbatim>\<open>init\<close>\<close>

text \<open>
  After it has opened the console and printed that it starts the shell, \<^verbatim>\<open>init\<close> loops for ever, so it is a machine that takes the
  result of one call at a time: of \<^verbatim>\<open>fork\<close> at \<open>AtFork\<close>, of \<^verbatim>\<open>exec\<close> in the child, of \<^verbatim>\<open>wait\<close> at \<open>AtWait pid\<close>. A step gives the next
  call and what is printed before it.
\<close>

definition init_open :: "(string \<Rightarrow> u32 \<Rightarrow> 'r \<Rightarrow> int \<times> 'r) \<Rightarrow> (string \<Rightarrow> u16 \<Rightarrow> u16 \<Rightarrow> 'r \<Rightarrow> 'r) \<Rightarrow> (int \<Rightarrow> 'r \<Rightarrow> 'r) \<Rightarrow> 'r \<Rightarrow> 'r" where
  "init_open op mknod dup r =
     (let (fd, r) = op ''console'' 2 r;
          r = (if fd < 0 then snd (op ''console'' 2 (mknod ''console'' 1 0 r)) else r)
      in dup 0 (dup 0 r))"

datatype init_at = AtFork | InChild | AtWait int | InitExit int

fun init_step :: "init_at \<Rightarrow> int \<Rightarrow> init_at \<times> string" where
  "init_step AtFork pid =
     (if pid < 0 then (InitExit 1, ''init: fork failed'' @ [nl])
      else if pid = 0 then (InChild, [])
      else (AtWait pid, []))"
| "init_step InChild e = (InitExit 1, ''init: exec sh failed'' @ [nl])"
| "init_step (AtWait pid) wpid =
     (if wpid = pid then (AtFork, ''init: starting sh'' @ [nl])
      else if wpid < 0 then (InitExit 1, ''init: wait returned an error'' @ [nl])
      else (AtWait pid, []))"
| "init_step (InitExit e) x = (InitExit e, [])"

subsection \<open>What they write\<close>

text \<open>The output by descriptor, when every byte is taken.\<close>

definition takes_fd :: "(int \<Rightarrow> string) fd_writer" where
  "takes_fd fd bs w = (int (length bs), w(fd := w fd @ bs))"

text \<open>
  What the programs rely on. \<open>opens r\<close> are the open descriptors. Opening a file that does not exist fails; opening one that exists gives,
  when one of the \<^verbatim>\<open>NOFILE\<close> descriptors is free, a descriptor that was not open, whose remaining content is that of the file; \<^verbatim>\<open>read\<close> delivers
  the content of an open descriptor; neither opens or closes anything else. \<^verbatim>\<open>close\<close> closes a descriptor.
\<close>

definition free_fd :: "int set \<Rightarrow> bool" where
  "free_fd fds \<longleftrightarrow> (\<exists>fd. 0 \<le> fd \<and> fd < int NOFILE \<and> fd \<notin> fds)"

definition serves :: "'r opener \<Rightarrow> (int \<Rightarrow> 'r reader) \<Rightarrow> (int \<Rightarrow> 'r \<Rightarrow> 'r) \<Rightarrow> ('r \<Rightarrow> int set) \<Rightarrow> (string \<Rightarrow> string option) \<Rightarrow> (int \<Rightarrow> 'r \<Rightarrow> string) \<Rightarrow> bool" where
  "serves op rd cl opens files content \<longleftrightarrow>
     (\<forall>fd fds. fd \<in> fds \<longrightarrow> delivers_in (\<lambda>r. opens r = fds) (rd fd) (content fd)) \<and>
     (\<forall>fd r. fd \<in> opens r \<longrightarrow> opens (cl fd r) = opens r - {fd}) \<and>
     (\<forall>path r fd r'. op path r = (fd, r') \<longrightarrow>
        (case files path of
           None \<Rightarrow> fd < 0 \<and> opens r' = opens r
         | Some c \<Rightarrow> free_fd (opens r) \<longrightarrow> 0 \<le> fd \<and> fd \<notin> opens r \<and> opens r' = insert fd (opens r) \<and> content fd r' = c))"

lemma servesD:
  assumes "serves op rd cl opens files content"
  shows "fd \<in> fds \<Longrightarrow> delivers_in (\<lambda>r. opens r = fds) (rd fd) (content fd)"
    and "fd \<in> opens r \<Longrightarrow> opens (cl fd r) = opens r - {fd}"
    and "files path = None \<Longrightarrow> op path r = (fd, r') \<Longrightarrow> fd < 0 \<and> opens r' = opens r"
    and "files path = Some c \<Longrightarrow> op path r = (fd, r') \<Longrightarrow> free_fd (opens r) \<Longrightarrow>
      0 \<le> fd \<and> fd \<notin> opens r \<and> opens r' = insert fd (opens r) \<and> content fd r' = c"
proof -
  show "fd \<in> fds \<Longrightarrow> delivers_in (\<lambda>r. opens r = fds) (rd fd) (content fd)" "fd \<in> opens r \<Longrightarrow> opens (cl fd r) = opens r - {fd}"
    using assms unfolding serves_def by blast+
  show "files path = None \<Longrightarrow> op path r = (fd, r') \<Longrightarrow> fd < 0 \<and> opens r' = opens r"
    and "files path = Some c \<Longrightarrow> op path r = (fd, r') \<Longrightarrow> free_fd (opens r) \<Longrightarrow>
      0 \<le> fd \<and> fd \<notin> opens r \<and> opens r' = insert fd (opens r) \<and> content fd r' = c"
    using assms unfolding serves_def by fastforce+
qed

lemma fold_putc: "fold (putc takes_fd fd) out w = w(fd := w fd @ out)"
  by (induction out arbitrary: w) (simp_all add: putc_def takes_fd_def fun_eq_iff)


lemma cat_copies_fd: "delivers_in I rd content \<Longrightarrow> I r \<Longrightarrow> \<exists>r'. cat rd (takes_fd 1) r w = Some (Inr (r', w(1 := w 1 @ content r))) \<and> I r'"
proof (induction "length (content r)" arbitrary: r w rule: less_induct)
  case less
  obtain bs r' where r': "rd 512 r = (Some bs, r')" "content r = bs @ content r'" "bs = [] \<Longrightarrow> (512::nat) = 0 \<or> content r = []" "I r'"
    by (rule delivers_inE [OF less.prems, of 512], rule that)
  then show ?case using less.hyps [OF _ less.prems(1), of r' "w(1 := w 1 @ bs)"] by (subst cat.simps) (auto simp: takes_fd_def split: list.splits)
qed

lemma cannot_open: "vprintf (''cat: cannot open %s'' @ [nl]) [StrArg (Some a)] = Some (''cat: cannot open '' @ a @ [nl])"
  "vprintf (''grep: cannot open %s'' @ [nl]) [StrArg (Some a)] = Some (''grep: cannot open '' @ a @ [nl])"
  by (simp_all add: vprintf_def or_null_def nl_def)

text \<open>The arguments before the first one that names no file.\<close>

definition readable :: "(string \<Rightarrow> string option) \<Rightarrow> string list \<Rightarrow> string list" where
  "readable files args = takeWhile (\<lambda>a. files a \<noteq> None) args"

definition missing :: "(string \<Rightarrow> string option) \<Rightarrow> string list \<Rightarrow> string option" where
  "missing files args = find (\<lambda>a. files a = None) args"

lemma readable_simps [simp]:
  "readable files [] = []" "missing files [] = None"
  "files a = None \<Longrightarrow> readable files (a # as) = []" "files a = None \<Longrightarrow> missing files (a # as) = Some a"
  "files a = Some c \<Longrightarrow> readable files (a # as) = a # readable files as" "files a = Some c \<Longrightarrow> missing files (a # as) = missing files as"
  by (simp_all add: readable_def missing_def)

lemma cat_files_ok:
  assumes s: "serves op rd cl opens files content"
  shows "free_fd (opens r) \<Longrightarrow> \<exists>r'. cat_files op rd cl takes_fd args r w =
    Some (case missing files args of
      None \<Rightarrow> (0, r', w(1 := w 1 @ concat (map (\<lambda>a. the (files a)) (readable files args))))
    | Some a \<Rightarrow> (1, r', w(1 := w 1 @ concat (map (\<lambda>a. the (files a)) (readable files args)), 2 := w 2 @ ''cat: cannot open '' @ a @ [nl]))) \<and>
    opens r' = opens r"
proof (induction args arbitrary: r w)
  case (Cons a as)
  obtain fd r1 where o: "op a r = (fd, r1)" by fastforce
  show ?case
  proof (cases "files a")
    case None
    then show ?thesis using servesD(3) [OF s None o] o by (simp add: say_exit_def fprintf_def cannot_open [simplified] fold_putc)
  next
    case (Some c)
    have fd: "0 \<le> fd" "fd \<notin> opens r" "opens r1 = insert fd (opens r)" "content fd r1 = c" using servesD(4) [OF s Some o Cons.prems] by simp_all
    obtain r2 where r2: "cat (rd fd) (takes_fd 1) r1 w = Some (Inr (r2, w(1 := w 1 @ c)))" "opens r2 = insert fd (opens r)"
      using cat_copies_fd [OF servesD(1) [OF s, of fd "insert fd (opens r)"], of r1 w] fd(3,4) by auto
    define v where "v = w(1 := w 1 @ c)"
    have v: "v 1 = w 1 @ c" "v 2 = w 2" "v(1 := x) = w(1 := x)" for x by (simp_all add: v_def)
    have "cat_files op rd cl takes_fd (a # as) r w = cat_files op rd cl takes_fd as (cl fd r2) v" using o fd(1) r2 by (simp add: cat_fd_def v_def)
    moreover have "opens (cl fd r2) = opens r" using servesD(2) [OF s, of fd r2] r2(2) fd(2) by auto
    ultimately show ?thesis using Cons.IH [of "cl fd r2" v] Cons.prems Some by (cases "missing files as") (simp_all add: v del: cat_files.simps)
  qed
qed simp

lemma fold_takes: "fold (\<lambda>l w. snd (takes_fd 1 l w)) ts w = w(1 := w 1 @ concat ts)"
  by (induction ts arbitrary: w) (simp_all add: takes_fd_def fun_eq_iff)

text \<open>The lines that \<^verbatim>\<open>grep\<close> prints of one file.\<close>

definition matching :: "string \<Rightarrow> string \<Rightarrow> string" where
  "matching pat c = concat (map (\<lambda>l. l @ [nl]) (filter (match pat) (fitting_lines c)))"

lemma grep_files_ok:
  assumes s: "serves op rd cl opens files content" and tx: "\<And>a c. files a = Some c \<Longrightarrow> nul \<notin> set c"
  shows "free_fd (opens r) \<Longrightarrow> \<exists>r'. grep_files op rd cl takes_fd pat args r w =
    Some (case missing files args of
      None \<Rightarrow> (0, r', w(1 := w 1 @ concat (map (\<lambda>a. matching pat (the (files a))) (readable files args))))
    | Some a \<Rightarrow> (1, r', w(1 := w 1 @ concat (map (\<lambda>a. matching pat (the (files a))) (readable files args)) @ ''grep: cannot open '' @ a @ [nl]))) \<and>
    opens r' = opens r"
proof (induction args arbitrary: r w)
  case (Cons a as)
  obtain fd r1 where o: "op a r = (fd, r1)" by fastforce
  show ?case
  proof (cases "files a")
    case None
    then show ?thesis using servesD(3) [OF s None o] o by (simp add: say_exit_def fprintf_def cannot_open [simplified] fold_putc)
  next
    case (Some c)
    have fd: "0 \<le> fd" "fd \<notin> opens r" "opens r1 = insert fd (opens r)" "content fd r1 = c" using servesD(4) [OF s Some o Cons.prems] by simp_all
    obtain r2 where r2: "grep (rd fd) pat [] r1 = Some (map (\<lambda>l. l @ [nl]) (filter (match pat) (fitting_lines c)), r2)" "opens r2 = insert fd (opens r)"
      using grep_ok [OF servesD(1) [OF s, of fd "insert fd (opens r)"], of r1 "[]" pat] fd(3,4) tx [OF Some] by auto
    define v where "v = w(1 := w 1 @ matching pat c)"
    have v: "v 1 = w 1 @ matching pat c" "v(1 := x) = w(1 := x)" for x by (simp_all add: v_def)
    have "grep_files op rd cl takes_fd pat (a # as) r w = grep_files op rd cl takes_fd pat as (cl fd r2) v"
      using o fd(1) r2 by (simp add: grep_fd_def fold_takes matching_def v_def)
    moreover have "opens (cl fd r2) = opens r" using servesD(2) [OF s, of fd r2] r2(2) fd(2) by auto
    ultimately show ?thesis using Cons.IH [of "cl fd r2" v] Cons.prems Some by (cases "missing files as") (simp_all add: v del: grep_files.simps)
  qed
qed simp

text \<open>
  C22. \<^verbatim>\<open>grep pattern file ...\<close> on any number of files without nul bytes, started with one free descriptor, ends and writes the matching lines
  of the files in the order of the arguments, each line with its newline, however the reads cut the files into pieces. Of a file it considers
  the lines that end with a newline, up to the first of 1023 or more characters: the rest of the file is silently skipped. At the first
  file that cannot be opened it prints a message, on standard output, and exits with 1. Every file that it opened it has closed: the open
  descriptors at the end are those at the start.
\<close>

theorem grep_main_files:
  assumes "serves op rd cl opens files content" and "\<And>a c. files a = Some c \<Longrightarrow> nul \<notin> set c" and "args \<noteq> []" and "free_fd (opens r)"
  shows "\<exists>r'. grep_main op rd cl takes_fd (pat # args) r w = Some (case missing files args of
      None \<Rightarrow> (0, r', w(1 := w 1 @ concat (map (\<lambda>a. matching pat (the (files a))) (readable files args))))
    | Some a \<Rightarrow> (1, r', w(1 := w 1 @ concat (map (\<lambda>a. matching pat (the (files a))) (readable files args)) @ ''grep: cannot open '' @ a @ [nl]))) \<and>
    opens r' = opens r"
proof -
  obtain b bs where "args = b # bs" using assms(3) by (cases args) auto
  then have "grep_main op rd cl takes_fd (pat # args) r w = grep_files op rd cl takes_fd pat args r w" by (simp add: grep_main_def)
  then show ?thesis using grep_files_ok [OF assms(1,2,4)] by simp
qed

text \<open>\<^verbatim>\<open>cat file ...\<close> writes the contents of the files one after the other; its message goes to standard error.\<close>

lemma cat_main_files:
  assumes "serves op rd cl opens files content" and "args \<noteq> []" and "free_fd (opens r)"
  shows "\<exists>r'. cat_main op rd cl takes_fd args r w = Some (case missing files args of
      None \<Rightarrow> (0, r', w(1 := w 1 @ concat (map (\<lambda>a. the (files a)) (readable files args))))
    | Some a \<Rightarrow> (1, r', w(1 := w 1 @ concat (map (\<lambda>a. the (files a)) (readable files args)), 2 := w 2 @ ''cat: cannot open '' @ a @ [nl]))) \<and>
    opens r' = opens r"
  using cat_files_ok [OF assms(1,3)] assms(2) by (simp add: cat_main_def)

text \<open>\<^verbatim>\<open>rm\<close> asks for the removal of its arguments up to the first that fails.\<close>

lemma rm_loop_unlinks:
  assumes "\<And>a r. unlink a r = (if a \<in> r then (0, r - {a}) else (-1, r))" and "distinct args"
  shows "\<exists>status w'. rm_loop unlink wr args r w = Some (status, r - set (takeWhile (\<lambda>a. a \<in> r) args), w')"
  using assms(2)
proof (induction args arbitrary: r)
  case (Cons a as)
  show ?case
  proof (cases "a \<in> r")
    case True
    have tw: "takeWhile (\<lambda>x. x \<in> r - {a}) as = takeWhile (\<lambda>x. x \<in> r) as" using Cons.prems by (intro takeWhile_cong) auto
    have "rm_loop unlink wr (a # as) r w = rm_loop unlink wr as (r - {a}) w" using True by (simp add: assms(1))
    moreover obtain status w' where "rm_loop unlink wr as (r - {a}) w = Some (status, r - {a} - set (takeWhile (\<lambda>x. x \<in> r) as), w')"
      using Cons.IH [of "r - {a}"] Cons.prems unfolding tw by auto
    moreover have "r - {a} - set (takeWhile (\<lambda>x. x \<in> r) as) = r - set (takeWhile (\<lambda>x. x \<in> r) (a # as))" using True by auto
    ultimately show ?thesis by metis
  next
    case False
    have "\<exists>out. vprintf (''rm: %s failed to delete'' @ [nl]) [StrArg (Some a)] = Some out" by (simp add: vprintf_def or_null_def nl_def)
    then show ?thesis using False assms(1) by (auto simp: say_exit_def fprintf_def)
  qed
qed simp

text \<open>Two files and a table of descriptors that maps the open ones to what remains to be read, three bytes at a time.\<close>

definition two_files :: "string \<Rightarrow> string option" where
  "two_files a = (if a = ''a'' then Some (''ab'' @ nl # ''bc'' @ [nl]) else if a = ''b'' then Some (''bb'' @ [nl]) else None)"

definition open_two :: "(int \<rightharpoonup> string) opener" where
  "open_two a r =
     (case (two_files a, find (\<lambda>fd. r fd = None) [0..15]) of
        (Some c, Some fd) \<Rightarrow> (fd, r(fd \<mapsto> c))
      | _ \<Rightarrow> (-1, r))"

definition read_two :: "int \<Rightarrow> (int \<rightharpoonup> string) reader" where
  "read_two fd n r = (case r fd of None \<Rightarrow> (None, r) | Some c \<Rightarrow> (let (bs, c) = slow_read 2 n c in (bs, r(fd \<mapsto> c))))"

definition close_two :: "int \<Rightarrow> (int \<rightharpoonup> string) \<Rightarrow> int \<rightharpoonup> string" where
  "close_two fd r = r(fd := None)"

lemma serves_two: "serves open_two read_two close_two dom two_files (\<lambda>fd r. the (r fd))"
proof -
  have "delivers_in (\<lambda>r. dom r = fds) (read_two fd) (\<lambda>r. the (r fd))" if "fd \<in> fds" for fd and fds :: "int set"
    using that by (auto simp: delivers_in_def read_two_def slow_read_def)
  moreover have "0 \<le> fd \<and> fd \<notin> dom r \<and> dom r' = insert fd (dom r) \<and> the (r' fd) = c"
    if f: "two_files path = Some c" and o: "open_two path r = (fd, r')" and free: "free_fd (dom r)" for path r fd r' c
  proof -
    obtain i where "0 \<le> i" "i < int NOFILE" "i \<notin> dom r" using free unfolding free_fd_def by blast
    then have "0 \<le> i" "i \<le> 15" "r i = None" by (auto simp: NOFILE_def)
    then obtain d where d: "find (\<lambda>fd. r fd = None) [0..15] = Some d" using find_None_iff [of "\<lambda>fd. r fd = None" "[0..15]"] by fastforce
    have "r d = None" "0 \<le> d" using d by (auto simp: find_Some_iff)
    then show ?thesis using o f d by (auto simp: open_two_def)
  qed
  moreover have "fd < 0 \<and> dom r' = dom r" if "two_files path = None" "open_two path r = (fd, r')" for path r fd r'
    using that by (simp add: open_two_def)
  ultimately show ?thesis by (auto simp: serves_def close_two_def split: option.split)
qed

theorem grep_main_files_witness:
  "\<exists>r'. grep_main open_two read_two close_two takes_fd [''^b'', ''a'', ''b''] (\<lambda>_. None) (\<lambda>_. []) =
     Some (0, r', (\<lambda>_. [])(1 := ''bc'' @ nl # ''bb'' @ [nl])) \<and> dom r' = {}"
proof -
  have l: "lines (''ab'' @ nl # ''bc'' @ [nl]) = [''ab'', ''bc'']" "lines (''bb'' @ [nl]) = [''bb'']"
    using lines_line [of "''ab''" "''bc'' @ [nl]"] lines_line [of "''bc''" "[]"] lines_line [of "''bb''" "[]"]
    by (simp_all add: nl_def lines_none)
  have t: "nul \<notin> set c" if "two_files a = Some c" for a c
    using that by (auto simp: two_files_def nul_def nl_def split: if_splits)
  have "match ''^b'' ''bc''" "\<not> match ''^b'' ''ab''" "match ''^b'' ''bb''" by (simp_all add: match_def matchhere.simps)
  then have m: "matching ''^b'' (''ab'' @ nl # ''bc'' @ [nl]) = ''bc'' @ [nl]" "matching ''^b'' (''bb'' @ [nl]) = ''bb'' @ [nl]"
    unfolding matching_def fitting_lines_def l by simp_all
  have f: "two_files ''a'' = Some (''ab'' @ nl # ''bc'' @ [nl])" "two_files ''b'' = Some (''bb'' @ [nl])" by (simp_all add: two_files_def)
  have "free_fd (dom (\<lambda>_. None))" by (auto simp: free_fd_def NOFILE_def intro: exI [of _ 0])
  then show ?thesis
    using grep_main_files [OF serves_two t, where args = "[''a'', ''b'']" and pat = "''^b''" and r = "\<lambda>_. None" and w = "\<lambda>_. []"] m f by simp
qed

subsection \<open>\<^verbatim>\<open>ls\<close> of a directory and \<^verbatim>\<open>init\<close>\<close>

text \<open>
  On a directory of whole entries, read sixteen bytes at a time, \<^verbatim>\<open>ls\<close> ends and prints one line for each entry in use, in order.
\<close>

fun dir_lines :: "(string \<Rightarrow> ustat_buf option) \<Rightarrow> string \<Rightarrow> string list \<Rightarrow> (string \<times> varg list) list" where
  "dir_lines st path [] = []"
| "dir_lines st path (e # es) =
     (if de_number e = 0 then [] else [let buf = path @ CHR ''/'' # de_string e in ls_line buf (st buf)]) @ dir_lines st path es"

fun print_all :: "'w fd_writer \<Rightarrow> (string \<times> varg list) list \<Rightarrow> 'w \<Rightarrow> 'w option" where
  "print_all wr [] w = Some w"
| "print_all wr ((fmt, args) # ts) w = Option.bind (uprintf wr fmt args w) (print_all wr ts)"

lemma ls_entries_lists:
  assumes "\<And>r. rd 16 r = (Some (take 16 (content r)), adv r)" and "\<And>r. content (adv r) = drop 16 (content r)"
    and "\<And>p r. stat p r = (st p, r)"
  shows "content r = concat es \<Longrightarrow> (\<And>e. e \<in> set es \<Longrightarrow> length e = 16) \<Longrightarrow>
    \<exists>r'. ls_entries rd stat wr path r w = map_option (Pair r') (print_all wr (dir_lines st path es) w)"
proof (induction es arbitrary: r w)
  case Nil
  then show ?case by (subst ls_entries.simps) (simp add: assms(1))
next
  case (Cons e es)
  have e: "take 16 (content r) = e" and c: "content (adv r) = concat es" using Cons.prems by (simp_all add: assms(2))
  have ih: "\<exists>r'. ls_entries rd stat wr path (adv r) w = map_option (Pair r') (print_all wr (dir_lines st path es) w)" for w
    using Cons.IH [OF c] Cons.prems(2) by simp
  obtain fmt args where l: "ls_line (path @ CHR ''/'' # de_string e) (st (path @ CHR ''/'' # de_string e)) = (fmt, args)" by fastforce
  show ?case
  proof (cases "de_number e = 0")
    case True
    then show ?thesis using ih [of w] Cons.prems(2) by (subst ls_entries.simps) (simp add: assms(1) e)
  next
    case False
    then show ?thesis using ih Cons.prems(2)
      by (subst ls_entries.simps) (cases "uprintf wr fmt args w"; simp add: assms(1,3) e l Let_def)
  qed
qed

text \<open>While \<^verbatim>\<open>fork\<close> and \<^verbatim>\<open>wait\<close> succeed in it, \<^verbatim>\<open>init\<close> does not exit, and it starts a shell only after the one before has been reaped.\<close>

lemma init_goes_on:
  "(\<And>x. x \<in> set xs \<Longrightarrow> 0 < x) \<Longrightarrow> at = AtFork \<or> (\<exists>p. at = AtWait p) \<Longrightarrow>
    fold (\<lambda>x at. fst (init_step at x)) xs at = AtFork \<or> (\<exists>p. fold (\<lambda>x at. fst (init_step at x)) xs at = AtWait p)"
proof (induction xs arbitrary: at)
  case (Cons x xs)
  have "0 < x" using Cons.prems(1) by simp
  then have "fst (init_step at x) = AtFork \<or> (\<exists>p. fst (init_step at x) = AtWait p)" using Cons.prems(2) by (elim disjE exE) simp_all
  then show ?case using Cons.IH [of "fst (init_step at x)"] Cons.prems(1) by simp
qed simp

lemma init_restarts: "init_step (AtWait p) x = (AtFork, out) \<longleftrightarrow> x = p \<and> out = ''init: starting sh'' @ [nl]"
  by auto

end
