(* ===== verification/Spec2Isabelle.thy ===== *)
theory Spec2Isabelle
  imports Sleep_Wakeup Cstring File_Write Dir_Lookup Trap_Path Boot Grep User_Tools Shell_Print Shell_Run Umalloc Trampoline Grind User_Main
begin

text \<open>
  A verification of xv6 for RISC-V, as found under \<^verbatim>\<open>src/xv6-riscv-labs-riscv\<close>: the kernel with its assembly, the user
  library and allocator, the shell and the user programs other than the tests.

  \<^bold>\<open>How the code is modelled.\<close> The kernel state is a chain of extensible records, one for each layer, in the order in
  which the layers build on each other: \<open>ksync\<close> (locks held, current process, process table, ticks), \<open>kmem\<close>, \<open>kvm\<close>,
  \<open>kpipe\<close>, \<open>kuart\<close>, \<open>kcons\<close>, \<open>ksleep\<close>, \<open>kbio\<close>, \<open>klog\<close>, \<open>kfs\<close>, \<open>kfile\<close>, \<open>kproc\<close>, \<open>kdisk\<close>, \<open>ktrap\<close>. A function of a layer is
  typed over every extension of its record, so that the layers above call it unchanged. A call returns (\<open>Inr\<close>) or
  stops (\<open>Inl\<close>): it panics, faults, spins on a lock that is taken, hangs, goes to sleep with the state in which it left
  the CPU, or exits. What runs after a sleep is a function of its own, named \<^verbatim>\<open>_resume\<close>. Machine integers are words of
  their width; memory is a function from 64-bit addresses to bytes, in which page tables, free pages and trap
  frames live at their addresses; structures that the code reaches only through their own type (processes, pipes, buffers, inodes) are
  tables. Loops are recursive functions with termination proofs.

  \<^bold>\<open>Prelude.\<close> \<^verbatim>\<open>Xv6_Base\<close>: word types, constants of \<^verbatim>\<open>kernel/param.h\<close>, the result type, sequencing and loops. \<^verbatim>\<open>Riscv\<close>: the
  control registers and page-table macros of \<^verbatim>\<open>kernel/riscv.h\<close>. \<^verbatim>\<open>Memory\<close>: bytes, little-endian words, ranges.
  \<^verbatim>\<open>Cstring\<close>: \<^verbatim>\<open>kernel/string.c\<close>. \<^verbatim>\<open>Ring\<close>: ring buffers with free-running counters; the locale \<open>fifo\<close>
  is interpreted for the pipe and the UART, and \<open>bounded_fifo\<close>, in which a buffer that tests for full and empty refines a bounded
  queue, for the pipe.

  \<^bold>\<open>Processes and locks.\<close>
  \<^item> \<^verbatim>\<open>Spinlock\<close> (\<^verbatim>\<open>kernel/spinlock.c\<close>): the operations on one hart, and a step relation for any number of harts with mutual
    exclusion by rule induction.
  \<^item> \<^verbatim>\<open>Proc\<close> (\<^verbatim>\<open>kernel/proc.c\<close>): sleep, wakeup, kill, the scheduler, reparenting. \<^verbatim>\<open>Sleep_Wakeup\<close>: the same protocol as an
    interleaving of any number of processes; no wakeup is lost.
  \<^item> \<^verbatim>\<open>Sleeplock\<close> (\<^verbatim>\<open>kernel/sleeplock.c\<close>). \<^verbatim>\<open>Proc_Life\<close>: allocation, fork, exit, wait and process listing. \<^verbatim>\<open>Exec\<close>
    (\<^verbatim>\<open>kernel/exec.c\<close>).

  \<^bold>\<open>Memory.\<close> \<^verbatim>\<open>Kalloc\<close> (\<^verbatim>\<open>kernel/kalloc.c\<close>): the free list in memory refines a list of free pages. \<^verbatim>\<open>Vm\<close>
  (\<^verbatim>\<open>kernel/vm.c\<close>): page tables, and what \<^verbatim>\<open>copyin\<close> and \<^verbatim>\<open>copyinstr\<close> read.

  \<^bold>\<open>Devices.\<close> \<^verbatim>\<open>Format\<close> (\<^verbatim>\<open>printf\<close> of kernel and user), \<^verbatim>\<open>Uart\<close>, \<^verbatim>\<open>Console\<close>, \<^verbatim>\<open>Pipe\<close> (a bounded queue, and what
  \<^verbatim>\<open>pipewrite\<close> and \<^verbatim>\<open>piperead\<close> do with user memory on every branch up to a sleep), \<^verbatim>\<open>Virtio\<close> (the descriptor rings of
  \<^verbatim>\<open>kernel/virtio_disk.c\<close>).

  \<^bold>\<open>File system.\<close>
  \<^item> \<^verbatim>\<open>Bio\<close> (\<^verbatim>\<open>kernel/bio.c\<close>) over the contract that \<^verbatim>\<open>virtio_disk_rw\<close> has carried out the request when it returns.
  \<^item> \<^verbatim>\<open>Log\<close>, \<^verbatim>\<open>Log_Crash\<close> (\<^verbatim>\<open>kernel/log.c\<close>): every disk write is recorded in order, a crash is a prefix of them; transactions
    are atomic.
  \<^item> \<^verbatim>\<open>Block\<close>, \<^verbatim>\<open>Fs_Alloc\<close>, \<^verbatim>\<open>Inode\<close>, \<^verbatim>\<open>Dir\<close> (\<^verbatim>\<open>kernel/fs.c\<close>): block allocation, inodes, content, directories, paths.
    \<^verbatim>\<open>Inode_Table\<close>: the in-memory table and the on-disk inode. \<^verbatim>\<open>File_Content\<close> and \<^verbatim>\<open>File_Write\<close>: a file is the sequence of bytes
    of its blocks; \<^verbatim>\<open>readi\<close> returns them and \<^verbatim>\<open>writei\<close> changes them and adds the blocks to the log. \<^verbatim>\<open>Dir_Lookup\<close>: what \<^verbatim>\<open>dirlookup\<close> finds. The
    statements hold for the file as the current transaction sees it, and need room in the log: a theorem that reads
    after logging a block asks for fewer than \<^verbatim>\<open>NBUF\<close> pinned blocks, since the cache has no other buffers.
  \<^item> \<^verbatim>\<open>File\<close> (\<^verbatim>\<open>kernel/file.c\<close>, and \<^verbatim>\<open>pipealloc\<close>), \<^verbatim>\<open>Sysfile\<close> (\<^verbatim>\<open>kernel/sysfile.c\<close>).

  \<^bold>\<open>Traps and booting.\<close> \<^verbatim>\<open>Sysarg\<close> (\<^verbatim>\<open>kernel/syscall.c\<close>, \<^verbatim>\<open>kernel/sysproc.c\<close>), \<^verbatim>\<open>Trap\<close> (\<^verbatim>\<open>kernel/trap.c\<close>, \<^verbatim>\<open>kernel/plic.c\<close>), \<^verbatim>\<open>Boot\<close>
  (\<^verbatim>\<open>kernel/start.c\<close>, \<^verbatim>\<open>kernel/main.c\<close>). \<^verbatim>\<open>Sleep_Live\<close> composes the sleep system call with the clock interrupt, wakeup and the
  scheduler; \<^verbatim>\<open>Trap_Path\<close> follows a system call from the trap to its handler and back to user mode.

  \<^bold>\<open>Assembly.\<close> \<^verbatim>\<open>Asm\<close> has an interpreter for the instructions that the kernel uses, on the registers and the kernel state, with
  loads and stores translated by the page table that satp selects, and the routines of \<^verbatim>\<open>entry.S\<close>, \<^verbatim>\<open>swtch.S\<close>, \<^verbatim>\<open>kernelvec.S\<close>
  and \<^verbatim>\<open>trampoline.S\<close> as lists of instructions. A saved context is resumed, a trap in the kernel is transparent, the timer is
  armed again. \<^verbatim>\<open>Trampoline\<close> composes \<^verbatim>\<open>uservec\<close>, \<^verbatim>\<open>usertrap\<close>, the handler, \<^verbatim>\<open>usertrapret\<close> and \<^verbatim>\<open>userret\<close>: the handler finds
  the registers of the process in its trap frame, and the process goes on with those that the handler left there and the result in a0.

  \<^bold>\<open>User programs.\<close> They see the kernel through system calls, which are parameters with the documented contract of
  \<^verbatim>\<open>read\<close> (\<open>delivers\<close>) and of \<^verbatim>\<open>open\<close> and \<^verbatim>\<open>close\<close> (\<open>serves\<close>) as hypotheses. \<^verbatim>\<open>User_Lib\<close> (\<^verbatim>\<open>user/ulib.c\<close>); \<^verbatim>\<open>Grep\<close>: the matcher decides the language of its
  patterns, and the output is the matching lines however the reads cut the input; \<^verbatim>\<open>User_Tools\<close>: \<^verbatim>\<open>wc\<close>, \<^verbatim>\<open>cat\<close>, \<^verbatim>\<open>echo\<close>,
  \<^verbatim>\<open>ls\<close>'s \<^verbatim>\<open>fmtname\<close>, \<^verbatim>\<open>pstree\<close>. \<^verbatim>\<open>Shell\<close>: the parser of \<^verbatim>\<open>user/sh.c\<close> on its line buffer, its termination and the form of its
  results; \<^verbatim>\<open>Shell_Print\<close>: parsing inverts printing; \<^verbatim>\<open>Shell_Run\<close>: \<^verbatim>\<open>runcmd\<close> as a tree of system calls, and the file
  descriptors of a pipeline. \<^verbatim>\<open>Umalloc\<close> (\<^verbatim>\<open>user/umalloc.c\<close>): the circular free list with its headers in memory refines an ordered list
  of blocks; \<^verbatim>\<open>sbrk\<close> is a parameter that returns fresh memory or fails. \<^verbatim>\<open>User_Main\<close>: \<^verbatim>\<open>main\<close> of \<^verbatim>\<open>cat\<close>, \<^verbatim>\<open>wc\<close>, \<^verbatim>\<open>grep\<close>, \<^verbatim>\<open>ls\<close>, \<^verbatim>\<open>ps\<close>, \<^verbatim>\<open>pstree\<close>,
  \<^verbatim>\<open>rm\<close>, \<^verbatim>\<open>mkdir\<close>, \<^verbatim>\<open>ln\<close>, \<^verbatim>\<open>kill\<close>, \<^verbatim>\<open>sleep\<close> and \<^verbatim>\<open>init\<close>, with \<^verbatim>\<open>fprintf\<close> as one \<^verbatim>\<open>write\<close> for each character. \<^verbatim>\<open>Grind\<close>: the random
  numbers of \<^verbatim>\<open>user/grind.c\<close> are the Park-Miller sequence.

  \<^bold>\<open>Bounds.\<close> Machine integers that the code only counts up or down by one (pids, reference counts, the nesting of \<^verbatim>\<open>push_off\<close>, block
  numbers in the loop of \<^verbatim>\<open>balloc\<close>) are unbounded in the model. Two functions take a bound on the depth of their calls. The parser of the shell allows four nested calls
  for each character of the line and four more, and \<open>parsecmd_ends\<close> shows that this is never exceeded. \<open>mktree\<close> needs one call
  more than there are processes with a greater pid. \<open>partial_function\<close>s (\<open>grep\<close>, \<open>wc_loop\<close>, \<open>cat\<close>, \<open>ls_entries\<close>,
  the loops of \<^verbatim>\<open>Umalloc\<close>, the string functions of \<^verbatim>\<open>User_Lib\<close>) give \<open>None\<close> when the C loop does not end, and the theorems about them state that they return.

  \<^bold>\<open>Not modelled.\<close> The TLB, caches and the memory order of the harts: \<^verbatim>\<open>sfence.vma\<close> does nothing and the interleavings are sequentially
  consistent. An interrupt between two instructions of an assembly routine. The compiler and its calling convention: the C code is
  a function on the kernel state, and what it leaves in the registers is arbitrary where assembly goes on after it. \<^verbatim>\<open>user/initcode.S\<close>,
  the system call stubs and the linker scripts are made or placed by the build; the addresses they give are fields of the state.
  \<^verbatim>\<open>kernel/ramdisk.c\<close> is not part of the kernel that is built. The test drivers (\<^verbatim>\<open>usertests\<close>, \<^verbatim>\<open>forktest\<close>, \<^verbatim>\<open>stressfs\<close>, \<^verbatim>\<open>pstest\<close>,
  \<^verbatim>\<open>zombie\<close> and the loop of \<^verbatim>\<open>grind\<close>) call the kernel in many orders and have no function that the system relies on. Stack depth
  is not bounded, and \<^verbatim>\<open>malloc\<close> in the shell is taken to succeed.
\<close>

end
